(* ===== verification/Rugo_Prelude.thy ===== *)
theory Rugo_Prelude
  imports Main "HOL-Library.Word" "HOL-Library.Monad_Syntax"
begin

text \<open>
  Shared vocabulary of the development: the machine types, the result type of code that may
  panic, and the parts of the Rust standard library the crates use (slices, indexing, checked
  arithmetic, little-endian integers, powers of two).

  A value of type \<open>'a option\<close> returned by an operation is the outcome of running it: \<open>Some r\<close>
  is a normal return, \<open>None\<close> is a panic (an index or a range out of bounds, a subtraction below
  zero) or a loop that does not end. \<open>returns m Q\<close> says that \<open>m\<close> returns normally with a result
  that satisfies \<open>Q\<close>, so every lemma of that shape is a total correctness statement.

  A \<open>usize\<close> is a \<open>nat\<close>: the sums the code forms are lengths and offsets of objects that exist in
  memory, while subtractions are checked and are shown never to go below zero. Fixed-width values
  whose bits matter (hashes, references, control bytes, clocks) are words.
\<close>

unbundle bit_operations_syntax

section \<open>Types and collections\<close>

type_synonym u8 = "8 word"
type_synonym u32 = "32 word"
type_synonym u64 = "64 word"
type_synonym bytes = "u8 list"

named_theorems wp_rules \<open>how a construct of the code returns\<close>
named_theorems panic_defs \<open>definitions of the operations that may panic\<close>

section \<open>Code that may panic\<close>

definition returns :: "'a option \<Rightarrow> ('a \<Rightarrow> bool) \<Rightarrow> bool" where
  "returns m Q \<longleftrightarrow> (\<exists>r. m = Some r \<and> Q r)"

lemma returns_Some [simp]: "returns (Some r) Q \<longleftrightarrow> Q r"
  by (simp add: returns_def)

lemma returns_None [simp]: "\<not> returns None Q"
  by (simp add: returns_def)

lemma returns_bind [simp]: "returns (Option.bind m f) Q \<longleftrightarrow> returns m (\<lambda>x. returns (f x) Q)"
  by (cases m) simp_all

lemma returnsI: "m = Some r \<Longrightarrow> Q r \<Longrightarrow> returns m Q"
  by (simp add: returns_def)

lemma returnsE:
  assumes "returns m Q" obtains r where "m = Some r" "Q r"
  using assms by (auto simp: returns_def)

lemma returns_mono: "returns m P \<Longrightarrow> (\<And>r. P r \<Longrightarrow> Q r) \<Longrightarrow> returns m Q"
  by (auto simp: returns_def)

lemma returns_conj: "returns m P \<Longrightarrow> returns m Q \<Longrightarrow> returns m (\<lambda>r. P r \<and> Q r)"
  by (auto simp: returns_def)

lemma returns_eq: "returns m (\<lambda>r. r = x) \<longleftrightarrow> m = Some x"
  by (auto simp: returns_def)

lemma returns_if [simp]:
  "returns (if b then m else n) Q \<longleftrightarrow> (if b then returns m Q else returns n Q)"
  by simp

section \<open>Checked arithmetic, indexing and slices\<close>

text \<open>Unsigned subtraction, which panics below zero.\<close>

definition usub :: "nat \<Rightarrow> nat \<Rightarrow> nat option" where
  "usub a b = (if b \<le> a then Some (a - b) else None)"

text \<open>\<open>xs[i]\<close>, \<open>xs[i] = v\<close>, \<open>&xs[a..b]\<close>, \<open>&xs[a..]\<close> and \<open>xs[a..b].copy_from_slice(src)\<close>.\<close>

definition idx :: "'a list \<Rightarrow> nat \<Rightarrow> 'a option" where
  "idx xs i = (if i < length xs then Some (xs ! i) else None)"

definition set_idx :: "'a list \<Rightarrow> nat \<Rightarrow> 'a \<Rightarrow> 'a list option" where
  "set_idx xs i v = (if i < length xs then Some (xs[i := v]) else None)"

definition slice :: "'a list \<Rightarrow> nat \<Rightarrow> nat \<Rightarrow> 'a list option" where
  "slice xs a b = (if a \<le> b \<and> b \<le> length xs then Some (take (b - a) (drop a xs)) else None)"

definition slice_from :: "'a list \<Rightarrow> nat \<Rightarrow> 'a list option" where
  "slice_from xs a = (if a \<le> length xs then Some (drop a xs) else None)"

definition splice :: "'a list \<Rightarrow> nat \<Rightarrow> 'a list \<Rightarrow> 'a list" where
  "splice xs a src = take a xs @ src @ drop (a + length src) xs"

definition copy_into :: "'a list \<Rightarrow> nat \<Rightarrow> nat \<Rightarrow> 'a list \<Rightarrow> 'a list option" where
  "copy_into xs a b src =
     (if a \<le> b \<and> b \<le> length xs \<and> length src = b - a then Some (splice xs a src) else None)"

lemmas [panic_defs] = usub_def idx_def set_idx_def slice_def slice_from_def copy_into_def

lemma returns_usub [wp_rules]: "returns (usub a b) Q \<longleftrightarrow> b \<le> a \<and> Q (a - b)"
  by (simp add: usub_def)

lemma returns_idx [wp_rules]: "returns (idx xs i) Q \<longleftrightarrow> i < length xs \<and> Q (xs ! i)"
  by (simp add: idx_def)

lemma returns_set_idx [wp_rules]: "returns (set_idx xs i v) Q \<longleftrightarrow> i < length xs \<and> Q (xs[i := v])"
  by (simp add: set_idx_def)

lemma returns_slice [wp_rules]:
  "returns (slice xs a b) Q \<longleftrightarrow> a \<le> b \<and> b \<le> length xs \<and> Q (take (b - a) (drop a xs))"
  by (auto simp: slice_def)

lemma returns_slice_from [wp_rules]:
  "returns (slice_from xs a) Q \<longleftrightarrow> a \<le> length xs \<and> Q (drop a xs)"
  by (auto simp: slice_from_def)

lemma returns_copy_into [wp_rules]:
  "returns (copy_into xs a b src) Q \<longleftrightarrow>
     a \<le> b \<and> b \<le> length xs \<and> length src = b - a \<and> Q (splice xs a src)"
  by (auto simp: copy_into_def)

lemma length_splice [simp]: "a + length src \<le> length xs \<Longrightarrow> length (splice xs a src) = length xs"
  by (simp add: splice_def)

lemma take_drop_splice_same [simp]:
  "a + length src \<le> length xs \<Longrightarrow> take (length src) (drop a (splice xs a src)) = src"
  by (simp add: splice_def)

lemma nth_splice:
  assumes "a + length src \<le> length xs" "i < length xs"
  shows "splice xs a src ! i =
    (if a \<le> i \<and> i < a + length src then src ! (i - a) else xs ! i)"
proof -
  have "min (length xs) a = a" using assms by simp
  then show ?thesis
    using assms by (auto simp: splice_def nth_append min_def)
qed

lemma take_drop_splice_other:
  assumes "a + length src \<le> length xs" "b + n \<le> a \<or> a + length src \<le> b" "b + n \<le> length xs"
  shows "take n (drop b (splice xs a src)) = take n (drop b xs)"
  by (rule nth_equalityI) (use assms in \<open>auto simp: nth_splice\<close>)

section \<open>Little-endian integers\<close>

fun le_word :: "bytes \<Rightarrow> 'a::len word" where
  "le_word [] = 0"
| "le_word (b # bs) = ucast b OR push_bit 8 (le_word bs)"

definition u32_from_le_bytes :: "bytes \<Rightarrow> u32" where
  "u32_from_le_bytes bs = le_word bs"

definition u32_to_le_bytes :: "u32 \<Rightarrow> bytes" where
  "u32_to_le_bytes w = map (\<lambda>i. ucast (drop_bit (8 * i) w)) [0..<4]"

definition u64_from_le_bytes :: "bytes \<Rightarrow> u64" where
  "u64_from_le_bytes bs = le_word bs"

lemma unat_u8_less [simp]: "unat (b :: u8) < 256"
  using unsigned_less [of b] by simp

lemma length_u32_to_le_bytes [simp]: "length (u32_to_le_bytes w) = 4"
  by (simp add: u32_to_le_bytes_def)

lemma bit_le_word:
  "bit (le_word bs :: 'a::len word) n \<longleftrightarrow>
     n < LENGTH('a) \<and> n div 8 < length bs \<and> bit (bs ! (n div 8)) (n mod 8)"
proof (induction bs arbitrary: n)
  case Nil
  then show ?case by simp
next
  case (Cons b bs)
  show ?case
  proof (cases "n < 8")
    case True
    then show ?thesis by (auto simp: bit_simps)
  next
    case False
    have "\<not> bit b n" using False by (simp add: bit_word.rep_eq not_less)
    moreover have "n div 8 = Suc ((n - 8) div 8)" "n mod 8 = (n - 8) mod 8"
      using False by (simp_all add: div_if mod_if)
    ultimately show ?thesis using False by (auto simp: bit_simps Cons)
  qed
qed

lemma u32_le_roundtrip [simp]: "u32_from_le_bytes (u32_to_le_bytes w) = w"
proof (rule bit_word_eqI)
  fix n assume "n < LENGTH(32)"
  then have n: "n < 32" "n div 8 < 4" by simp_all
  have "bit (u32_from_le_bytes (u32_to_le_bytes w)) n \<longleftrightarrow>
      bit (ucast (drop_bit (8 * (n div 8)) w) :: u8) (n mod 8)"
    using n by (simp add: u32_from_le_bytes_def bit_le_word) (simp add: u32_to_le_bytes_def)
  also have "\<dots> \<longleftrightarrow> bit w (8 * (n div 8) + n mod 8)"
    using n by (simp add: bit_simps)
  finally show "bit (u32_from_le_bytes (u32_to_le_bytes w)) n = bit w n"
    by simp
qed

section \<open>Bytes\<close>

lemma u8_top_bit: "w AND 0x80 = 0 \<longleftrightarrow> unat (w :: u8) < 0x80"
proof -
  have "w AND 0x80 = 0 \<longleftrightarrow> \<not> bit w 7"
    using and_exp_eq_0_iff_not_bit [of w 7] by simp
  also have "\<dots> \<longleftrightarrow> \<not> bit (unat w) 7"
    by (simp add: bit_simps)
  also have "\<dots> \<longleftrightarrow> even (unat w div 0x80)"
    by (simp add: bit_iff_odd)
  also have "unat w div 0x80 = (if unat w < 0x80 then 0 else 1)"
    using unat_u8_less [of w] by (auto intro: div_nat_eqI)
  finally show ?thesis by (simp split: if_splits)
qed

lemma unat_u8_low: "unat (w AND 0x7f :: u8) = unat w mod 0x80"
proof -
  have "(0x7f :: u8) = mask 7" by (simp add: mask_eq_exp_minus_1)
  then have "unat (w AND 0x7f :: u8) = unat (take_bit 7 w)"
    by (simp add: take_bit_eq_mask)
  then show ?thesis by (simp add: take_bit_eq_mod unat_mod)
qed

lemma unat_u8_or_top: "unat (w :: u8) < 0x80 \<Longrightarrow> unat (w OR 0x80) = unat w + 0x80"
proof -
  assume a: "unat w < 0x80"
  then have "w AND 0x80 = 0" by (simp add: u8_top_bit)
  then have "w OR 0x80 = w + 0x80" by (simp add: disjunctive_add_eq_or)
  then show ?thesis using a by (simp add: unat_word_ariths)
qed

lemma or_push_bit_nat: "(a :: nat) < 2 ^ n \<Longrightarrow> a OR push_bit n b = a + push_bit n b"
  by (rule disjunctive_add_eq_or [symmetric])
     (auto simp: bit_eq_iff bit_simps not_le simp flip: take_bit_nat_eq_self_iff)

lemma xor_zero_iff: "(x :: u8) XOR b = 0 \<longleftrightarrow> x = b"
  by (metis xor.right_neutral xor_self_eq xor.assoc)

text \<open>\<^verbatim>\<open>trailing_zeros\<close> of a 64-bit word.\<close>

definition trailing_zeros :: "u64 \<Rightarrow> nat" where
  "trailing_zeros w = length (takeWhile (\<lambda>i. \<not> bit w i) [0..<64])"

lemma trailing_zeros_first:
  assumes "m \<noteq> 0"
  shows "trailing_zeros m < 64" "bit m (trailing_zeros m)" "k < trailing_zeros m \<Longrightarrow> \<not> bit m k"
proof -
  obtain n where n: "bit m n" using assms bit_eqI [of m 0] by auto
  then have "n < 64" using bit_imp_le_length [of m n] by simp
  then have "takeWhile (\<lambda>i. \<not> bit m i) [0..<64] \<noteq> [0..<64]"
    using n by (auto simp: takeWhile_eq_all_conv)
  then have less: "length (takeWhile (\<lambda>i. \<not> bit m i) [0..<64]) < length [0..<64 :: nat]"
    by (metis (no_types) length_takeWhile_le le_neq_implies_less takeWhile_eq_take take_all_iff linorder_le_less_linear)
  then show "trailing_zeros m < 64" by (simp add: trailing_zeros_def)
  show "bit m (trailing_zeros m)"
    using nth_length_takeWhile [OF less] less by (simp add: trailing_zeros_def)
  show "\<not> bit m k" if "k < trailing_zeros m"
    using that less takeWhile_nth [of k "\<lambda>i. \<not> bit m i" "[0..<64]"] nth_mem [of k "takeWhile (\<lambda>i. \<not> bit m i) [0..<64]"]
    by (auto simp: trailing_zeros_def dest!: set_takeWhileD)
qed

end
