(* ===== verification/Rugo_Lock.thy ===== *)
theory Rugo_Lock
  imports Rugo_Prelude
begin

text \<open>
  The spinning lock of a shard, \<^verbatim>\<open>crates/rugo-map/src/lock.rs\<close>, as a transition system: any number
  of threads, each running the statements of \<^verbatim>\<open>lock\<close>, \<^verbatim>\<open>try_lock\<close> and the guard's \<^verbatim>\<open>drop\<close>, one atomic
  access at a time and interleaved in any order. A critical section is not one step: the guard's
  deref gives plain memory, so what it does with the value is a read, then a write of what it made
  of the value it read, and then possibly more of the same before the drop; other threads step in
  between, and only the lock keeps them from the value. The weak exchange may fail while the lock is free,
  so a failed attempt is a step from every state. The acquire and release orderings are what makes
  one order of the steps enough, and are taken as such.
\<close>

definition SPINS :: nat where "SPINS = 40"

text \<open>
  Where a thread is. It carries what it will do with the value once it has the guard.
  \<open>Trying wait\<close> is at the exchange, called from \<^verbatim>\<open>lock\<close> (which waits) or from \<^verbatim>\<open>try_lock\<close> (which does not);
  \<open>Waiting\<close> is in the read loop with its count of spins; \<open>Holding f\<close> has the guard and is about to read
  the value through it; \<open>Writing f x\<close> has read \<open>x\<close> and is about to write \<open>f x\<close>; \<open>Dropping\<close> has written and is at
  the guard's release, unless it goes back for another access.
\<close>

datatype 'v pc = Outside | Trying bool "'v \<Rightarrow> 'v" | Waiting nat "'v \<Rightarrow> 'v" | Holding "'v \<Rightarrow> 'v"
  | Writing "'v \<Rightarrow> 'v" 'v | Dropping

record 'v Lock =
  lk_held :: bool
  lk_value :: 'v

definition lock_new :: "'v \<Rightarrow> 'v Lock" where
  "lock_new v = \<lparr> lk_held = False, lk_value = v \<rparr>"

definition try_lock :: "'v Lock \<Rightarrow> bool \<times> 'v Lock" where
  "try_lock l = (if lk_held l then (False, l) else (True, l\<lparr> lk_held := True \<rparr>))"

definition guard_drop :: "'v Lock \<Rightarrow> 'v Lock" where
  "guard_drop l = l\<lparr> lk_held := False \<rparr>"

text \<open>
  The lock, the threads, and a log of the updates whose write has been made. The log is bookkeeping
  of the specification: no step reads it, and a write stores what the thread computed from its own
  earlier read, whatever the value has become since.
\<close>

type_synonym 'v world = "'v Lock \<times> (nat \<Rightarrow> 'v pc) \<times> ('v \<Rightarrow> 'v) list"

inductive lock_step :: "'v world \<Rightarrow> 'v world \<Rightarrow> bool" where
  call: "pcs i = Outside \<Longrightarrow> lock_step (l, pcs, log) (l, pcs(i := Trying wait f), log)"
| acquire: "pcs i = Trying wait f \<Longrightarrow> try_lock l = (True, l') \<Longrightarrow>
    lock_step (l, pcs, log) (l', pcs(i := Holding f), log)"
| refused: "pcs i = Trying True f \<Longrightarrow> lock_step (l, pcs, log) (l, pcs(i := Waiting 0 f), log)"
| give_up: "pcs i = Trying False f \<Longrightarrow> lock_step (l, pcs, log) (l, pcs(i := Outside), log)"
| spin: "pcs i = Waiting spun f \<Longrightarrow> lk_held l \<Longrightarrow>
    lock_step (l, pcs, log) (l, pcs(i := Waiting (if spun < SPINS then spun + 1 else spun) f), log)"
| retry: "pcs i = Waiting spun f \<Longrightarrow> \<not> lk_held l \<Longrightarrow> lock_step (l, pcs, log) (l, pcs(i := Trying True f), log)"
| load: "pcs i = Holding f \<Longrightarrow> lock_step (l, pcs, log) (l, pcs(i := Writing f (lk_value l)), log)"
| store: "pcs i = Writing f x \<Longrightarrow>
    lock_step (l, pcs, log) (l\<lparr> lk_value := f x \<rparr>, pcs(i := Dropping), log @ [f])"
| again: "pcs i = Dropping \<Longrightarrow> lock_step (l, pcs, log) (l, pcs(i := Holding f), log)"
| release: "pcs i = Dropping \<Longrightarrow> lock_step (l, pcs, log) (guard_drop l, pcs(i := Outside), log)"

definition lock_start :: "'v \<Rightarrow> 'v world" where
  "lock_start v = (lock_new v, \<lambda>i. Outside, [])"

definition has_guard :: "'v pc \<Rightarrow> bool" where
  "has_guard c = (case c of Holding f \<Rightarrow> True | Writing f x \<Rightarrow> True | Dropping \<Rightarrow> True | _ \<Rightarrow> False)"

lemma has_guard_simps [simp]:
  "has_guard (Holding f)" "has_guard Dropping" "\<not> has_guard Outside" "\<not> has_guard (Trying w f)" "\<not> has_guard (Waiting n f)"
  "has_guard (Writing f x)"
  by (simp_all add: has_guard_def)

inductive_cases lock_stepE: "lock_step (l, pcs, log) w"

definition exclusive :: "(nat \<Rightarrow> 'v pc) \<Rightarrow> bool" where
  "exclusive pcs \<longleftrightarrow> (\<forall>i j. has_guard (pcs i) \<longrightarrow> has_guard (pcs j) \<longrightarrow> i = j)"

definition lock_inv :: "'v \<Rightarrow> 'v world \<Rightarrow> bool" where
  "lock_inv v = (\<lambda>(l, pcs, log).
     (lk_held l \<longleftrightarrow> (\<exists>i. has_guard (pcs i))) \<and>
     exclusive pcs \<and>
     lk_value l = fold (\<lambda>f. f) log v \<and>
     (\<forall>i f x. pcs i = Writing f x \<longrightarrow> x = lk_value l) \<and>
     (\<forall>i n f. pcs i = Waiting n f \<longrightarrow> n \<le> SPINS))"

lemma lock_inv_same:
  assumes inv: "lock_inv v (l, pcs, log)" and same: "has_guard c = has_guard (pcs i)" and spun: "\<And>n f. c = Waiting n f \<Longrightarrow> n \<le> SPINS"
    and seen: "\<And>f x. c = Writing f x \<Longrightarrow> x = lk_value l"
  shows "lock_inv v (l, pcs(i := c), log)"
proof -
  have guards: "has_guard ((pcs(i := c)) j) = has_guard (pcs j)" for j using same by simp
  have "exclusive (pcs(i := c)) = exclusive pcs" unfolding exclusive_def guards ..
  then show ?thesis using inv spun seen unfolding lock_inv_def prod.case guards by auto
qed

lemma lock_inv_step: "lock_step w w' \<Longrightarrow> lock_inv v w \<Longrightarrow> lock_inv v w'"
proof (induction rule: lock_step.induct)
  case (acquire pcs i wait f l l' log)
  then have l: "\<not> lk_held l" "l' = l\<lparr> lk_held := True \<rparr>" by (auto simp: try_lock_def split: if_splits)
  then have "\<not> has_guard (pcs j)" for j using acquire(3) by (auto simp: lock_inv_def)
  then have "has_guard ((pcs(i := Holding f)) j) \<longleftrightarrow> j = i" for j by simp
  then show ?case using acquire(3) l unfolding lock_inv_def prod.case exclusive_def by auto
next
  case (store pcs i f x l log)
  then have "lock_inv v (l, pcs(i := Dropping), log)" by (intro lock_inv_same) simp_all
  moreover have "x = lk_value l" using store by (auto simp: lock_inv_def)
  moreover have "(pcs(i := Dropping)) j \<noteq> Writing g y" for j g y
  proof
    assume "(pcs(i := Dropping)) j = Writing g y"
    then have "pcs j = Writing g y" "j \<noteq> i" by (auto split: if_splits)
    then show False using store unfolding lock_inv_def prod.case exclusive_def by (metis has_guard_simps(6))
  qed
  ultimately show ?case unfolding lock_inv_def prod.case by simp
next
  case (release pcs i l log)
  then have "has_guard (pcs j) \<Longrightarrow> j = i" for j unfolding lock_inv_def prod.case exclusive_def by (metis has_guard_simps(2))
  then show ?case using release unfolding lock_inv_def prod.case guard_drop_def exclusive_def by auto
next
  case (spin pcs i spun f l log)
  then have "spun \<le> SPINS" unfolding lock_inv_def prod.case by blast
  then show ?case using spin by (intro lock_inv_same) (auto split: if_splits)
qed (auto intro!: lock_inv_same)

lemma lock_inv_reach: "lock_step\<^sup>*\<^sup>* (lock_start v) w \<Longrightarrow> lock_inv v w"
proof (induction rule: rtranclp_induct)
  case base
  show ?case by (simp add: lock_start_def lock_new_def lock_inv_def exclusive_def)
qed (rule lock_inv_step)

text \<open>
  C40: however the threads interleave, at most one of them holds a guard at any moment, the flag says
  exactly whether one does, and no update is lost: although each access reads the value in one step
  and writes it back in a later one, the guarded value is what the logged updates make of the first
  value when each is applied to the result of the one before.
\<close>

theorem lock_excludes:
  assumes "lock_step\<^sup>*\<^sup>* (lock_start v) (l, pcs, log)"
  shows "(lk_held l \<longleftrightarrow> (\<exists>i. has_guard (pcs i))) \<and>
    (\<forall>i j. has_guard (pcs i) \<longrightarrow> has_guard (pcs j) \<longrightarrow> i = j) \<and> lk_value l = fold (\<lambda>f. f) log v"
  using lock_inv_reach [OF assms] unfolding lock_inv_def prod.case exclusive_def by blast

text \<open>Two threads that increment a number: the first has the guard and the second waits for it.\<close>

definition two_threads :: "nat \<Rightarrow> nat pc" where
  "two_threads = (\<lambda>i. Outside)(0 := Holding Suc, 1 := Waiting 0 Suc)"

lemma two_threads_reached: "lock_step\<^sup>*\<^sup>* (lock_start 0) (\<lparr> lk_held = True, lk_value = 0 \<rparr>, two_threads, [])"
proof -
  let ?l = "\<lparr> lk_held = True, lk_value = 0 \<rparr> :: nat Lock" and ?out = "\<lambda>i. Outside :: nat pc"
  have "lock_step (lock_new 0, ?out, []) (lock_new 0, ?out(0 := Trying True Suc), [])" by (rule lock_step.call) simp
  moreover have "lock_step (lock_new 0, ?out(0 := Trying True Suc), []) (?l, ?out(0 := Trying True Suc, 0 := Holding Suc), [])"
    by (rule lock_step.acquire [where wait = True]) (simp_all add: try_lock_def lock_new_def)
  moreover have "lock_step (?l, ?out(0 := Holding Suc), []) (?l, ?out(0 := Holding Suc, 1 := Trying True Suc), [])"
    by (rule lock_step.call) simp
  moreover have "lock_step (?l, ?out(0 := Holding Suc, 1 := Trying True Suc), [])
      (?l, ?out(0 := Holding Suc, 1 := Trying True Suc, 1 := Waiting 0 Suc), [])"
    by (rule lock_step.refused) simp
  ultimately show ?thesis by (simp add: lock_start_def two_threads_def)
qed

text \<open>The first has read and written, and the second still waits.\<close>

definition one_counted :: "nat \<Rightarrow> nat pc" where
  "one_counted = two_threads(0 := Dropping)"

lemma one_counted_reached: "lock_step\<^sup>*\<^sup>* (lock_start 0) (\<lparr> lk_held = True, lk_value = 1 \<rparr>, one_counted, [Suc])"
proof -
  let ?l = "\<lparr> lk_held = True, lk_value = 0 \<rparr> :: nat Lock" and ?w = "two_threads(0 := Writing Suc 0)"
  have "lock_step (?l, two_threads, []) (?l, ?w, [])"
    using lock_step.load [of two_threads 0 Suc ?l "[]"] by (simp add: two_threads_def)
  moreover have "lock_step (?l, ?w, []) (\<lparr> lk_held = True, lk_value = 1 \<rparr>, one_counted, [Suc])"
    using lock_step.store [of ?w 0 Suc 0 ?l "[]"] by (simp add: one_counted_def)
  ultimately show ?thesis using two_threads_reached by (meson rtranclp.rtrancl_into_rtrancl)
qed

theorem lock_excludes_witness:
  "(\<exists>i. has_guard (one_counted i)) \<and> \<not> has_guard (one_counted 1) \<and> (1::nat) = fold (\<lambda>f. f) [Suc] 0"
proof -
  have "has_guard (one_counted 0)" by (simp add: one_counted_def)
  then show ?thesis using lock_excludes [OF one_counted_reached] by fastforce
qed

text \<open>From any state, whoever holds the guard can be followed to its release.\<close>

lemma lock_frees:
  assumes "lock_inv v (l, pcs, log)"
  shows "\<exists>l' pcs' log'. lock_step\<^sup>*\<^sup>* (l, pcs, log) (l', pcs', log') \<and> \<not> lk_held l' \<and>
    (\<forall>i. \<not> has_guard (pcs i) \<longrightarrow> pcs' i = pcs i)"
proof (cases "lk_held l")
  case False
  then show ?thesis by blast
next
  case True
  then obtain h where h: "has_guard (pcs h)" using assms by (auto simp: lock_inv_def)
  have drop: "\<exists>l' pcs' log'. lock_step\<^sup>*\<^sup>* (l1, pcs1, log1) (l', pcs', log') \<and> \<not> lk_held l' \<and> (\<forall>i. i \<noteq> h \<longrightarrow> pcs' i = pcs1 i)"
    if "pcs1 h = Dropping" for l1 pcs1 log1
    using lock_step.release [of pcs1 h l1 log1] that
    by (intro exI [of _ "guard_drop l1"] exI [of _ "pcs1(h := Outside)"] exI [of _ log1]) (auto simp: guard_drop_def)
  have finish: "\<exists>l' pcs' log'. lock_step\<^sup>*\<^sup>* (l1, pcs1, log1) (l', pcs', log') \<and> \<not> lk_held l' \<and> (\<forall>i. i \<noteq> h \<longrightarrow> pcs' i = pcs1 i)"
    if "pcs1 h = Writing f x" for l1 pcs1 log1 f x
  proof -
    let ?l = "l1\<lparr> lk_value := f x \<rparr>" and ?pcs = "pcs1(h := Dropping)"
    have "lock_step (l1, pcs1, log1) (?l, ?pcs, log1 @ [f])" using that by (rule lock_step.store)
    moreover obtain l' pcs' log' where "lock_step\<^sup>*\<^sup>* (?l, ?pcs, log1 @ [f]) (l', pcs', log')" "\<not> lk_held l'" "\<forall>i. i \<noteq> h \<longrightarrow> pcs' i = ?pcs i"
      using drop [of ?pcs ?l "log1 @ [f]"] by auto
    ultimately show ?thesis
      by (intro exI [of _ l'] exI [of _ pcs'] exI [of _ log']) (auto intro: converse_rtranclp_into_rtranclp)
  qed
  show ?thesis
  proof (cases "pcs h")
    case (Holding f)
    let ?pcs = "pcs(h := Writing f (lk_value l))"
    have "lock_step (l, pcs, log) (l, ?pcs, log)" using Holding by (rule lock_step.load)
    moreover obtain l' pcs' log' where "lock_step\<^sup>*\<^sup>* (l, ?pcs, log) (l', pcs', log')" "\<not> lk_held l'" "\<forall>i. i \<noteq> h \<longrightarrow> pcs' i = ?pcs i"
      using finish [of ?pcs f "lk_value l" l log] by auto
    ultimately show ?thesis
      using h by (intro exI [of _ l'] exI [of _ pcs'] exI [of _ log']) (auto intro: converse_rtranclp_into_rtranclp)
  next
    case (Writing f x)
    then show ?thesis using finish [of pcs f x l log] h by fastforce
  next
    case Dropping
    then show ?thesis using drop [of pcs l log] h by fastforce
  qed (use h in auto)
qed

text \<open>
  No deadlock: from every state the threads can reach, every thread waiting for the lock can
  still come to hold it, with the critical section it came for.
\<close>

theorem lock_obtainable:
  assumes reach: "lock_step\<^sup>*\<^sup>* (lock_start v) (l, pcs, log)" and waits: "pcs i = Waiting n f \<or> pcs i = Trying True f"
  shows "\<exists>l' pcs' log'. lock_step\<^sup>*\<^sup>* (l, pcs, log) (l', pcs', log') \<and> pcs' i = Holding f \<and> lk_held l'"
proof -
  obtain l1 pcs1 log1 where free: "lock_step\<^sup>*\<^sup>* (l, pcs, log) (l1, pcs1, log1)" "\<not> lk_held l1" "pcs1 i = pcs i"
    using lock_frees [OF lock_inv_reach [OF reach]] waits by (metis has_guard_simps(4,5))
  have got: "\<exists>l' pcs' log'. lock_step (l1, pcs2, log1) (l', pcs', log') \<and> pcs' i = Holding f \<and> lk_held l'"
    if "pcs2 i = Trying True f" for pcs2
    using lock_step.acquire [of pcs2 i True f l1 "l1\<lparr> lk_held := True \<rparr>" log1] free(2) that
    by (intro exI [of _ "l1\<lparr> lk_held := True \<rparr>"] exI [of _ "pcs2(i := Holding f)"] exI [of _ log1]) (auto simp: try_lock_def)
  show ?thesis
  proof (cases "pcs i = Trying True f")
    case True
    then show ?thesis using got [of pcs1] free by (metis rtranclp.rtrancl_into_rtrancl)
  next
    case False
    then have "lock_step (l1, pcs1, log1) (l1, pcs1(i := Trying True f), log1)"
      using waits free by (intro lock_step.retry) auto
    then have "lock_step\<^sup>*\<^sup>* (l, pcs, log) (l1, pcs1(i := Trying True f), log1)" using free(1) by simp
    then show ?thesis using got [of "pcs1(i := Trying True f)"] by (metis fun_upd_same rtranclp.rtrancl_into_rtrancl)
  qed
qed

theorem lock_obtainable_witness:
  "\<exists>l' pcs' log'. lock_step\<^sup>*\<^sup>* (\<lparr> lk_held = True, lk_value = 0 \<rparr>, two_threads, []) (l', pcs', log') \<and>
     pcs' 1 = Holding Suc \<and> lk_held l'"
  by (rule lock_obtainable [OF two_threads_reached, where n = 0]) (simp add: two_threads_def)

end
