(* ===== verification/Rugo_Hash.thy ===== *)
theory Rugo_Hash
  imports Rugo_Prelude
begin

text \<open>
  The seeded short-key hash, \<^verbatim>\<open>crates/rugo-hash/src/lib.rs\<close>: the mixing primitive, the
  five length branches of \<^verbatim>\<open>hash\<close>, the four-lane loop for long keys, and the buffering
  \<^verbatim>\<open>Hasher\<close>. The operating system's seed is an argument of everything that uses one.
\<close>

section \<open>The mixing primitive and the loads\<close>

definition P0 :: u64 where "P0 = 0x243f6a8885a308d3"
definition P1 :: u64 where "P1 = 0x13198a2e03707344"
definition P2 :: u64 where "P2 = 0xa4093822299f31d0"
definition P3 :: u64 where "P3 = 0x082efa98ec4e6c89"

definition hash_fold :: "u64 \<Rightarrow> u64 \<Rightarrow> u64" where
  "hash_fold a b =
     (let wide = (ucast a :: 128 word) * (ucast b :: 128 word)
      in (ucast wide :: u64) XOR (ucast (drop_bit 64 wide) :: u64))"

definition hash_word :: "bytes \<Rightarrow> u64 option" where
  "hash_word bs = do { buf \<leftarrow> slice bs 0 8; Some (u64_from_le_bytes buf) }"

definition hash_half :: "bytes \<Rightarrow> u64 option" where
  "hash_half bs = do { buf \<leftarrow> slice bs 0 4; Some (ucast (u32_from_le_bytes buf) :: u64) }"

definition word_at :: "bytes \<Rightarrow> nat \<Rightarrow> u64 option" where
  "word_at bs i = do { rest \<leftarrow> slice_from bs i; hash_word rest }"

definition half_at :: "bytes \<Rightarrow> nat \<Rightarrow> u64 option" where
  "half_at bs i = do { rest \<leftarrow> slice_from bs i; hash_half rest }"

section \<open>Long keys\<close>

type_synonym lanes = "u64 \<times> u64 \<times> u64 \<times> u64"

function long_loop :: "lanes \<Rightarrow> bytes \<Rightarrow> lanes option" where
  "long_loop (l0, l1, l2, l3) rest =
     (if length rest < 32 then Some (l0, l1, l2, l3)
      else do {
        w0 \<leftarrow> hash_word rest;
        w1 \<leftarrow> word_at rest 8;
        w2 \<leftarrow> word_at rest 16;
        w3 \<leftarrow> word_at rest 24;
        long_loop (hash_fold (l0 XOR w0) P0, hash_fold (l1 XOR w1) P1,
                   hash_fold (l2 XOR w2) P2, hash_fold (l3 XOR w3) P3) (drop 32 rest) })"
  by pat_completeness auto
termination
  by (relation "measure (\<lambda>(l, rest). length rest)") auto

declare long_loop.simps [simp del]

definition long :: "bytes \<Rightarrow> u64 \<Rightarrow> (u64 \<times> u64) option" where
  "long key start = do {
     (l0, l1, l2, l3) \<leftarrow>
        long_loop (start XOR P0, start XOR P1, start XOR P2, start XOR P3) key;
     from \<leftarrow> usub (length key) 32;
     tail \<leftarrow> slice_from key from;
     w0 \<leftarrow> hash_word tail;
     w1 \<leftarrow> word_at tail 8;
     w2 \<leftarrow> word_at tail 16;
     w3 \<leftarrow> word_at tail 24;
     Some (hash_fold (l0 XOR w0) ((l1 XOR w1) XOR P2),
           hash_fold (l2 XOR w2) ((l3 XOR w3) XOR P3)) }"

section \<open>The hash\<close>

definition hash :: "bytes \<Rightarrow> u64 \<Rightarrow> u64 option" where
  "hash key seed =
     (let len = length key;
          start = seed XOR hash_fold (seed XOR P0) (of_nat len XOR P1)
      in do {
        (a, b) \<leftarrow>
          (if len = 0 then Some (P2, P3)
           else if len \<le> 3 then do {
             front \<leftarrow> idx key 0;
             middle \<leftarrow> idx key (len div 2);
             back \<leftarrow> idx key (len - 1);
             let packed = (push_bit 48 (ucast front) OR push_bit 24 (ucast middle) OR ucast back :: u64);
             Some (packed XOR P2, start XOR P3) }
           else if len \<le> 7 then do {
             front \<leftarrow> hash_half key;
             back \<leftarrow> half_at key (len - 4);
             Some (front XOR P2, back XOR P3) }
           else if len \<le> 16 then do {
             front \<leftarrow> hash_word key;
             back \<leftarrow> word_at key (len - 8);
             Some (front XOR P2, back XOR P3) }
           else if len \<le> 32 then do {
             w0 \<leftarrow> hash_word key;
             w1 \<leftarrow> word_at key 8;
             w2 \<leftarrow> word_at key (len - 16);
             w3 \<leftarrow> word_at key (len - 8);
             Some (hash_fold (w0 XOR P2) (w1 XOR P3), hash_fold (w2 XOR P0) (w3 XOR P1)) }
           else long key start);
        Some (hash_fold (a XOR start) (b XOR (P1 + of_nat len))) })"

record RugoHasher =
  hasher_seed :: u64
  hasher_buf :: bytes

definition with_seed :: "u64 \<Rightarrow> RugoHasher" where
  "with_seed s = \<lparr>hasher_seed = s, hasher_buf = []\<rparr>"

definition hasher_finish :: "RugoHasher \<Rightarrow> u64 option" where
  "hasher_finish h = hash (hasher_buf h) (hasher_seed h)"

definition hasher_write :: "RugoHasher \<Rightarrow> bytes \<Rightarrow> RugoHasher" where
  "hasher_write h bs = h\<lparr>hasher_buf := hasher_buf h @ bs\<rparr>"

text \<open>The hash as a value, for specifications of the code that places keys with it.\<close>

definition hash_of :: "u64 \<Rightarrow> bytes \<Rightarrow> u64" where
  "hash_of seed key = the (hash key seed)"

section \<open>Every load is in bounds\<close>

lemma returns_hash_word [wp_rules]:
  "returns (hash_word bs) Q \<longleftrightarrow> 8 \<le> length bs \<and> Q (u64_from_le_bytes (take 8 bs))"
  by (auto simp: hash_word_def wp_rules)

lemma returns_hash_half [wp_rules]:
  "returns (hash_half bs) Q \<longleftrightarrow> 4 \<le> length bs \<and> Q (ucast (u32_from_le_bytes (take 4 bs)))"
  by (auto simp: hash_half_def wp_rules)

lemma returns_word_at [wp_rules]:
  "returns (word_at bs i) Q \<longleftrightarrow> i + 8 \<le> length bs \<and> Q (u64_from_le_bytes (take 8 (drop i bs)))"
  by (auto simp: word_at_def wp_rules)

lemma returns_half_at [wp_rules]:
  "returns (half_at bs i) Q \<longleftrightarrow>
     i + 4 \<le> length bs \<and> Q (ucast (u32_from_le_bytes (take 4 (drop i bs))))"
  by (auto simp: half_at_def wp_rules)

lemma hash_word_Some: "8 \<le> length bs \<Longrightarrow> hash_word bs = Some (u64_from_le_bytes (take 8 bs))"
  by (simp add: returns_hash_word flip: returns_eq)

lemma word_at_Some:
  "i + 8 \<le> length bs \<Longrightarrow> word_at bs i = Some (u64_from_le_bytes (take 8 (drop i bs)))"
  by (simp add: returns_word_at flip: returns_eq)

lemma long_loop_returns: "returns (long_loop l rest) (\<lambda>_. True)"
proof (induction l rest rule: long_loop.induct)
  case (1 l0 l1 l2 l3 rest)
  then show ?case
    by (subst long_loop.simps) (auto simp: hash_word_Some word_at_Some)
qed

lemma long_returns: "32 \<le> length key \<Longrightarrow> returns (long key start) (\<lambda>_. True)"
  unfolding long_def
  by (auto simp: wp_rules split: prod.splits intro: returns_mono [OF long_loop_returns])

lemma hash_returns: "returns (hash key seed) (\<lambda>_. True)"
  unfolding hash_def Let_def
  by (auto simp: wp_rules split: prod.splits intro!: returns_mono [OF long_returns])

lemma hash_eq [simp]: "hash key seed = Some (hash_of seed key)"
  using hash_returns [of key seed] by (auto simp: hash_of_def elim: returnsE)

section \<open>The seed\<close>

text \<open>
  \<^verbatim>\<open>seed()\<close>: eight bytes of the system's generator when it gives them, or else a mix of the clock
  (seconds and nanoseconds since the epoch, if it stands after it) and the address of a heap cell.
\<close>

definition fresh_seed :: "bytes option \<Rightarrow> (u64 \<times> u32) option \<Rightarrow> u64 \<Rightarrow> u64" where
  "fresh_seed urandom clock address =
     (case urandom of
        Some buf \<Rightarrow> u64_from_le_bytes buf
      | None \<Rightarrow>
          (let now = (case clock of None \<Rightarrow> 0 | Some (secs, nanos) \<Rightarrow> hash_fold secs (ucast nanos))
           in hash_fold (now XOR P0) (address XOR P1) OR 1))"

section \<open>Properties\<close>

text \<open>
  C36: hashing a key in pieces through the \<^verbatim>\<open>Hasher\<close> interface never panics and gives the value the
  function gives for the whole key, however the key was cut.
\<close>

theorem hasher_agrees:
  "hasher_finish (fold (\<lambda>bs h. hasher_write h bs) pieces (with_seed s)) = hash (concat pieces) s \<and>
   hash (concat pieces) s \<noteq> None"
proof -
  have "hasher_buf (fold (\<lambda>bs h. hasher_write h bs) pieces h) = hasher_buf h @ concat pieces \<and>
      hasher_seed (fold (\<lambda>bs h. hasher_write h bs) pieces h) = hasher_seed h" for h
    by (induction pieces arbitrary: h) (simp_all add: hasher_write_def)
  then show ?thesis by (simp add: hasher_finish_def with_seed_def)
qed

end
