(* ===== verification/Rugo_Entry.thy ===== *)
theory Rugo_Entry
  imports Rugo_Prelude
begin

text \<open>
  How one cached entry is laid out in bytes, \<^verbatim>\<open>crates/rugo-map/src/entry.rs\<close>: the LEB128
  lengths, the flags byte that carries the length of a short key, the writer and the header
  decoder. \<open>entry_bytes\<close> is the layout as a value; the writer is shown to produce it and the
  reader to invert it, also when the reader sees only the first bytes of the block.
\<close>

section \<open>Variable-length integers\<close>

definition HAS_EXPIRY :: u8 where "HAS_EXPIRY = 1"
definition HAS_USER_FLAGS :: u8 where "HAS_USER_FLAGS = 2"
definition KLEN_SHIFT :: nat where "KLEN_SHIFT = 2"
definition KLEN_INLINE :: nat where "KLEN_INLINE = 62"

definition varint_len :: "nat \<Rightarrow> nat" where
  "varint_len value =
     (if value \<le> 0x7f then 1
      else if value \<le> 0x3fff then 2
      else if value \<le> 0x1fffff then 3
      else if value \<le> 0xfffffff then 4
      else 5)"

function put_varint_loop :: "bytes \<Rightarrow> nat \<Rightarrow> nat \<Rightarrow> (bytes \<times> nat) option" where
  "put_varint_loop into value i =
     (let byte = (of_nat (value mod 0x80) :: u8); rest = value div 0x80
      in if rest = 0 then do { into' \<leftarrow> set_idx into i byte; Some (into', i + 1) }
         else do {
           into' \<leftarrow> set_idx into i (byte OR 0x80);
           put_varint_loop into' rest (i + 1) })"
  by pat_completeness auto
termination
  by (relation "measure (\<lambda>(into, value, i). value)") auto

declare put_varint_loop.simps [simp del]

definition put_varint :: "bytes \<Rightarrow> nat \<Rightarrow> (bytes \<times> nat) option" where
  "put_varint into value = put_varint_loop into value 0"

text \<open>
  The accumulator is a \<open>usize\<close> of 64 bits: bits shifted past the top are lost, and a shift by the
  width itself is the overflow a checked build stops at. A release build masks the shift instead;
  no sequence of bytes that \<open>put_varint\<close> writes comes that far.
\<close>

function get_varint_loop :: "bytes \<Rightarrow> nat \<Rightarrow> nat \<Rightarrow> nat \<Rightarrow> (nat \<times> nat) option" where
  "get_varint_loop from value shift i =
     (if i < length from then
        let byte = from ! i in
        if shift \<ge> 64 then None
        else let value' = value OR take_bit 64 (push_bit shift (unat (byte AND 0x7f)))
             in if byte AND 0x80 = 0 then Some (value', i + 1)
                else get_varint_loop from value' (shift + 7) (i + 1)
      else None)"
  by pat_completeness auto
termination
  by (relation "measure (\<lambda>(from, value, shift, i). length from - i)") auto

declare get_varint_loop.simps [simp del]

definition get_varint :: "bytes \<Rightarrow> (nat \<times> nat) option" where
  "get_varint from = get_varint_loop from 0 0 0"

section \<open>Writing an entry\<close>

definition klen_len :: "nat \<Rightarrow> nat" where
  "klen_len klen = (if klen \<le> KLEN_INLINE then 0 else varint_len klen)"

definition flags_of :: "nat \<Rightarrow> bool \<Rightarrow> bool \<Rightarrow> u8" where
  "flags_of klen expiry user_flags =
     (let flags = 0;
          flags = (if expiry then flags OR HAS_EXPIRY else flags);
          flags = (if user_flags then flags OR HAS_USER_FLAGS else flags)
      in if klen \<le> KLEN_INLINE then flags OR push_bit KLEN_SHIFT (of_nat (klen + 1)) else flags)"

definition size_of_entry :: "nat \<Rightarrow> nat \<Rightarrow> bool \<Rightarrow> bool \<Rightarrow> nat" where
  "size_of_entry klen vlen expiry user_flags =
     1 + klen_len klen + varint_len vlen + klen + vlen
       + (if expiry then 4 else 0) + (if user_flags then 4 else 0)"

text \<open>\<open>put_varint(&mut into[at..], value)\<close>: the number is written into the tail of the slice.\<close>

definition put_varint_at :: "bytes \<Rightarrow> nat \<Rightarrow> nat \<Rightarrow> (bytes \<times> nat) option" where
  "put_varint_at into i value = do {
     rest \<leftarrow> slice_from into i;
     (rest', n) \<leftarrow> put_varint rest value;
     Some (take i into @ rest', n) }"

text \<open>The length of a key the flags byte cannot carry, and the optional trailing words.\<close>

definition put_klen :: "bytes \<Rightarrow> nat \<Rightarrow> nat \<Rightarrow> (bytes \<times> nat) option" where
  "put_klen into at kl =
     (if kl > KLEN_INLINE
      then do { (into, n) \<leftarrow> put_varint_at into at kl; Some (into, at + n) }
      else Some (into, at))"

definition put_opt :: "bytes \<Rightarrow> nat \<Rightarrow> u32 option \<Rightarrow> (bytes \<times> nat) option" where
  "put_opt into at word =
     (case word of
        None \<Rightarrow> Some (into, at)
      | Some w \<Rightarrow> do { into \<leftarrow> copy_into into at (at + 4) (u32_to_le_bytes w); Some (into, at + 4) })"

definition entry_write :: "bytes \<Rightarrow> bytes \<Rightarrow> bytes \<Rightarrow> u32 option \<Rightarrow> u32 option \<Rightarrow> bytes option" where
  "entry_write into key val expiry user_flags = do {
     into \<leftarrow> set_idx into 0 (flags_of (length key) (expiry \<noteq> None) (user_flags \<noteq> None));
     (into, at) \<leftarrow> put_klen into 1 (length key);
     (into, n) \<leftarrow> put_varint_at into at (length val);
     into \<leftarrow> copy_into into (at + n) (at + n + length key) key;
     into \<leftarrow> copy_into into (at + n + length key) (at + n + length key + length val) val;
     (into, at) \<leftarrow> put_opt into (at + n + length key + length val) expiry;
     (into, _) \<leftarrow> put_opt into at user_flags;
     Some into }"

section \<open>Reading an entry\<close>

record Head =
  flags :: u8
  header :: nat
  klen :: nat
  vlen :: nat

definition trailer :: "Head \<Rightarrow> nat" where
  "trailer h = (if flags h AND HAS_EXPIRY \<noteq> 0 then 4 else 0)
             + (if flags h AND HAS_USER_FLAGS \<noteq> 0 then 4 else 0)"

definition head_size :: "Head \<Rightarrow> nat" where
  "head_size h = header h + klen h + vlen h + trailer h"

definition head_key :: "Head \<Rightarrow> bytes \<Rightarrow> bytes option" where
  "head_key h bs = slice bs (header h) (header h + klen h)"

definition head_value :: "Head \<Rightarrow> bytes \<Rightarrow> bytes option" where
  "head_value h bs = (let at = header h + klen h in slice bs at (at + vlen h))"

definition entry_word :: "bytes \<Rightarrow> nat \<Rightarrow> u32 option" where
  "entry_word bs at = do { buf \<leftarrow> slice bs at (at + 4); Some (u32_from_le_bytes buf) }"

definition head_expiry :: "Head \<Rightarrow> bytes \<Rightarrow> u32 option option" where
  "head_expiry h bs =
     (if flags h AND HAS_EXPIRY = 0 then Some None
      else do { w \<leftarrow> entry_word bs (header h + klen h + vlen h); Some (Some w) })"

definition head_user_flags :: "Head \<Rightarrow> bytes \<Rightarrow> u32 option option" where
  "head_user_flags h bs =
     (if flags h AND HAS_USER_FLAGS = 0 then Some None
      else do {
        let after = (if flags h AND HAS_EXPIRY \<noteq> 0 then 4 else 0);
        w \<leftarrow> entry_word bs (header h + klen h + vlen h + after);
        Some (Some w) })"

record View =
  view_key :: bytes
  view_value :: bytes
  view_expiry :: "u32 option"
  view_user_flags :: "u32 option"

definition head_view :: "Head \<Rightarrow> bytes \<Rightarrow> View option" where
  "head_view h bs = do {
     k \<leftarrow> head_key h bs;
     v \<leftarrow> head_value h bs;
     e \<leftarrow> head_expiry h bs;
     u \<leftarrow> head_user_flags h bs;
     Some \<lparr>view_key = k, view_value = v, view_expiry = e, view_user_flags = u\<rparr> }"

definition head :: "bytes \<Rightarrow> Head option" where
  "head bs = do {
     fl \<leftarrow> idx bs 0;
     let packed = unat (drop_bit KLEN_SHIFT fl);
     (kl, one) \<leftarrow>
        (if packed = 0 then do { rest \<leftarrow> slice_from bs 1; get_varint rest }
         else Some (packed - 1, 0));
     rest \<leftarrow> slice_from bs (1 + one);
     (vl, two) \<leftarrow> get_varint rest;
     Some \<lparr>flags = fl, header = 1 + one + two, klen = kl, vlen = vl\<rparr> }"

section \<open>The layout as a value\<close>

fun varint :: "nat \<Rightarrow> bytes" where
  "varint v = (if v < 0x80 then [of_nat v] else (of_nat (v mod 0x80) OR 0x80) # varint (v div 0x80))"

declare varint.simps [simp del]

definition opt_bytes :: "u32 option \<Rightarrow> bytes" where
  "opt_bytes w = (case w of None \<Rightarrow> [] | Some x \<Rightarrow> u32_to_le_bytes x)"

definition header_bytes :: "nat \<Rightarrow> nat \<Rightarrow> bool \<Rightarrow> bool \<Rightarrow> bytes" where
  "header_bytes kl vl e u =
     flags_of kl e u # (if kl \<le> KLEN_INLINE then [] else varint kl) @ varint vl"

definition entry_bytes :: "bytes \<Rightarrow> bytes \<Rightarrow> u32 option \<Rightarrow> u32 option \<Rightarrow> bytes" where
  "entry_bytes k v e u =
     header_bytes (length k) (length v) (e \<noteq> None) (u \<noteq> None) @ k @ v @ opt_bytes e @ opt_bytes u"

definition head_of :: "nat \<Rightarrow> nat \<Rightarrow> bool \<Rightarrow> bool \<Rightarrow> Head" where
  "head_of kl vl e u =
     \<lparr>flags = flags_of kl e u, header = 1 + klen_len kl + varint_len vl, klen = kl, vlen = vl\<rparr>"

text \<open>The lengths the format describes in five bytes at most.\<close>

definition fits :: "nat \<Rightarrow> bool" where
  "fits n \<longleftrightarrow> n < 2 ^ 35"

section \<open>Lemmas on the integers\<close>

lemma length_varint_pos [simp]: "0 < length (varint v)"
  by (subst varint.simps) simp

lemma varint_not_Nil [simp]: "varint v \<noteq> []"
  using length_varint_pos [of v] by blast

lemma length_varint_step: "0x80 \<le> v \<Longrightarrow> length (varint v) = Suc (length (varint (v div 0x80)))"
  by (subst varint.simps) simp

lemma length_varint_small: "v < 0x80 \<Longrightarrow> length (varint v) = 1"
  by (subst varint.simps) simp

lemma length_varint: "fits v \<Longrightarrow> length (varint v) = varint_len v"
  by (simp add: fits_def varint_len_def length_varint_step length_varint_small not_le div_mult2_eq [symmetric])

lemma put_varint_loop_eq:
  "i + length (varint v) \<le> length into \<Longrightarrow>
   put_varint_loop into v i = Some (splice into i (varint v), i + length (varint v))"
proof (induction into v i rule: put_varint_loop.induct)
  case (1 into v i)
  show ?case
  proof (cases "v < 0x80")
    case True
    then show ?thesis
      using 1(2) by (simp add: put_varint_loop.simps [of into v i] varint.simps [of v]
          set_idx_def splice_def upd_conv_take_nth_drop)
  next
    case False
    define b where "b = (of_nat (v mod 0x80) OR 0x80 :: u8)"
    have v: "varint v = b # varint (v div 0x80)"
      using False by (subst varint.simps) (simp add: b_def)
    have "put_varint_loop into v i = put_varint_loop (into[i := b]) (v div 0x80) (i + 1)"
      using False 1(2) v by (subst put_varint_loop.simps) (simp add: set_idx_def b_def Let_def div_eq_0_iff)
    also have "\<dots> = Some (splice (into[i := b]) (i + 1) (varint (v div 0x80)),
                          i + 1 + length (varint (v div 0x80)))"
      using False 1(2) v by (intro 1(1)) (auto simp: set_idx_def b_def)
    also have "splice (into[i := b]) (i + 1) (varint (v div 0x80)) = splice into i (varint v)"
      using 1(2) v by (simp add: splice_def take_Suc_conv_app_nth)
    finally show ?thesis using v by simp
  qed
qed

lemma put_varint_at_eq:
  assumes "i + length (varint v) \<le> length into"
  shows "put_varint_at into i v = Some (splice into i (varint v), length (varint v))"
  using assms by (simp add: put_varint_at_def put_varint_def put_varint_loop_eq slice_from_def splice_def
      add.commute)

text \<open>
  Reading back: in the middle of the number the accumulator holds the bits below \<open>shift\<close>, and
  the rest of the number is added above them.
\<close>

lemma get_varint_loop_eq:
  assumes "acc < 2 ^ shift" "v * 2 ^ shift < 2 ^ 64" "shift \<le> 63" "i \<le> length xs"
    "drop i xs = varint v @ ys"
  shows "get_varint_loop xs acc shift i = Some (acc + v * 2 ^ shift, i + length (varint v))"
  using assms
proof (induction v arbitrary: acc shift i rule: varint.induct)
  case (1 v)
  define b where "b = xs ! i"
  define low where "low = v mod 0x80"
  have i: "i < length xs" using "1.prems" by (cases "i = length xs") auto
  have hd: "b = hd (varint v)" using "1.prems"(5) i
    by (metis b_def hd_append2 hd_drop_conv_nth length_greater_0_conv length_varint_pos)
  have b: "unat (b AND 0x7f) = low" "b AND 0x80 = 0 \<longleftrightarrow> v < 0x80"
    using hd by (auto simp: varint.simps [of v] low_def unat_u8_low u8_top_bit unat_u8_or_top unat_of_nat)
  have low: "low * 2 ^ shift < 2 ^ 64"
    using "1.prems"(2) by (rule le_less_trans [rotated]) (simp add: low_def)
  have acc: "acc OR take_bit 64 (push_bit shift low) = acc + low * 2 ^ shift"
  proof -
    have "take_bit 64 (push_bit shift low) = push_bit shift low"
      using low by (simp add: push_bit_eq_mult take_bit_nat_eq_self)
    then show ?thesis using or_push_bit_nat [OF "1.prems"(1)] by (simp add: push_bit_eq_mult)
  qed
  show ?case
  proof (cases "v < 0x80")
    case True
    then show ?thesis
      using i b acc "1.prems"(3)
      by (subst get_varint_loop.simps) (simp add: b_def low_def varint.simps [of v] Let_def)
  next
    case False
    have vv: "v = low + 0x80 * (v div 0x80)" by (simp add: low_def)
    have step: "get_varint_loop xs acc shift i =
        get_varint_loop xs (acc + low * 2 ^ shift) (shift + 7) (i + 1)"
      using i b acc "1.prems"(3) False by (subst get_varint_loop.simps) (simp add: b_def Let_def)
    have shift: "shift + 7 \<le> 63"
    proof (rule ccontr)
      assume "\<not> shift + 7 \<le> 63"
      then have "(2 :: nat) ^ 57 \<le> 2 ^ shift" by (intro power_increasing) auto
      then have "0x80 * (2 :: nat) ^ 57 \<le> v * 2 ^ shift" using False by (intro mult_le_mono) auto
      then show False using "1.prems"(2) by simp
    qed
    have "get_varint_loop xs (acc + low * 2 ^ shift) (shift + 7) (i + 1) =
        Some (acc + low * 2 ^ shift + v div 0x80 * 2 ^ (shift + 7), i + 1 + length (varint (v div 0x80)))"
    proof (rule "1.IH" [OF False])
      have "low < 0x80" by (simp add: low_def)
      then have "acc + low * 2 ^ shift < 2 ^ shift + 0x7f * 2 ^ shift"
        using "1.prems"(1) by (intro add_less_le_mono) auto
      then show "acc + low * 2 ^ shift < 2 ^ (shift + 7)" by (simp add: power_add)
      show "v div 0x80 * 2 ^ (shift + 7) < 2 ^ 64"
        using "1.prems"(2) by (rule le_less_trans [rotated]) (simp add: power_add)
      show "drop (i + 1) xs = varint (v div 0x80) @ ys"
        using "1.prems"(5) i False
        by (simp add: varint.simps [of v] drop_Suc drop_tl)
    qed (use shift i in auto)
    also have "acc + low * 2 ^ shift + v div 0x80 * 2 ^ (shift + 7) = acc + v * 2 ^ shift"
    proof -
      have "v * 2 ^ shift = low * 2 ^ shift + v div 0x80 * (0x80 * 2 ^ shift)"
        by (subst vv) (simp add: algebra_simps)
      then show ?thesis by (simp add: power_add)
    qed
    finally show ?thesis using step False by (simp add: length_varint_step)
  qed
qed

lemma get_varint_eq:
  "v < 2 ^ 64 \<Longrightarrow> get_varint (varint v @ ys) = Some (v, length (varint v))"
  unfolding get_varint_def by (subst get_varint_loop_eq) auto

section \<open>The flags byte\<close>

lemma KLEN_INLINE_eq [simp]: "KLEN_INLINE = 62"
  by (simp add: KLEN_INLINE_def)

lemma fits_inline: "n \<le> KLEN_INLINE \<Longrightarrow> fits n"
  by (simp add: fits_def)

definition klen_field :: "nat \<Rightarrow> u8" where
  "klen_field kl = (if kl \<le> KLEN_INLINE then of_nat (kl + 1) else 0)"

lemma flags_of_alt:
  "flags_of kl e u = (of_bool e OR push_bit 1 (of_bool u)) OR push_bit 2 (klen_field kl)"
  by (simp add: flags_of_def klen_field_def HAS_EXPIRY_def HAS_USER_FLAGS_def KLEN_SHIFT_def Let_def)

lemma flags_of_expiry: "flags_of kl e u AND HAS_EXPIRY = 0 \<longleftrightarrow> \<not> e"
  using and_exp_eq_0_iff_not_bit [of "flags_of kl e u" 0]
  by (simp add: HAS_EXPIRY_def flags_of_alt bit_simps)

lemma flags_of_user_flags: "flags_of kl e u AND HAS_USER_FLAGS = 0 \<longleftrightarrow> \<not> u"
  using and_exp_eq_0_iff_not_bit [of "flags_of kl e u" 1]
  by (simp add: HAS_USER_FLAGS_def flags_of_alt bit_simps)

lemma flags_of_klen: "unat (drop_bit KLEN_SHIFT (flags_of kl e u)) = (if kl \<le> KLEN_INLINE then kl + 1 else 0)"
proof -
  have u: "unat (klen_field kl) = (if kl \<le> KLEN_INLINE then kl + 1 else 0)"
    by (simp add: klen_field_def unat_of_nat flip: of_nat_Suc)
  then have "unat (klen_field kl) < 2 ^ 6" by simp
  then have f: "take_bit 6 (klen_field kl) = klen_field kl"
    by (simp add: take_bit_eq_mod word_unat_eq_iff unat_mod)
  have "drop_bit 2 (flags_of kl e u) = klen_field kl"
  proof (rule bit_word_eqI)
    fix n assume "n < LENGTH(8)"
    then show "bit (drop_bit 2 (flags_of kl e u)) n = bit (klen_field kl) n"
      using arg_cong [OF f, of "\<lambda>w. bit w n"] by (auto simp: flags_of_alt bit_simps)
  qed
  then show ?thesis using u by (simp add: KLEN_SHIFT_def)
qed

section \<open>Round trip\<close>

lemma length_opt_bytes [simp]: "length (opt_bytes w) = (if w = None then 0 else 4)"
  by (simp add: opt_bytes_def split: option.splits)

lemma length_header_bytes:
  "fits kl \<Longrightarrow> fits vl \<Longrightarrow> length (header_bytes kl vl e u) = 1 + klen_len kl + varint_len vl"
  by (simp add: header_bytes_def klen_len_def length_varint)

lemma length_entry_bytes:
  "fits (length k) \<Longrightarrow> fits (length v) \<Longrightarrow>
   length (entry_bytes k v e u) = size_of_entry (length k) (length v) (e \<noteq> None) (u \<noteq> None)"
  by (simp add: entry_bytes_def length_header_bytes size_of_entry_def)

lemma head_size_head_of: "head_size (head_of kl vl e u) = size_of_entry kl vl e u"
  by (simp add: head_size_def head_of_def trailer_def flags_of_expiry flags_of_user_flags size_of_entry_def)

lemma head_header_bytes:
  assumes "fits kl" "fits vl"
  shows "head (header_bytes kl vl e u @ ys) = Some (head_of kl vl e u)"
proof -
  have lt: "kl < 2 ^ 64" "vl < 2 ^ 64" using assms by (simp_all add: fits_def)
  show ?thesis
    using assms lt
    by (simp add: head_def header_bytes_def flags_of_klen idx_def slice_from_def
        get_varint_eq length_varint head_of_def klen_len_def flip: length_varint)
qed

text \<open>The writer fills the block from the front: what is written so far, then what is left.\<close>

lemma copy_into_append:
  "i = length d \<Longrightarrow> j = i + length src \<Longrightarrow> length src \<le> length r \<Longrightarrow>
   copy_into (d @ r) i j src = Some ((d @ src) @ drop (length src) r)"
  by (simp add: copy_into_def splice_def)

lemma put_varint_at_append:
  "i = length d \<Longrightarrow> length (varint v) \<le> length r \<Longrightarrow>
   put_varint_at (d @ r) i v = Some ((d @ varint v) @ drop (length (varint v)) r, length (varint v))"
  by (simp add: put_varint_at_eq splice_def)

lemma put_klen_append:
  "i = length d \<Longrightarrow> kv = (if kl \<le> KLEN_INLINE then [] else varint kl) \<Longrightarrow> length kv \<le> length r \<Longrightarrow>
   put_klen (d @ r) i kl = Some ((d @ kv) @ drop (length kv) r, length (d @ kv))"
  by (cases "kl \<le> KLEN_INLINE") (simp_all add: put_klen_def put_varint_at_append)

lemma put_opt_append:
  "i = length d \<Longrightarrow> length (opt_bytes w) \<le> length r \<Longrightarrow>
   put_opt (d @ r) i w = Some ((d @ opt_bytes w) @ drop (length (opt_bytes w)) r, length (d @ opt_bytes w))"
  by (auto simp: put_opt_def opt_bytes_def copy_into_append simp del: append_assoc split: option.splits)

lemma entry_write_eq:
  assumes "fits (length k)" "fits (length v)"
    and len: "length into = size_of_entry (length k) (length v) (e \<noteq> None) (u \<noteq> None)"
  shows "entry_write into k v e u = Some (entry_bytes k v e u)"
proof -
  obtain x r where into: "into = x # r" using len by (cases into) (auto simp: size_of_entry_def)
  define f where "f = flags_of (length k) (e \<noteq> None) (u \<noteq> None)"
  define kv where "kv = (if length k \<le> KLEN_INLINE then [] else varint (length k))"
  define vv where "vv = varint (length v)"
  have kv: "length kv = klen_len (length k)"
    using assms(1) by (simp add: kv_def klen_len_def length_varint)
  have r: "length r = length kv + length vv + length k + length v + length (opt_bytes e) + length (opt_bytes u)"
    using len into assms by (simp add: size_of_entry_def kv vv_def length_varint)
  define d where "d = [[f], [f] @ kv, ([f] @ kv) @ vv, (([f] @ kv) @ vv) @ k, ((([f] @ kv) @ vv) @ k) @ v,
    (((([f] @ kv) @ vv) @ k) @ v) @ opt_bytes e]"
  have "put_klen ([f] @ r) 1 (length k) = Some (d ! 1 @ drop (length kv) r, length (d ! 1))"
    using r by (subst put_klen_append [OF _ kv_def]) (simp_all add: d_def)
  moreover have "put_varint_at (d ! 1 @ drop (length kv) r) (length (d ! 1)) (length v) =
      Some (d ! 2 @ drop (length kv + length vv) r, length vv)"
    using r by (subst put_varint_at_append) (simp_all add: d_def vv_def add.commute)
  moreover have "copy_into (d ! 2 @ drop (length kv + length vv) r) (length (d ! 2)) (length (d ! 2) + length k) k =
      Some (d ! 3 @ drop (length kv + length vv + length k) r)"
    using r by (subst copy_into_append) (simp_all add: d_def add.commute)
  moreover have "copy_into (d ! 3 @ drop (length kv + length vv + length k) r) (length (d ! 3))
      (length (d ! 3) + length v) v = Some (d ! 4 @ drop (length kv + length vv + length k + length v) r)"
    using r by (subst copy_into_append) (simp_all add: d_def add.commute)
  moreover have "put_opt (d ! 4 @ drop (length kv + length vv + length k + length v) r) (length (d ! 4)) e =
      Some (d ! 5 @ drop (length kv + length vv + length k + length v + length (opt_bytes e)) r, length (d ! 5))"
    using r by (subst put_opt_append) (simp_all add: d_def add.commute)
  moreover have "put_opt (d ! 5 @ drop (length kv + length vv + length k + length v + length (opt_bytes e)) r)
      (length (d ! 5)) u = Some (entry_bytes k v e u, length (entry_bytes k v e u))"
    using r by (subst put_opt_append) (simp_all add: d_def entry_bytes_def header_bytes_def f_def kv_def vv_def)
  moreover have "length (d ! 1) + length vv = length (d ! 2)" "length (d ! 2) + length k = length (d ! 3)"
      "length (d ! 3) + length v = length (d ! 4)"
    by (simp_all add: d_def)
  ultimately show ?thesis
    unfolding entry_write_def into by (simp add: set_idx_def f_def)
qed

text \<open>Reading any block that begins with the entry gives back what was written.\<close>

lemma entry_bytes_split:
  "entry_bytes k v e u @ ys =
     header_bytes (length k) (length v) (e \<noteq> None) (u \<noteq> None) @ k @ v @ opt_bytes e @ opt_bytes u @ ys"
  by (simp add: entry_bytes_def)

lemma header_le_11: "fits kl \<Longrightarrow> fits vl \<Longrightarrow> length (header_bytes kl vl e u) \<le> 11"
  by (simp add: length_header_bytes klen_len_def varint_len_def)

definition entry_head :: "bytes \<Rightarrow> bytes \<Rightarrow> u32 option \<Rightarrow> u32 option \<Rightarrow> Head" where
  "entry_head k v e u = head_of (length k) (length v) (e \<noteq> None) (u \<noteq> None)"

lemma head_entry_prefix:
  assumes "fits (length k)" "fits (length v)" "11 \<le> n"
  shows "head (take n (entry_bytes k v e u @ ys)) =
    Some (entry_head k v e u)"
proof -
  let ?h = "header_bytes (length k) (length v) (e \<noteq> None) (u \<noteq> None)"
  have "take n (entry_bytes k v e u @ ys) =
      ?h @ take (n - length ?h) (k @ v @ opt_bytes e @ opt_bytes u @ ys)"
    using assms(3) header_le_11 [OF assms(1,2), of "e \<noteq> None" "u \<noteq> None"]
    by (simp add: entry_bytes_split take_append)
  then show ?thesis using assms by (simp add: head_header_bytes entry_head_def)
qed

lemma head_entry:
  "fits (length k) \<Longrightarrow> fits (length v) \<Longrightarrow>
   head (entry_bytes k v e u) = Some (entry_head k v e u)"
  by (simp add: entry_bytes_def head_header_bytes entry_head_def)

lemma entry_head_simps [simp]:
  "klen (entry_head k v e u) = length k" "vlen (entry_head k v e u) = length v"
  "flags (entry_head k v e u) AND HAS_EXPIRY = 0 \<longleftrightarrow> e = None"
  "flags (entry_head k v e u) AND HAS_USER_FLAGS = 0 \<longleftrightarrow> u = None"
  by (simp_all add: entry_head_def head_of_def flags_of_expiry flags_of_user_flags)

lemma header_entry_head:
  "fits (length k) \<Longrightarrow> fits (length v) \<Longrightarrow>
   header (entry_head k v e u) = length (header_bytes (length k) (length v) (e \<noteq> None) (u \<noteq> None))"
  by (simp add: entry_head_def head_of_def length_header_bytes)

lemma head_size_entry:
  "fits (length k) \<Longrightarrow> fits (length v) \<Longrightarrow> head_size (entry_head k v e u) = length (entry_bytes k v e u)"
  by (simp add: entry_head_def head_size_head_of length_entry_bytes)

lemma entry_fields:
  assumes "fits (length k)" "fits (length v)"
  shows "head_key (entry_head k v e u) (entry_bytes k v e u @ ys) = Some k"
    and "head_value (entry_head k v e u) (entry_bytes k v e u @ ys) = Some v"
    and "head_expiry (entry_head k v e u) (entry_bytes k v e u @ ys) = Some e"
    and "head_user_flags (entry_head k v e u) (entry_bytes k v e u @ ys) = Some u"
  using assms
  by (auto simp: head_key_def head_value_def head_expiry_def head_user_flags_def entry_word_def slice_def
      header_entry_head entry_bytes_split opt_bytes_def split: option.splits)

section \<open>Properties\<close>

text \<open>
  C37: an entry of any key and value shorter than 32 gigabytes, with or without an expiry and user
  flags, is written into a block of exactly the size the code computes for it, and a reader that
  finds that entry at the front of any longer slice gets back every field of it.
\<close>

theorem entry_round_trip:
  assumes "fits (length k)" "fits (length v)"
    and "length into = size_of_entry (length k) (length v) (e \<noteq> None) (u \<noteq> None)"
  shows "\<exists>bs h. entry_write into k v e u = Some bs \<and> length bs = length into \<and>
    head (bs @ rest) = Some h \<and> head_size h = length bs \<and>
    head_view h (bs @ rest) = Some \<lparr> view_key = k, view_value = v, view_expiry = e, view_user_flags = u \<rparr>"
proof (intro exI conjI)
  show "entry_write into k v e u = Some (entry_bytes k v e u)" by (rule entry_write_eq [OF assms])
  show "length (entry_bytes k v e u) = length into" using length_entry_bytes [OF assms(1,2)] assms(3) by simp
  show "head (entry_bytes k v e u @ rest) = Some (entry_head k v e u)"
    using head_entry_prefix [OF assms(1,2), of "11 + length (entry_bytes k v e u @ rest)" e u rest] by simp
  show "head_size (entry_head k v e u) = length (entry_bytes k v e u)" by (rule head_size_entry [OF assms(1,2)])
  show "head_view (entry_head k v e u) (entry_bytes k v e u @ rest) =
      Some \<lparr> view_key = k, view_value = v, view_expiry = e, view_user_flags = u \<rparr>"
    using entry_fields [OF assms(1,2), of e u rest] by (simp add: head_view_def)
qed

theorem entry_round_trip_witness:
  "\<exists>bs h. entry_write (replicate 9 0) [7] [1, 2] (Some 99) None = Some bs \<and> length bs = length (replicate 9 (0 :: u8)) \<and>
    head (bs @ [5]) = Some h \<and> head_size h = length bs \<and>
    head_view h (bs @ [5]) = Some \<lparr> view_key = [7], view_value = [1, 2], view_expiry = Some 99, view_user_flags = None \<rparr>"
  by (rule entry_round_trip) (simp_all add: fits_def size_of_entry_def klen_len_def varint_len_def KLEN_INLINE_def)

lemma put_varint_loop_short: "i \<le> length into \<Longrightarrow> length into < i + length (varint v) \<Longrightarrow> put_varint_loop into v i = None"
proof (induction into v i rule: put_varint_loop.induct)
  case (1 into v i)
  show ?case
  proof (cases "v < 0x80")
    case True
    then show ?thesis using 1(2,3) by (subst put_varint_loop.simps) (simp add: length_varint_small set_idx_def Let_def)
  next
    case False
    then have rest: "put_varint_loop (into[i := b]) (v div 0x80) (i + 1) = None"
      if "i < length into" "b = of_nat (v mod 0x80) OR 0x80" for b :: u8
      using 1(1) [OF refl refl, of "into[i := b]"] 1(3) that
      by (simp add: set_idx_def length_varint_step div_eq_0_iff)
    show ?thesis
      by (cases "i < length into"; subst put_varint_loop.simps)
        (use False rest in \<open>simp_all add: set_idx_def Let_def div_eq_0_iff\<close>)
  qed
qed

lemma put_varint_cases:
  "put_varint into v =
    (if length (varint v) \<le> length into then Some (varint v @ drop (length (varint v)) into, length (varint v)) else None)"
  using put_varint_loop_eq [of 0 v into] put_varint_loop_short [of 0 into v] by (simp add: put_varint_def splice_def)

lemma length_varint_long:
  assumes "2 ^ 35 \<le> v"
  shows "varint_len v < length (varint v)"
proof -
  have pos: "0 < length (varint w)" for w by simp
  have "length (varint v) = Suc (Suc (Suc (Suc (Suc (length (varint (v div 0x80 div 0x80 div 0x80 div 0x80 div 0x80)))))))"
    using assms by (simp add: length_varint_step div_mult2_eq [symmetric])
  then show ?thesis using assms pos by (simp add: varint_len_def)
qed

text \<open>
  C38: for every length below 2^35, \<^verbatim>\<open>put_varint\<close> returns whenever the slice has \<^verbatim>\<open>varint_len\<close> bytes, says
  it wrote exactly that many, leaves the bytes behind them alone, and \<^verbatim>\<open>get_varint\<close> reads the length
  back from them; in a shorter slice it panics. From 2^35 on, \<^verbatim>\<open>varint_len\<close> bytes are not enough and
  \<^verbatim>\<open>put_varint\<close> panics in a slice of that size.
\<close>

theorem varint_len_bound:
  "(v < 2 ^ 35 \<longrightarrow> varint_len v \<le> length into \<longrightarrow>
      (\<exists>into'. put_varint into v = Some (into', varint_len v) \<and> length into' = length into \<and>
         drop (varint_len v) into' = drop (varint_len v) into \<and> get_varint into' = Some (v, varint_len v))) \<and>
   (v < 2 ^ 35 \<longrightarrow> length into < varint_len v \<longrightarrow> put_varint into v = None) \<and>
   (2 ^ 35 \<le> v \<longrightarrow> length into \<le> varint_len v \<longrightarrow> put_varint into v = None)"
proof (intro conjI impI)
  assume v: "v < 2 ^ 35"
  have len: "length (varint v) = varint_len v" using v by (intro length_varint) (simp add: fits_def)
  show "put_varint into v = None" if "length into < varint_len v" using that len by (simp add: put_varint_cases)
  assume room: "varint_len v \<le> length into"
  have "get_varint (varint v @ drop (varint_len v) into) = Some (v, varint_len v)"
    using get_varint_eq [of v] v len by simp
  then show "\<exists>into'. put_varint into v = Some (into', varint_len v) \<and> length into' = length into \<and>
      drop (varint_len v) into' = drop (varint_len v) into \<and> get_varint into' = Some (v, varint_len v)"
    using room len by (intro exI [of _ "varint v @ drop (varint_len v) into"]) (simp add: put_varint_cases)
next
  assume "2 ^ 35 \<le> v" "length into \<le> varint_len v"
  then show "put_varint into v = None" using length_varint_long [of v] by (simp add: put_varint_cases)
qed

theorem varint_len_bound_witness:
  "(\<exists>into'. put_varint [9, 9, 9] 300 = Some (into', varint_len 300) \<and> length into' = length [9, 9, 9 :: u8] \<and>
      drop (varint_len 300) into' = drop (varint_len 300) [9, 9, 9] \<and> get_varint into' = Some (300, varint_len 300)) \<and>
   put_varint [9] 300 = None \<and> put_varint [9, 9, 9, 9, 9] (2 ^ 35) = None"
proof -
  have "varint_len 300 = 2" "varint_len (2 ^ 35) = 5" by (simp_all add: varint_len_def)
  then show ?thesis
    using varint_len_bound [of 300 "[9, 9, 9]"] varint_len_bound [of 300 "[9]"] varint_len_bound [of "2 ^ 35" "[9, 9, 9, 9, 9]"]
    by simp
qed

end
