(* ===== verification/Rugo_Swar.thy ===== *)
theory Rugo_Swar
  imports Rugo_Prelude
begin

text \<open>
  Finding a byte in a machine word without a loop. Both the portable probe of
  \<^verbatim>\<open>crates/rugo-map/src/group.rs\<close> and the newline scan of
  \<^verbatim>\<open>crates/rugo-resp/src/lib.rs\<close> read eight bytes as one word, make the wanted bytes zero with
  an exclusive or, and compute \<open>(x - ONES) AND NOT x AND HIGHS\<close>. The lemmas below say exactly
  which top bits that lights: a lane is lit if its byte is zero, or if its byte is one and the
  lane below it is lit (it lent a borrow). So the lowest lit lane is always a real zero byte, and
  every other lit lane holds nought or one.
\<close>

definition ONES :: u64 where "ONES = 0x0101010101010101"
definition HIGHS :: u64 where "HIGHS = 0x8080808080808080"

definition zero_lanes :: "u64 \<Rightarrow> u64" where
  "zero_lanes x = (x - ONES) AND NOT x AND HIGHS"

section \<open>Bytes of a word as an integer\<close>

fun le_int :: "bytes \<Rightarrow> int" where
  "le_int [] = 0"
| "le_int (b # bs) = uint b + 256 * le_int bs"

fun ones_int :: "nat \<Rightarrow> int" where
  "ones_int 0 = 0"
| "ones_int (Suc n) = 1 + 256 * ones_int n"

lemma le_word_le_int: "le_word bs = (word_of_int (le_int bs) :: 'a::len word)"
proof (induction bs)
  case Nil
  then show ?case by simp
next
  case (Cons b bs)
  have "(ucast b :: 'a word) AND push_bit 8 (le_word bs) = 0"
  proof (rule bit_word_eqI)
    fix n
    show "bit ((ucast b :: 'a word) AND push_bit 8 (le_word bs)) n = bit 0 n"
    proof (cases "n < 8")
      case True
      then show ?thesis by (simp add: bit_and_iff bit_push_bit_iff)
    next
      case False
      then have "\<not> bit b n" using bit_imp_le_length [of b n] by auto
      then show ?thesis by (simp add: bit_and_iff bit_ucast_iff)
    qed
  qed
  then have "le_word (b # bs) = (ucast b :: 'a word) + push_bit 8 (le_word bs)"
    by (simp add: disjunctive_add_eq_or)
  also have "\<dots> = word_of_int (uint b) + 256 * word_of_int (le_int bs)"
    by (simp add: Cons push_bit_eq_mult mult.commute)
  finally show ?case by simp
qed

lemma le_int_bounds: "0 \<le> le_int bs \<and> le_int bs < 256 ^ length bs"
proof (induction bs)
  case Nil
  then show ?case by simp
next
  case (Cons b bs)
  have "0 \<le> uint b" "uint b < 256" using uint_lt2p [of b] by simp_all
  with Cons show ?case by (auto simp: algebra_simps)
qed

lemma le_int_replicate: "le_int (replicate n b) = uint b * ones_int n"
  by (induction n) (simp_all add: algebra_simps)

text \<open>Subtracting one from every byte, with the borrow carried upwards.\<close>

fun sub_ones :: "bool \<Rightarrow> bytes \<Rightarrow> bytes" where
  "sub_ones c [] = []"
| "sub_ones c (b # bs) = (b - 1 - of_bool c) # sub_ones (b = 0 \<or> c \<and> b = 1) bs"

lemma length_sub_ones [simp]: "length (sub_ones c bs) = length bs"
  by (induction bs arbitrary: c) auto

lemma uint_sub_one: "uint (b - 1 - of_bool c :: u8) = (uint b - 1 - of_bool c) mod 256"
  by (cases c) (simp_all add: uint_word_ariths mod_simps)

lemma uint_borrow: "(uint (b :: u8) - 1 - of_bool c) div 256 = - of_bool (b = 0 \<or> c \<and> b = 1)"
proof -
  have b: "0 \<le> uint b" "uint b < 256" using uint_lt2p [of b] by simp_all
  have eq: "b = 0 \<longleftrightarrow> uint b = 0" "b = 1 \<longleftrightarrow> uint b = 1" by (simp_all add: word_uint_eq_iff)
  have neg: "x div 256 = - 1" if "- 256 \<le> x" "x < 0" for x :: int
    using that by (intro int_div_pos_eq [where r = "x + 256"]) auto
  have pos: "x div 256 = 0" if "0 \<le> x" "x < 256" for x :: int
    using that by simp
  show ?thesis
  proof (cases "b = 0 \<or> c \<and> b = 1")
    case True
    then have "uint b - 1 - of_bool c < 0" by (auto simp: eq)
    with True b show ?thesis by (subst neg) auto
  next
    case False
    then have "0 \<le> uint b - 1 - of_bool c" using b(1) unfolding eq by (cases "c") (simp_all only: de_Morgan_disj of_bool_eq simp_thms, linarith+)
    with False b show ?thesis by (subst pos) auto
  qed
qed

lemma digit_mod: "0 \<le> r \<Longrightarrow> r < 256 \<Longrightarrow> 0 \<le> N \<Longrightarrow> (r + 256 * M) mod (256 * N) = r + 256 * (M mod N)" for r :: int
  by (simp add: zmod_zmult2_eq)

lemma sub_ones_le_int:
  "(le_int bs - ones_int (length bs) - of_bool c) mod 256 ^ length bs = le_int (sub_ones c bs)"
proof (induction bs arbitrary: c)
  case Nil
  then show ?case by (simp add: mod_by_1)
next
  case (Cons b bs)
  define d where "d = uint b - 1 - of_bool c"
  define c' where "c' = (b = 0 \<or> c \<and> b = 1)"
  define L where "L = le_int bs - ones_int (length bs)"
  have d: "d = d mod 256 + 256 * - of_bool c'"
    using div_mult_mod_eq [of d 256] uint_borrow [of b c] by (simp add: d_def c'_def)
  have "(le_int (b # bs) - ones_int (length (b # bs)) - of_bool c) = d + 256 * L"
    by (simp add: d_def L_def algebra_simps)
  also have "\<dots> = d mod 256 + 256 * (L - of_bool c')"
    by (subst d) (simp add: algebra_simps)
  finally have "(le_int (b # bs) - ones_int (length (b # bs)) - of_bool c) mod 256 ^ length (b # bs) =
      (d mod 256 + 256 * (L - of_bool c')) mod (256 * 256 ^ length bs)" by simp
  also have "\<dots> = d mod 256 + 256 * ((L - of_bool c') mod 256 ^ length bs)"
    by (rule digit_mod) simp_all
  also have "(L - of_bool c') mod 256 ^ length bs = le_int (sub_ones c' bs)"
    using Cons [of c'] by (simp add: L_def)
  finally show ?case by (simp add: uint_sub_one d_def c'_def)
qed

section \<open>Which lanes are lit\<close>

lemma ones8: "ones_int 8 = 0x0101010101010101"
  by (simp add: numeral_eq_Suc)

lemma ONES_ones8: "ONES = word_of_int (ones_int 8)"
  by (simp add: ONES_def ones8)

lemma le_word_sub_ONES: "length bs = 8 \<Longrightarrow> le_word bs - ONES = le_word (sub_ones False bs)"
proof -
  assume len: "length bs = 8"
  have "le_word bs - ONES = (word_of_int (le_int bs - ones_int 8) :: u64)"
    by (simp add: le_word_le_int ONES_ones8)
  also have "\<dots> = word_of_int ((le_int bs - ones_int 8) mod 2 ^ 64)"
    by (subst word_of_int_eq_iff) (simp add: take_bit_eq_mod)
  also have "(le_int bs - ones_int 8) mod 2 ^ 64 = le_int (sub_ones False bs)"
    using sub_ones_le_int [of bs False] len by simp
  finally show ?thesis by (simp add: le_word_le_int)
qed

lemma le_word_xor_broadcast:
  "length bs = 8 \<Longrightarrow> le_word bs XOR (ONES * ucast b) = le_word (map (\<lambda>x. x XOR b) bs)"
proof -
  assume len: "length bs = 8"
  have "ONES * ucast b = (le_word (replicate 8 b) :: u64)"
    by (simp add: le_word_le_int le_int_replicate ONES_ones8 mult.commute)
  then show ?thesis
    using len by (intro bit_word_eqI) (auto simp: bit_simps bit_le_word less_mult_imp_div_less)
qed

text \<open>\<open>lit c bs i\<close>: lane \<open>i\<close> is lit when a borrow \<open>c\<close> comes in from below.\<close>

fun lit :: "bool \<Rightarrow> bytes \<Rightarrow> nat \<Rightarrow> bool" where
  "lit c [] i = False"
| "lit c (b # bs) 0 = (b = 0 \<or> c \<and> b = 1)"
| "lit c (b # bs) (Suc i) = lit (b = 0 \<or> c \<and> b = 1) bs i"

lemma bit7_iff: "bit (b :: u8) 7 \<longleftrightarrow> 128 \<le> uint b"
proof -
  have "bit b 7 \<longleftrightarrow> \<not> unat b < 128"
    using u8_top_bit [of b] and_exp_eq_0_iff_not_bit [of b 7] by simp
  also have "unat b < 128 \<longleftrightarrow> uint b < 128"
    using word_less_nat_alt [of b 128] word_less_def [of b 128] by simp
  finally show ?thesis by linarith
qed

lemma top_bit_lit:
  "(bit (b - 1 - of_bool c :: u8) 7 \<and> \<not> bit b 7) \<longleftrightarrow> b = 0 \<or> c \<and> b = 1"
proof -
  have b: "0 \<le> uint b" "uint b < 256" using uint_lt2p [of b] by simp_all
  have eq: "b = 0 \<longleftrightarrow> uint b < 1" "b = 0 \<or> b = 1 \<longleftrightarrow> uint b < 2"
    using b(1) uint_0_eq unfolding word_uint_eq_iff uint_0_eq uint_1_eq by linarith+
  define x where "x = uint b - 1 - of_bool c"
  have neg: "x mod 256 = x + 256" if "x < 0"
  proof -
    have "x mod 256 = (x + 256) mod 256" by simp
    then show ?thesis using that b by (auto simp: x_def split: if_splits)
  qed
  show ?thesis
  proof (cases "x < 0")
    case True
    then show ?thesis
      unfolding bit7_iff uint_sub_one x_def [symmetric] neg [OF True] using b eq
      by (cases c) (auto simp: x_def)
  next
    case False
    then have "x mod 256 = x" using b by (simp add: x_def)
    then show ?thesis
      unfolding bit7_iff uint_sub_one x_def [symmetric] using b False eq
      by (cases c) (auto simp: x_def)
  qed
qed

lemma sub_ones_top:
  "i < length bs \<Longrightarrow> (bit (sub_ones c bs ! i) 7 \<and> \<not> bit (bs ! i) 7) = lit c bs i"
proof (induction bs arbitrary: c i)
  case Nil
  then show ?case by simp
next
  case (Cons b bs)
  then show ?case by (cases i) (simp_all add: top_bit_lit)
qed

lemma bit_HIGHS: "bit HIGHS n \<longleftrightarrow> n < 64 \<and> n mod 8 = 7"
proof -
  have high: "HIGHS = le_word (replicate 8 0x80)"
    by (simp add: HIGHS_def le_word_le_int le_int_replicate ones8)
  have "bit (0x80 :: u8) (n mod 8) \<longleftrightarrow> n mod 8 = 7"
    using bit_exp_iff [where 'a = u8, of 7 "n mod 8"] by simp
  then show ?thesis
    unfolding high bit_le_word by (auto simp: less_mult_imp_div_less)
qed

lemma bit_zero_lanes:
  assumes "length bs = 8"
  shows "bit (zero_lanes (le_word bs)) n \<longleftrightarrow> n < 64 \<and> n mod 8 = 7 \<and> lit False bs (n div 8)"
proof -
  have "n < 64 \<Longrightarrow> n div 8 < 8" by simp
  then show ?thesis
    using assms sub_ones_top [of "n div 8" bs False]
    by (auto simp: zero_lanes_def le_word_sub_ONES bit_HIGHS bit_simps bit_le_word)
qed

lemma lit_cases: "lit c bs i \<Longrightarrow> i < length bs \<and> (bs ! i = 0 \<or> bs ! i = 1)"
  by (induction c bs i rule: lit.induct) auto

lemma lit_zero: "i < length bs \<Longrightarrow> bs ! i = 0 \<Longrightarrow> lit c bs i"
  by (induction c bs i rule: lit.induct) auto

lemma lit_least_zero:
  "lit c bs i \<Longrightarrow> \<forall>j<i. \<not> lit c bs j \<Longrightarrow> \<not> c \<Longrightarrow> bs ! i = 0"
proof (induction c bs i rule: lit.induct)
  case (3 c b bs i)
  then have "\<not> (b = 0 \<or> c \<and> b = 1)" by (metis lit.simps(2) zero_less_Suc)
  moreover have "\<forall>j<i. \<not> lit (b = 0 \<or> c \<and> b = 1) bs j"
    using "3.prems"(2) by (metis lit.simps(3) Suc_less_eq)
  ultimately show ?case using 3 by simp
qed auto

end
