(* ===== verification/Rugo_Group.thy ===== *)
theory Rugo_Group
  imports Rugo_Swar
begin

text \<open>
  The control bytes and the group probe, \<^verbatim>\<open>crates/rugo-map/src/group.rs\<close>: the two markers, the
  tag a hash contributes, the \<^verbatim>\<open>BitMask\<close> iterator with its per-target stride, and the three
  compile-time implementations of \<^verbatim>\<open>Group\<close> (NEON, SSE2, eight lanes in a word). A vector register
  is the list of its byte lanes; the intrinsics are modelled lane by lane as the architecture
  manuals define them. The locale \<open>probe_target\<close> is what the table relies on, and it is interpreted
  for all three.
\<close>

section \<open>Control bytes\<close>

definition EMPTY :: u8 where "EMPTY = 0b10000000"
definition DELETED :: u8 where "DELETED = 0b11111110"

definition is_full :: "u8 \<Rightarrow> bool" where
  "is_full ctrl \<longleftrightarrow> ctrl AND 0x80 = 0"

definition tag_of :: "u64 \<Rightarrow> u8" where
  "tag_of hash = ucast (drop_bit 32 hash) AND 0x7f"

section \<open>Which lanes matched\<close>

text \<open>The target a build is for, which picks the module \<^verbatim>\<open>imp\<close> and the stride.\<close>

datatype target = Neon | Sse2 | Portable

definition STRIDE :: "target \<Rightarrow> nat" where
  "STRIDE t = (case t of Neon \<Rightarrow> 4 | Sse2 \<Rightarrow> 1 | Portable \<Rightarrow> 8)"

definition WIDTH :: "target \<Rightarrow> nat" where
  "WIDTH t = (case t of Neon \<Rightarrow> 16 | Sse2 \<Rightarrow> 16 | Portable \<Rightarrow> 8)"

type_synonym BitMask = u64

definition mask_any :: "BitMask \<Rightarrow> bool" where
  "mask_any m \<longleftrightarrow> m \<noteq> 0"

definition lowest :: "target \<Rightarrow> BitMask \<Rightarrow> nat option" where
  "lowest t m = (if m = 0 then None else Some (trailing_zeros m div STRIDE t))"

definition mask_next :: "target \<Rightarrow> BitMask \<Rightarrow> (nat \<times> BitMask) option" where
  "mask_next t m = do {
     at \<leftarrow> lowest t m;
     let lane = (if STRIDE t = 64 then - 1
                 else push_bit (at * STRIDE t) (push_bit (STRIDE t) 1 - 1 :: u64));
     Some (at, m AND NOT lane) }"

lemma STRIDE_pos [simp]: "0 < STRIDE t"
  by (simp add: STRIDE_def split: target.splits)

lemma STRIDE_64: "STRIDE t \<noteq> 64"
  by (simp add: STRIDE_def split: target.splits)

lemma in_lane_iff: "0 < s \<Longrightarrow> i * s \<le> n \<and> n - i * s < s \<longleftrightarrow> n div s = (i :: nat)"
proof
  assume "0 < s" "i * s \<le> n \<and> n - i * s < s"
  then show "n div s = i" by (intro div_nat_eqI) (auto simp: mult.commute)
next
  assume "0 < s" "n div s = i"
  moreover have "n = n div s * s + n mod s" by simp
  ultimately show "i * s \<le> n \<and> n - i * s < s"
    by (metis add_diff_cancel_left' le_add1 mod_less_divisor)
qed

lemma bit_lane:
  "bit (push_bit (i * STRIDE t) (push_bit (STRIDE t) 1 - 1) :: u64) n \<longleftrightarrow> n < 64 \<and> n div STRIDE t = i"
proof -
  have "(push_bit (STRIDE t) 1 - 1 :: u64) = mask (STRIDE t)"
    by (simp add: mask_eq_exp_minus_1)
  then show ?thesis
    using in_lane_iff [OF STRIDE_pos, of i t n]
    by (simp only: bit_push_bit_iff bit_mask_iff) (simp, linarith)
qed

lemma mask_next_Some:
  assumes "mask_next t m = Some (i, m')"
  shows "m \<noteq> 0" "i = trailing_zeros m div STRIDE t" "bit m' n \<longleftrightarrow> bit m n \<and> n div STRIDE t \<noteq> i"
    "unat m' < unat m"
proof -
  show m: "m \<noteq> 0" and i: "i = trailing_zeros m div STRIDE t"
    using assms by (auto simp: mask_next_def lowest_def Let_def split: if_splits)
  have m': "m' = m AND NOT (push_bit (i * STRIDE t) (push_bit (STRIDE t) 1 - 1))"
    using assms m STRIDE_64 by (auto simp: mask_next_def lowest_def Let_def)
  have bits: "bit m' n \<longleftrightarrow> bit m n \<and> n div STRIDE t \<noteq> i" for n
    using bit_imp_le_length [of m n] unfolding m' bit_and_iff bit_not_iff bit_lane by auto
  show "bit m' n \<longleftrightarrow> bit m n \<and> n div STRIDE t \<noteq> i" by (rule bits)
  have "bit m (trailing_zeros m)" "\<not> bit m' (trailing_zeros m)"
    using trailing_zeros_first [OF m] bits i by auto
  then have "m' \<noteq> m" by auto
  moreover have "m' \<le> m" unfolding m' by (rule word_and_le2)
  ultimately have "m' < m" by simp
  then show "unat m' < unat m" by (simp add: word_less_nat_alt)
qed

text \<open>\<^verbatim>\<open>for lane in mask\<close>: the iterator run to its end.\<close>

function mask_lanes :: "target \<Rightarrow> BitMask \<Rightarrow> nat list" where
  "mask_lanes t m = (case mask_next t m of None \<Rightarrow> [] | Some (at, m') \<Rightarrow> at # mask_lanes t m')"
  by pat_completeness auto
termination
  by (relation "measure (\<lambda>(t, m). unat m)") (auto dest: mask_next_Some(4))

declare mask_lanes.simps [simp del]

section \<open>The three groups\<close>

text \<open>SSE2: \<^verbatim>\<open>_mm_cmpeq_epi8\<close> and \<^verbatim>\<open>_mm_movemask_epi8\<close>; one mask bit per lane.\<close>

definition cmpeq :: "bytes \<Rightarrow> u8 \<Rightarrow> bytes" where
  "cmpeq g byte = map (\<lambda>x. if x = byte then 0xff else 0) g"

fun movemask :: "bytes \<Rightarrow> BitMask" where
  "movemask [] = 0"
| "movemask (b # bs) = of_bool (bit b 7) OR push_bit 1 (movemask bs)"

definition sse2_match_byte :: "bytes \<Rightarrow> u8 \<Rightarrow> BitMask" where
  "sse2_match_byte g byte = movemask (cmpeq g byte)"

definition sse2_match_free :: "bytes \<Rightarrow> BitMask" where
  "sse2_match_free g = movemask g"

text \<open>
  NEON: \<^verbatim>\<open>vshrn_n_u16(_, 4)\<close> reads the sixteen bytes as eight halfwords and keeps bits 4 to 11 of
  each, which leaves four mask bits per lane; \<^verbatim>\<open>vshrq_n_s8(_, 7)\<close> is an arithmetic shift.
\<close>

fun vshrn4 :: "bytes \<Rightarrow> bytes" where
  "vshrn4 (lo # hi # rest) = ucast (drop_bit 4 (le_word [lo, hi] :: 16 word)) # vshrn4 rest"
| "vshrn4 _ = []"

definition neon_to_mask :: "bytes \<Rightarrow> BitMask" where
  "neon_to_mask cmp = le_word (vshrn4 cmp)"

definition neon_match_byte :: "bytes \<Rightarrow> u8 \<Rightarrow> BitMask" where
  "neon_match_byte g byte = neon_to_mask (cmpeq g byte)"

definition neon_match_free :: "bytes \<Rightarrow> BitMask" where
  "neon_match_free g = neon_to_mask (map (signed_drop_bit 7) g)"

text \<open>Everywhere else: eight lanes in a word, and the zero-byte trick.\<close>

definition portable_match_byte :: "bytes \<Rightarrow> u8 \<Rightarrow> BitMask" where
  "portable_match_byte g byte = zero_lanes (le_word g XOR (ONES * ucast byte))"

definition portable_match_free :: "bytes \<Rightarrow> BitMask" where
  "portable_match_free g = le_word g AND HIGHS"

definition match_byte :: "target \<Rightarrow> bytes \<Rightarrow> u8 \<Rightarrow> BitMask" where
  "match_byte t g byte =
     (case t of Neon \<Rightarrow> neon_match_byte g byte
      | Sse2 \<Rightarrow> sse2_match_byte g byte
      | Portable \<Rightarrow> portable_match_byte g byte)"

definition match_empty :: "target \<Rightarrow> bytes \<Rightarrow> BitMask" where
  "match_empty t g = match_byte t g EMPTY"

definition match_free :: "target \<Rightarrow> bytes \<Rightarrow> BitMask" where
  "match_free t g =
     (case t of Neon \<Rightarrow> neon_match_free g
      | Sse2 \<Rightarrow> sse2_match_free g
      | Portable \<Rightarrow> portable_match_free g)"

section \<open>What a mask says about its lanes\<close>

definition lane_hit :: "target \<Rightarrow> BitMask \<Rightarrow> nat \<Rightarrow> bool" where
  "lane_hit t m i \<longleftrightarrow> (\<exists>n. bit m n \<and> n div STRIDE t = i)"

definition first_at :: "('a \<Rightarrow> bool) \<Rightarrow> 'a list \<Rightarrow> nat \<Rightarrow> bool" where
  "first_at P xs i \<longleftrightarrow> i < length xs \<and> P (xs ! i) \<and> (\<forall>j<i. \<not> P (xs ! j))"

lemma mask_any_iff: "mask_any m \<longleftrightarrow> (\<exists>i. lane_hit t m i)"
  using bit_eqI [of m 0] by (auto simp: mask_any_def lane_hit_def)

lemma lowest_None: "lowest t m = None \<longleftrightarrow> (\<forall>i. \<not> lane_hit t m i)"
  using mask_any_iff [of m t] by (auto simp: lowest_def mask_any_def)

lemma lowest_Some:
  "lowest t m = Some i \<longleftrightarrow> lane_hit t m i \<and> (\<forall>j<i. \<not> lane_hit t m j)"
proof (cases "m = 0")
  case True
  then show ?thesis by (simp add: lowest_def lane_hit_def)
next
  case False
  define l where "l = trailing_zeros m div STRIDE t"
  have hit: "lane_hit t m l"
    using trailing_zeros_first(2) [OF False] by (auto simp: lane_hit_def l_def)
  have least: "l \<le> j" if j: "lane_hit t m j" for j
  proof -
    obtain n where n: "bit m n" "n div STRIDE t = j" using j by (auto simp: lane_hit_def)
    then have "trailing_zeros m \<le> n" using trailing_zeros_first(3) [OF False, of n] by (meson not_le)
    then show ?thesis using n by (auto simp: l_def intro: div_le_mono)
  qed
  have "lowest t m = Some l" using False by (simp add: lowest_def l_def)
  then show ?thesis using hit least by (metis linorder_neqE_nat not_le option.inject)
qed

lemma mask_next_None: "mask_next t m = None \<longleftrightarrow> m = 0"
  by (simp add: mask_next_def lowest_def Let_def)

lemma lane_hit_next:
  assumes "mask_next t m = Some (i, m')"
  shows "lane_hit t m j \<longleftrightarrow> j = i \<or> lane_hit t m' j" "\<not> lane_hit t m' i" "lane_hit t m' j \<Longrightarrow> i < j"
proof -
  have m: "m \<noteq> 0" and i: "i = trailing_zeros m div STRIDE t" using mask_next_Some [OF assms] by auto
  have low: "lowest t m = Some i" using m i by (simp add: lowest_def)
  then have hit: "lane_hit t m i" "\<And>j. j < i \<Longrightarrow> \<not> lane_hit t m j" by (auto simp: lowest_Some)
  have m': "lane_hit t m' j \<longleftrightarrow> lane_hit t m j \<and> j \<noteq> i" for j
    using mask_next_Some(3) [OF assms] by (auto simp: lane_hit_def)
  show "lane_hit t m j \<longleftrightarrow> j = i \<or> lane_hit t m' j" "\<not> lane_hit t m' i" using m' hit by auto
  show "lane_hit t m' j \<Longrightarrow> i < j" using m' hit by (metis linorder_neqE_nat)
qed

lemma mask_lanes_spec:
  "set (mask_lanes t m) = {i. lane_hit t m i} \<and> sorted_wrt (<) (mask_lanes t m)"
proof (induction t m rule: mask_lanes.induct)
  case (1 t m)
  show ?case
  proof (cases "mask_next t m")
    case None
    then have "mask_lanes t m = []" by (subst mask_lanes.simps) simp
    moreover have "m = 0" using None mask_next_None by blast
    ultimately show ?thesis by (simp add: lane_hit_def)
  next
    case (Some p)
    obtain i m' where p: "p = (i, m')" by force
    have IH: "set (mask_lanes t m') = {i. lane_hit t m' i}" "sorted_wrt (<) (mask_lanes t m')"
      using 1 [OF Some p [symmetric]] by auto
    have "mask_lanes t m = i # mask_lanes t m'" by (subst mask_lanes.simps) (simp add: Some p)
    then show ?thesis using IH lane_hit_next [OF Some [unfolded p]] by auto
  qed
qed

lemma bit_movemask: "bit (movemask bs) n \<longleftrightarrow> n < 64 \<and> n < length bs \<and> bit (bs ! n) 7"
proof (induction bs arbitrary: n)
  case Nil
  then show ?case by simp
next
  case (Cons b bs)
  show ?case
  proof (cases n)
    case 0
    then show ?thesis by (simp add: bit_0 even_or_iff)
  next
    case (Suc k)
    have "\<not> bit (of_bool (bit b 7) :: u64) (Suc k)" by simp
    then show ?thesis
      unfolding Suc movemask.simps bit_or_iff bit_push_bit_iff using Cons [of k] by auto
  qed
qed

lemma lane_hit_movemask:
  "length bs \<le> 64 \<Longrightarrow> lane_hit Sse2 (movemask bs) i \<longleftrightarrow> i < length bs \<and> bit (bs ! i) 7"
  by (auto simp: lane_hit_def bit_movemask STRIDE_def)

lemma length_vshrn4 [simp]: "length (vshrn4 xs) = length xs div 2"
  by (induction xs rule: vshrn4.induct) auto

lemma nth_vshrn4:
  "i < length xs div 2 \<Longrightarrow>
   vshrn4 xs ! i = ucast (drop_bit 4 (le_word [xs ! (2 * i), xs ! (2 * i + 1)] :: 16 word))"
proof (induction xs arbitrary: i rule: vshrn4.induct)
  case (1 lo hi rest)
  then show ?case by (cases i) simp_all
qed simp_all

lemma bit_narrowed:
  assumes "j < 8" "lo \<in> {0, 0xff}" "hi \<in> {0, 0xff}"
  shows "bit (ucast (drop_bit 4 (le_word [lo, hi] :: 16 word)) :: u8) j \<longleftrightarrow>
    (if j < 4 then lo else hi) = 0xff"
proof -
  have ff: "(0xff :: u8) = mask 8" by (simp add: mask_eq_exp_minus_1)
  have all: "bit (b :: u8) k \<longleftrightarrow> b = 0xff" if "b \<in> {0, 0xff}" "k < 8" for b k
    using that by (auto simp: ff bit_mask_iff)
  have "bit (ucast (drop_bit 4 (le_word [lo, hi] :: 16 word)) :: u8) j \<longleftrightarrow>
      bit (le_word [lo, hi] :: 16 word) (4 + j)"
    using assms(1) by (simp only: bit_ucast_iff bit_drop_bit_eq) simp
  also have "\<dots> \<longleftrightarrow> bit ([lo, hi] ! ((4 + j) div 8)) ((4 + j) mod 8)"
    using assms(1) by (simp only: bit_le_word) auto
  also have "\<dots> \<longleftrightarrow> (if j < 4 then lo else hi) = 0xff"
  proof (cases "j < 4")
    case True
    then have "(4 + j) div 8 = 0" by simp
    with True assms(2) show ?thesis by (simp add: all del: One_nat_def)
  next
    case False
    then have "(4 + j) div 8 = Suc 0" using assms(1) by (intro div_nat_eqI) auto
    with False assms(3) show ?thesis by (simp add: all)
  qed
  finally show ?thesis .
qed

lemma lane_hit_neon_to_mask:
  assumes len: "length cmp = 16" and cmp: "set cmp \<subseteq> {0, 0xff}"
  shows "lane_hit Neon (neon_to_mask cmp) i \<longleftrightarrow> i < 16 \<and> cmp ! i = 0xff"
proof -
  have elem: "cmp ! k \<in> {0, 0xff}" if "k < 16" for k
    using that len cmp by (metis nth_mem subset_eq)
  have bits: "bit (neon_to_mask cmp) n \<longleftrightarrow> n < 64 \<and> cmp ! (n div 4) = 0xff" for n
  proof (cases "n < 64")
    case True
    define p where "p = n div 8"
    have p: "p < 8" using True by (simp add: p_def)
    have lane: "n div 4 = 2 * p + (if n mod 8 < 4 then 0 else 1)" unfolding p_def by arith
    have "bit (neon_to_mask cmp) n \<longleftrightarrow> bit (vshrn4 cmp ! p) (n mod 8)"
      using True p len by (simp add: neon_to_mask_def bit_le_word p_def)
    also have "\<dots> \<longleftrightarrow> (if n mod 8 < 4 then cmp ! (2 * p) else cmp ! (2 * p + 1)) = 0xff"
      using p len elem [of "2 * p"] elem [of "2 * p + 1"]
      by (subst nth_vshrn4) (simp, subst bit_narrowed, auto)
    also have "\<dots> \<longleftrightarrow> cmp ! (n div 4) = 0xff" by (simp add: lane)
    finally show ?thesis using True by simp
  next
    case False
    then show ?thesis by (simp add: neon_to_mask_def bit_le_word)
  qed
  show ?thesis
  proof
    assume "i < 16 \<and> cmp ! i = 0xff"
    then show "lane_hit Neon (neon_to_mask cmp) i"
      by (auto simp: lane_hit_def bits STRIDE_def intro!: exI [of _ "4 * i"])
  qed (auto simp: lane_hit_def bits STRIDE_def)
qed

lemma signed_drop_bit_7: "signed_drop_bit 7 (b :: u8) = (if bit b 7 then 0xff else 0)"
proof (rule bit_word_eqI)
  fix n assume n: "n < LENGTH(8)"
  have ff: "(0xff :: u8) = mask 8" by (simp add: mask_eq_exp_minus_1)
  have "bit (signed_drop_bit 7 b) n \<longleftrightarrow> bit b 7"
    using n by (cases "n = 0") (auto simp: bit_signed_drop_bit_iff)
  then show "bit (signed_drop_bit 7 b) n = bit (if bit b 7 then 0xff else (0 :: u8)) n"
    using n by (simp add: ff bit_mask_iff)
qed

lemma is_full_bit: "is_full b \<longleftrightarrow> \<not> bit b 7"
  using and_exp_eq_0_iff_not_bit [of b 7] by (simp add: is_full_def)

lemma lane_hit_portable:
  assumes "length g = 8"
  shows "lane_hit Portable (portable_match_byte g b) i \<longleftrightarrow> lit False (map (\<lambda>x. x XOR b) g) i"
proof -
  let ?bs = "map (\<lambda>x. x XOR b) g"
  have bits: "bit (portable_match_byte g b) n \<longleftrightarrow> n < 64 \<and> n mod 8 = 7 \<and> lit False ?bs (n div 8)" for n
    unfolding portable_match_byte_def using assms
    by (simp add: le_word_xor_broadcast bit_zero_lanes)
  show ?thesis
  proof
    assume "lit False ?bs i"
    then have "bit (portable_match_byte g b) (8 * i + 7)"
      using lit_cases [of False ?bs i] assms unfolding bits by simp
    moreover have "(8 * i + 7) div 8 = i" by simp
    ultimately show "lane_hit Portable (portable_match_byte g b) i"
      unfolding lane_hit_def STRIDE_def target.case by blast
  qed (auto simp: lane_hit_def bits STRIDE_def)
qed

lemma lane_hit_portable_free:
  assumes "length g = 8"
  shows "lane_hit Portable (portable_match_free g) i \<longleftrightarrow> i < 8 \<and> bit (g ! i) 7"
proof -
  have bits: "bit (portable_match_free g) n \<longleftrightarrow> n < 64 \<and> n mod 8 = 7 \<and> bit (g ! (n div 8)) 7" for n
    using assms by (auto simp: portable_match_free_def bit_and_iff bit_le_word bit_HIGHS less_mult_imp_div_less)
  show ?thesis
  proof
    assume "i < 8 \<and> bit (g ! i) 7"
    then have "bit (portable_match_free g) (8 * i + 7)" unfolding bits by simp
    moreover have "(8 * i + 7) div 8 = i" by simp
    ultimately show "lane_hit Portable (portable_match_free g) i"
      unfolding lane_hit_def STRIDE_def target.case by blast
  qed (auto simp: lane_hit_def bits STRIDE_def)
qed

section \<open>The contract the table relies on\<close>

definition ctrl_ok :: "u8 \<Rightarrow> bool" where
  "ctrl_ok b \<longleftrightarrow> is_full b \<or> b = EMPTY \<or> b = DELETED"

lemma xor_one_full: "(x :: u8) XOR b = 1 \<Longrightarrow> is_full x = is_full b"
proof -
  assume "x XOR b = 1"
  then have "bit (x XOR b) 7 = bit (1 :: u8) 7" by simp
  then have "bit x 7 = bit b 7" by (simp add: bit_xor_iff bit_1_iff)
  then show ?thesis by (simp add: is_full_bit)
qed

lemma markers: "\<not> is_full EMPTY" "\<not> is_full DELETED" "EMPTY \<noteq> DELETED"
  by (simp_all add: is_full_def EMPTY_def DELETED_def)

lemma EMPTY_xor_one: "ctrl_ok x \<Longrightarrow> x XOR EMPTY \<noteq> 1"
proof
  assume x: "ctrl_ok x" "x XOR EMPTY = 1"
  then have "x = 1 XOR EMPTY" by (metis xor.assoc xor.right_neutral xor_self_eq)
  then have "x = 0x81" by (simp add: EMPTY_def)
  with x show False by (simp add: ctrl_ok_def is_full_def EMPTY_def DELETED_def)
qed

text \<open>
  A probe reports every lane that holds the tag, and only lanes that hold a live entry; whether a
  group has an empty lane, and which is the first empty or free one, are answered exactly.
\<close>

locale probe_target =
  fixes t :: target
  assumes width: "WIDTH t = 8 \<or> WIDTH t = 16"
    and tag_complete:
      "length g = WIDTH t \<Longrightarrow> i < WIDTH t \<Longrightarrow> g ! i = b \<Longrightarrow> i \<in> set (mask_lanes t (match_byte t g b))"
    and tag_sound:
      "length g = WIDTH t \<Longrightarrow> is_full b \<Longrightarrow> i \<in> set (mask_lanes t (match_byte t g b)) \<Longrightarrow>
       i < WIDTH t \<and> is_full (g ! i)"
    and empty_lane:
      "length g = WIDTH t \<Longrightarrow> list_all ctrl_ok g \<Longrightarrow>
       lane_hit t (match_empty t g) i \<longleftrightarrow> i < WIDTH t \<and> g ! i = EMPTY"
    and free_lane:
      "length g = WIDTH t \<Longrightarrow> lane_hit t (match_free t g) i \<longleftrightarrow> i < WIDTH t \<and> \<not> is_full (g ! i)"
begin

lemma any_empty:
  "length g = WIDTH t \<Longrightarrow> list_all ctrl_ok g \<Longrightarrow> mask_any (match_empty t g) \<longleftrightarrow> EMPTY \<in> set g"
  by (simp add: mask_any_iff [of _ t] empty_lane in_set_conv_nth)

lemma first_empty:
  "length g = WIDTH t \<Longrightarrow> list_all ctrl_ok g \<Longrightarrow>
   lowest t (match_empty t g) = Some i \<longleftrightarrow> first_at (\<lambda>b. b = EMPTY) g i"
  by (auto simp: lowest_Some empty_lane first_at_def)

lemma no_empty:
  "length g = WIDTH t \<Longrightarrow> list_all ctrl_ok g \<Longrightarrow> lowest t (match_empty t g) = None \<longleftrightarrow> EMPTY \<notin> set g"
  by (auto simp: lowest_None empty_lane in_set_conv_nth)

lemma first_free:
  "length g = WIDTH t \<Longrightarrow> lowest t (match_free t g) = Some i \<longleftrightarrow> first_at (\<lambda>b. \<not> is_full b) g i"
  by (auto simp: lowest_Some free_lane first_at_def)

lemma no_free:
  "length g = WIDTH t \<Longrightarrow> lowest t (match_free t g) = None \<longleftrightarrow> list_all is_full g"
  by (auto simp: lowest_None free_lane list_all_length)

lemma width_pos: "0 < WIDTH t"
  using width by auto

lemma width_dvd: "WIDTH t dvd 16"
  using width by auto

end

lemma lane_hit_cmpeq_sse2:
  "length g = 16 \<Longrightarrow> lane_hit Sse2 (sse2_match_byte g b) i \<longleftrightarrow> i < 16 \<and> g ! i = b"
proof -
  assume "length g = 16"
  moreover have "bit (0xff :: u8) 7" "\<not> bit (0 :: u8) 7" by (simp_all add: bit7_iff)
  ultimately show ?thesis by (auto simp: sse2_match_byte_def cmpeq_def lane_hit_movemask split: if_splits)
qed

lemma lane_hit_cmpeq_neon:
  "length g = 16 \<Longrightarrow> lane_hit Neon (neon_match_byte g b) i \<longleftrightarrow> i < 16 \<and> g ! i = b"
  unfolding neon_match_byte_def cmpeq_def by (subst lane_hit_neon_to_mask) (auto split: if_splits)

lemma lane_hit_neon_free:
  "length g = 16 \<Longrightarrow> lane_hit Neon (neon_match_free g) i \<longleftrightarrow> i < 16 \<and> bit (g ! i) 7"
  unfolding neon_match_free_def by (subst lane_hit_neon_to_mask) (auto simp: signed_drop_bit_7 split: if_splits)

interpretation sse2: probe_target Sse2
  by unfold_locales
     (auto simp: WIDTH_def match_byte_def match_empty_def match_free_def mask_lanes_spec
       lane_hit_cmpeq_sse2 sse2_match_free_def lane_hit_movemask is_full_bit)

interpretation neon: probe_target Neon
  by unfold_locales
     (auto simp: WIDTH_def match_byte_def match_empty_def match_free_def mask_lanes_spec
       lane_hit_cmpeq_neon lane_hit_neon_free is_full_bit)

lemma portable_empty_lane:
  assumes "length g = 8" "list_all ctrl_ok g"
  shows "lane_hit Portable (portable_match_byte g EMPTY) i \<longleftrightarrow> i < 8 \<and> g ! i = EMPTY"
  unfolding lane_hit_portable [OF assms(1)]
proof
  let ?bs = "map (\<lambda>x. x XOR EMPTY) g"
  assume "lit False ?bs i"
  then have i: "i < 8" "?bs ! i = 0 \<or> ?bs ! i = 1" using lit_cases assms(1) by force+
  then have "ctrl_ok (g ! i)" using assms by (simp add: list_all_length)
  then show "i < 8 \<and> g ! i = EMPTY"
    using i assms(1) EMPTY_xor_one by (simp add: xor_zero_iff)
qed (use assms in \<open>auto intro!: lit_zero\<close>)

lemma portable_tag_lane:
  assumes "length g = 8" "is_full b" "lit False (map (\<lambda>x. x XOR b) g) i"
  shows "i < 8 \<and> is_full (g ! i)"
  using lit_cases [OF assms(3)] assms(1,2) xor_one_full [of "g ! i" b] by (auto simp: xor_zero_iff)

interpretation portable: probe_target Portable
proof
  fix g :: bytes and i b
  assume len: "length g = WIDTH Portable"
  then have len8: "length g = 8" by (simp add: WIDTH_def)
  show "i \<in> set (mask_lanes Portable (match_byte Portable g b))" if "i < WIDTH Portable" "g ! i = b"
    using that len8 by (simp add: WIDTH_def match_byte_def mask_lanes_spec lane_hit_portable lit_zero)
  show "i < WIDTH Portable \<and> is_full (g ! i)"
    if "is_full b" "i \<in> set (mask_lanes Portable (match_byte Portable g b))"
    using that len8 portable_tag_lane [of g b i]
    by (simp add: WIDTH_def match_byte_def mask_lanes_spec lane_hit_portable)
  show "lane_hit Portable (match_empty Portable g) i \<longleftrightarrow> i < WIDTH Portable \<and> g ! i = EMPTY"
    if "list_all ctrl_ok g"
    using that len8 by (simp add: WIDTH_def match_empty_def match_byte_def portable_empty_lane)
  show "lane_hit Portable (match_free Portable g) i \<longleftrightarrow> i < WIDTH Portable \<and> \<not> is_full (g ! i)"
    using len8 by (simp add: WIDTH_def match_free_def lane_hit_portable_free is_full_bit)
qed (simp add: WIDTH_def)

lemma every_target: "probe_target t"
  by (cases t) (simp_all add: sse2.probe_target_axioms neon.probe_target_axioms portable.probe_target_axioms)

interpretation tgt: probe_target t for t
  by (rule every_target)

lemma is_full_tag_of [simp]: "is_full (tag_of h)"
proof -
  have "(0x7f :: u8) = mask 7" by (simp add: mask_eq_exp_minus_1)
  then show ?thesis by (simp add: is_full_bit tag_of_def bit_and_iff bit_mask_iff)
qed

section \<open>Properties\<close>

text \<open>
  C39: on every target the group probe keeps its contract: no lane that holds the tag is missed,
  every lane reported for a tag is occupied, an empty lane is seen exactly when there is one, and
  the free lane found is the first that is empty or deleted.
\<close>

theorem group_contract:
  assumes "length g = WIDTH t" "list_all ctrl_ok g"
  shows "(\<forall>i<WIDTH t. g ! i = tag_of h \<longrightarrow> i \<in> set (mask_lanes t (match_byte t g (tag_of h)))) \<and>
    (\<forall>i\<in>set (mask_lanes t (match_byte t g (tag_of h))). i < WIDTH t \<and> is_full (g ! i)) \<and>
    (mask_any (match_empty t g) \<longleftrightarrow> EMPTY \<in> set g) \<and>
    (lowest t (match_free t g) = Some i \<longleftrightarrow> first_at (\<lambda>b. \<not> is_full b) g i)"
proof (intro conjI)
  show "\<forall>i<WIDTH t. g ! i = tag_of h \<longrightarrow> i \<in> set (mask_lanes t (match_byte t g (tag_of h)))"
    using tgt.tag_complete [OF assms(1)] by blast
  show "\<forall>i\<in>set (mask_lanes t (match_byte t g (tag_of h))). i < WIDTH t \<and> is_full (g ! i)"
    using tgt.tag_sound [OF assms(1) is_full_tag_of] by blast
  show "mask_any (match_empty t g) \<longleftrightarrow> EMPTY \<in> set g" by (rule tgt.any_empty [OF assms])
  show "lowest t (match_free t g) = Some i \<longleftrightarrow> first_at (\<lambda>b. \<not> is_full b) g i" by (rule tgt.first_free [OF assms(1)])
qed

theorem group_contract_witness:
  "0 \<in> set (mask_lanes Portable (match_byte Portable (tag_of 5 # replicate 7 EMPTY) (tag_of 5))) \<and>
   (mask_any (match_empty Portable (tag_of 5 # replicate 7 EMPTY)) \<longleftrightarrow> EMPTY \<in> set (tag_of 5 # replicate 7 EMPTY)) \<and>
   (lowest Portable (match_free Portable (tag_of 5 # replicate 7 EMPTY)) = Some 1 \<longleftrightarrow>
      first_at (\<lambda>b. \<not> is_full b) (tag_of 5 # replicate 7 EMPTY) 1)"
proof -
  have "length (tag_of 5 # replicate 7 EMPTY) = WIDTH Portable" "list_all ctrl_ok (tag_of 5 # replicate 7 EMPTY)"
    using is_full_tag_of [of 5] by (auto simp: WIDTH_def ctrl_ok_def list_all_iff)
  from group_contract [OF this, of 5 1] show ?thesis by (simp add: WIDTH_def)
qed

text \<open>
  The word-at-a-time probe may report a lane that does not hold the tag: above a lane that
  matches, a lane that differs from the tag in its lowest bit alone is reported as well.
\<close>

theorem portable_false_match:
  "mask_lanes Portable (match_byte Portable [0x2a, 0x2b, EMPTY, EMPTY, EMPTY, EMPTY, EMPTY, EMPTY] 0x2a) = [0, 1]"
  by code_simp

end
