(* ===== verification/Rugo_Arena.thy ===== *)
theory Rugo_Arena
  imports Rugo_Prelude
begin

text \<open>
  The slab allocator of a shard, \<^verbatim>\<open>crates/rugo-arena/src/lib.rs\<close> and \<^verbatim>\<open>segment.rs\<close>: segments of
  bytes, a bump cursor in the newest one, one intrusive free list per size class (the link is
  stored in the first four bytes of the free block), and a table of oversized blocks.

  What the build and the machine decide is an argument: \<open>lazy\<close> (whether segments are mappings) and
  \<open>page\<close> (what \<^verbatim>\<open>sysconf(_SC_PAGESIZE)\<close> answers, which may be an error below zero) make up a
  \<open>Platform\<close>, and each allocation takes \<open>os\<close>, which says whether \<^verbatim>\<open>mmap\<close> would grant a segment during
  that call. The code relies on a page being a divisor of a megabyte, which is \<open>platform_ok\<close>.

  A segment is the list of its bytes, and the mutable slice \<^verbatim>\<open>get_mut\<close> returns is modelled by the
  update the caller applies to it.
\<close>

section \<open>The platform and its segments\<close>

record Platform =
  lazy :: bool
  page :: int

definition granule :: "Platform \<Rightarrow> nat" where
  "granule p = (if lazy p then max (if 0 \<le> page p then nat (page p) else 4096) 4096 else 1)"

definition platform_ok :: "Platform \<Rightarrow> bool" where
  "platform_ok p \<longleftrightarrow> granule p dvd 1024 * 1024"

definition next_multiple_of :: "nat \<Rightarrow> nat \<Rightarrow> nat" where
  "next_multiple_of n m = (if n mod m = 0 then n else n + (m - n mod m))"

type_synonym Segment = bytes

definition segment_new :: "Platform \<Rightarrow> bool \<Rightarrow> nat \<Rightarrow> Segment option" where
  "segment_new p os len =
     (if lazy p
      then (if os then Some (replicate (next_multiple_of len (granule p)) 0) else None)
      else Some (replicate len 0))"

definition segment_empty :: Segment where
  "segment_empty = []"

section \<open>Constants\<close>

definition MIN_SEGMENT :: "Platform \<Rightarrow> nat" where
  "MIN_SEGMENT p = (if lazy p then 1024 * 1024 else 4 * 1024)"

definition MAX_SEGMENT :: "Platform \<Rightarrow> nat" where
  "MAX_SEGMENT p = (if lazy p then 8 * 1024 * 1024 else 2 * 1024 * 1024)"

definition GRAIN :: nat where "GRAIN = 4"
definition SMALL_MAX :: nat where "SMALL_MAX = 2048"
definition SEG_BITS :: nat where "SEG_BITS = 10"
definition OFF_BITS :: nat where "OFF_BITS = 21"
definition OFF_MASK :: u32 where "OFF_MASK = push_bit OFF_BITS 1 - 1"
definition MAX_SEGMENTS :: nat where "MAX_SEGMENTS = 2 ^ SEG_BITS"
definition INLINE_SEGMENTS :: nat where "INLINE_SEGMENTS = 4"
definition LARGE :: u32 where "LARGE = push_bit 31 1"

definition GROWTH :: "Platform \<Rightarrow> nat" where
  "GROWTH p = (if lazy p then 1 else 16)"

text \<open>\<^verbatim>\<open>Ref\<close> is a newtype of its bits, so \<^verbatim>\<open>bits\<close> and \<^verbatim>\<open>from_bits\<close> are the identity.\<close>

type_synonym Ref = u32

definition NONE :: Ref where "NONE = - 1"

definition is_none :: "Ref \<Rightarrow> bool" where
  "is_none r \<longleftrightarrow> r = NONE"

datatype Full = Slab | Large | Memory

definition next_segment_size :: "Platform \<Rightarrow> nat \<Rightarrow> nat" where
  "next_segment_size p held =
     (let share = held div GROWTH p
      in if MAX_SEGMENT p \<le> share then MAX_SEGMENT p
         else let wanted = next_multiple_of share (MIN_SEGMENT p)
              in if wanted < MIN_SEGMENT p then MIN_SEGMENT p else wanted)"

definition narrow :: "nat \<Rightarrow> u32" where
  "narrow count = of_nat count"

section \<open>The arena\<close>

record Arena =
  ar_head :: "Segment list"
  ar_tail :: "Segment list"
  ar_made :: nat
  ar_seg :: u32
  ar_off :: u32
  ar_free :: "u32 list"
  ar_large :: "bytes list"
  ar_large_free :: "u32 list"
  ar_live :: nat
  ar_dead :: nat
  ar_large_live :: nat
  ar_segment_bytes :: nat

definition arena_new :: Arena where
  "arena_new = \<lparr>
     ar_head = replicate INLINE_SEGMENTS segment_empty, ar_tail = [], ar_made = 0, ar_seg = 0, ar_off = 0,
     ar_free = [], ar_large = [], ar_large_free = [],
     ar_live = 0, ar_dead = 0, ar_large_live = 0, ar_segment_bytes = 0 \<rparr>"

definition class_of :: "nat \<Rightarrow> nat option" where
  "class_of len = (if len = 0 \<or> SMALL_MAX < len then None else Some ((len + GRAIN - 1) div GRAIN - 1))"

definition ref_make :: "u32 \<Rightarrow> u32 \<Rightarrow> Ref" where
  "ref_make seg off = push_bit OFF_BITS seg OR off"

definition place :: "Ref \<Rightarrow> nat \<times> nat" where
  "place at = (unat (drop_bit OFF_BITS at), unat (at AND OFF_MASK) * GRAIN)"

definition segment :: "Arena \<Rightarrow> nat \<Rightarrow> Segment option" where
  "segment A seg =
     (if seg < INLINE_SEGMENTS then idx (ar_head A) seg
      else do {
        at \<leftarrow> usub seg INLINE_SEGMENTS;
        Some (if at < length (ar_tail A) then ar_tail A ! at else []) })"

text \<open>\<^verbatim>\<open>segment_mut\<close>: the new contents of segment \<open>seg\<close>, which keep its length.\<close>

definition segment_mut :: "Arena \<Rightarrow> nat \<Rightarrow> Segment \<Rightarrow> Arena option" where
  "segment_mut A seg bs =
     (if seg < INLINE_SEGMENTS
      then do { head \<leftarrow> set_idx (ar_head A) seg bs; Some (A\<lparr> ar_head := head \<rparr>) }
      else do {
        at \<leftarrow> usub seg INLINE_SEGMENTS;
        Some (if at < length (ar_tail A) then A\<lparr> ar_tail := (ar_tail A)[at := bs] \<rparr> else A) })"

definition next_free :: "Arena \<Rightarrow> Ref \<Rightarrow> u32 option" where
  "next_free A at = (case place at of (seg, off) \<Rightarrow> do {
     sg \<leftarrow> segment A seg;
     buf \<leftarrow> slice sg off (off + 4);
     Some (u32_from_le_bytes buf) })"

definition set_next_free :: "Arena \<Rightarrow> Ref \<Rightarrow> u32 \<Rightarrow> Arena option" where
  "set_next_free A at link = (case place at of (seg, off) \<Rightarrow> do {
     sg \<leftarrow> segment A seg;
     sg \<leftarrow> copy_into sg off (off + 4) (u32_to_le_bytes link);
     segment_mut A seg sg })"

definition push_free :: "Arena \<Rightarrow> Ref \<Rightarrow> nat \<Rightarrow> Arena option" where
  "push_free A at len = do {
     class \<leftarrow> usub (len div GRAIN) 1;
     let A = A\<lparr> ar_dead := ar_dead A + len \<rparr>;
     head \<leftarrow> idx (ar_free A) class;
     A \<leftarrow> set_next_free A at head;
     heads \<leftarrow> set_idx (ar_free A) class at;
     Some (A\<lparr> ar_free := heads \<rparr>) }"

definition grow :: "Platform \<Rightarrow> bool \<Rightarrow> Arena \<Rightarrow> ((Full + unit) \<times> Arena) option" where
  "grow p os A =
     (if MAX_SEGMENTS \<le> ar_made A then Some (Inl Slab, A)
      else case segment_new p os (next_segment_size p (ar_segment_bytes A)) of
        None \<Rightarrow> Some (Inl Memory, A)
      | Some sg \<Rightarrow> do {
          let A = A\<lparr> ar_segment_bytes := ar_segment_bytes A + length sg \<rparr>;
          A \<leftarrow> (if ar_made A < INLINE_SEGMENTS
            then do { head \<leftarrow> set_idx (ar_head A) (ar_made A) sg; Some (A\<lparr> ar_head := head \<rparr>) }
            else Some (A\<lparr> ar_tail := ar_tail A @ [sg] \<rparr>));
          Some (Inr (), A\<lparr> ar_seg := narrow (ar_made A), ar_made := ar_made A + 1, ar_off := 0 \<rparr>) })"

definition alloc_large :: "Arena \<Rightarrow> nat \<Rightarrow> ((Full + Ref) \<times> Arena) option" where
  "alloc_large A len =
     (case (if ar_large_free A \<noteq> []
            then Inr (last (ar_large_free A), A\<lparr> ar_large_free := butlast (ar_large_free A) \<rparr>)
            else if 2 ^ 32 \<le> length (ar_large A) then Inl Large
            else let at = of_nat (length (ar_large A)) :: u32
                 in if at AND LARGE \<noteq> 0 then Inl Large
                    else Inr (at, A\<lparr> ar_large := ar_large A @ [[]] \<rparr>)) of
        Inl e \<Rightarrow> Some (Inl e, A)
      | Inr (at, A) \<Rightarrow> do {
          let A = A\<lparr> ar_live := ar_live A + len, ar_large_live := ar_large_live A + len \<rparr>;
          blocks \<leftarrow> set_idx (ar_large A) (unat at) (replicate len 0);
          Some (Inr (at OR LARGE), A\<lparr> ar_large := blocks \<rparr>) })"

definition alloc :: "Platform \<Rightarrow> bool \<Rightarrow> Arena \<Rightarrow> nat \<Rightarrow> ((Full + Ref) \<times> Arena) option" where
  "alloc p os A len =
     (case class_of len of
        None \<Rightarrow> alloc_large A len
      | Some class \<Rightarrow> do {
          let A = (if length (ar_free A) \<le> class
            then A\<lparr> ar_free := ar_free A @ replicate (class + 1 - length (ar_free A)) NONE \<rparr> else A);
          let rounded = (class + 1) * GRAIN;
          head \<leftarrow> idx (ar_free A) class;
          if head \<noteq> NONE then do {
            link \<leftarrow> next_free A head;
            heads \<leftarrow> set_idx (ar_free A) class link;
            dead \<leftarrow> usub (ar_dead A) rounded;
            Some (Inr head, A\<lparr> ar_free := heads, ar_dead := dead, ar_live := ar_live A + rounded \<rparr>) }
          else do {
            let units = narrow (rounded div GRAIN);
            sg \<leftarrow> segment A (unat (ar_seg A));
            room \<leftarrow> (if sg = [] then Some 0 else usub (unat (narrow (length sg div GRAIN))) (unat (ar_off A)));
            (r, A) \<leftarrow> (if room < unat units
              then do {
                A \<leftarrow> (if 0 < room then push_free A (ref_make (ar_seg A) (ar_off A)) (room * GRAIN) else Some A);
                grow p os A }
              else Some (Inr (), A));
            (case r of
               Inl e \<Rightarrow> Some (Inl e, A)
             | Inr _ \<Rightarrow> Some (Inr (ref_make (ar_seg A) (ar_off A)),
                 A\<lparr> ar_off := ar_off A + units, ar_live := ar_live A + rounded \<rparr>)) } })"

definition arena_free :: "Arena \<Rightarrow> Ref \<Rightarrow> nat \<Rightarrow> Arena option" where
  "arena_free A at len =
     (if is_none at then Some A
      else case class_of len of
        None \<Rightarrow> do {
          let index = unat (at AND NOT LARGE);
          block \<leftarrow> idx (ar_large A) index;
          live \<leftarrow> usub (ar_live A) (length block);
          large_live \<leftarrow> usub (ar_large_live A) (length block);
          blocks \<leftarrow> set_idx (ar_large A) index [];
          Some (A\<lparr> ar_live := live, ar_large_live := large_live, ar_large := blocks,
                   ar_large_free := ar_large_free A @ [at AND NOT LARGE] \<rparr>) }
      | Some class \<Rightarrow> do {
          let rounded = (class + 1) * GRAIN;
          live \<leftarrow> usub (ar_live A) rounded;
          push_free (A\<lparr> ar_live := live \<rparr>) at rounded })"

definition arena_get :: "Arena \<Rightarrow> Ref \<Rightarrow> nat \<Rightarrow> bytes option" where
  "arena_get A at len =
     (if at AND LARGE \<noteq> 0 then idx (ar_large A) (unat (at AND NOT LARGE))
      else case place at of (seg, off) \<Rightarrow> do {
        sg \<leftarrow> segment A seg;
        slice sg off (off + len) })"

definition arena_get_mut :: "Arena \<Rightarrow> Ref \<Rightarrow> nat \<Rightarrow> (bytes \<Rightarrow> bytes option) \<Rightarrow> Arena option" where
  "arena_get_mut A at len f =
     (if at AND LARGE \<noteq> 0 then do {
        block \<leftarrow> idx (ar_large A) (unat (at AND NOT LARGE));
        block \<leftarrow> f block;
        blocks \<leftarrow> set_idx (ar_large A) (unat (at AND NOT LARGE)) block;
        Some (A\<lparr> ar_large := blocks \<rparr>) }
      else case place at of (seg, off) \<Rightarrow> do {
        sg \<leftarrow> segment A seg;
        block \<leftarrow> slice sg off (off + len);
        block \<leftarrow> f block;
        sg \<leftarrow> copy_into sg off (off + len) block;
        segment_mut A seg sg })"

definition arena_peek :: "Arena \<Rightarrow> Ref \<Rightarrow> nat \<Rightarrow> bytes option" where
  "arena_peek A at len =
     (if at AND LARGE \<noteq> 0 then do {
        block \<leftarrow> idx (ar_large A) (unat (at AND NOT LARGE));
        slice block 0 (min len (length block)) }
      else case place at of (seg, off) \<Rightarrow> do {
        sg \<leftarrow> segment A seg;
        slice sg off (min (off + len) (length sg)) })"

definition live_bytes :: "Arena \<Rightarrow> nat" where
  "live_bytes A = ar_live A"

definition dead_bytes :: "Arena \<Rightarrow> nat" where
  "dead_bytes A = ar_dead A"

definition held :: "Platform \<Rightarrow> Arena \<Rightarrow> nat option" where
  "held p A =
     (if \<not> lazy p then Some (ar_segment_bytes A)
      else if ar_made A = 0 then Some 0
      else do {
        at \<leftarrow> usub (ar_made A) 1;
        sg \<leftarrow> segment A at;
        let written = next_multiple_of (unat (ar_off A) * GRAIN) (granule p);
        rest \<leftarrow> usub (ar_segment_bytes A) (length sg);
        Some (rest + min written (length sg)) })"

text \<open>
  The bytes of the bookkeeping lists depend on the capacities the standard library's vectors
  happen to have, which are a parameter.
\<close>

record Capacities =
  cap_tail :: nat
  cap_large :: nat
  cap_large_free :: nat
  cap_free :: nat

definition tables :: "Capacities \<Rightarrow> nat" where
  "tables c = cap_tail c * 16 + cap_large c * 16 + cap_large_free c * 4 + cap_free c * 4"

definition arena_resident_bytes :: "Platform \<Rightarrow> Capacities \<Rightarrow> Arena \<Rightarrow> nat option" where
  "arena_resident_bytes p c A = do {
     h \<leftarrow> held p A;
     Some (h + ar_large_live A + tables c) }"

definition mapped_bytes :: "Capacities \<Rightarrow> Arena \<Rightarrow> nat" where
  "mapped_bytes c A = ar_segment_bytes A + ar_large_live A + tables c"

end
