(* ===== verification/Rugo_Table.thy ===== *)
theory Rugo_Table
  imports Rugo_Hash Rugo_Entry Rugo_Group Rugo_Arena
begin

text \<open>
  One shard's table, \<^verbatim>\<open>crates/rugo-map/src/table.rs\<close>: control bytes, slots and the arena the
  entries live in, with every operation of the type. Probing loops are \<open>partial_function\<close>s, so a
  probe that never ends would be the value \<open>None\<close>, the same as a panic.

  \<open>t\<close> is the target the build is for (it fixes the group width), \<open>p\<close> and \<open>os\<close> are the arena's
  platform arguments. The prefetch hints have no effect on the state and are left out.
\<close>

section \<open>Constants and the table\<close>

definition MIN_CAPACITY :: nat where "MIN_CAPACITY = 16"
definition MAX_HEADER :: nat where "MAX_HEADER = 11"
definition LOAD_NUM :: nat where "LOAD_NUM = 7"
definition LOAD_DEN :: nat where "LOAD_DEN = 8"

datatype Wrote = Inserted | Replaced

record Table =
  tb_ctrl :: bytes
  tb_slots :: "u32 list"
  tb_arena :: Arena
  tb_len :: nat
  tb_tombstones :: nat
  tb_timed :: nat
  tb_growth_left :: nat
  tb_seed :: u64

definition table_new :: "u64 \<Rightarrow> Table" where
  "table_new seed = \<lparr> tb_ctrl = [], tb_slots = [], tb_arena = arena_new, tb_len = 0, tb_tombstones = 0,
     tb_timed = 0, tb_growth_left = 0, tb_seed = seed \<rparr>"

definition table_len :: "Table \<Rightarrow> nat" where
  "table_len T = tb_len T"

definition table_is_empty :: "Table \<Rightarrow> bool" where
  "table_is_empty T \<longleftrightarrow> tb_len T = 0"

definition table_capacity :: "Table \<Rightarrow> nat" where
  "table_capacity T = length (tb_slots T)"

definition index_bytes :: "Table \<Rightarrow> nat" where
  "index_bytes T = length (tb_ctrl T) + length (tb_slots T) * 4"

definition table_resident_bytes :: "Platform \<Rightarrow> Capacities \<Rightarrow> Table \<Rightarrow> nat option" where
  "table_resident_bytes p c T = do {
     r \<leftarrow> arena_resident_bytes p c (tb_arena T);
     Some (index_bytes T + r) }"

definition table_live_bytes :: "Table \<Rightarrow> nat" where
  "table_live_bytes T = live_bytes (tb_arena T)"

definition charged_bytes :: "Table \<Rightarrow> nat" where
  "charged_bytes T = index_bytes T + live_bytes (tb_arena T)"

definition groups :: "target \<Rightarrow> Table \<Rightarrow> nat" where
  "groups t T = length (tb_slots T) div WIDTH t"

section \<open>Small helpers\<close>

definition mix :: "u64 \<Rightarrow> u64" where
  "mix x =
     (let x = (x XOR drop_bit 30 x) * 0xbf58476d1ce4e5b9;
          x = (x XOR drop_bit 27 x) * 0x94d049bb133111eb
      in x XOR drop_bit 31 x)"

definition spot :: "u64 \<Rightarrow> nat \<Rightarrow> nat option" where
  "spot bits capacity = do {
     msk \<leftarrow> usub capacity 1;
     Some (unat (drop_bit 32 bits) AND msk) }"

definition group_of :: "u64 \<Rightarrow> nat \<Rightarrow> nat" where
  "group_of hsh msk = unat (hsh AND of_nat msk)"

function next_power_from :: "nat \<Rightarrow> nat \<Rightarrow> nat" where
  "next_power_from q n = (if n \<le> q \<or> q = 0 then q else next_power_from (2 * q) n)"
  by pat_completeness auto
termination by (relation "measure (\<lambda>(q, n). n - q)") auto

declare next_power_from.simps [simp del]

definition next_power_of_two :: "nat \<Rightarrow> nat" where
  "next_power_of_two n = next_power_from 1 n"

section \<open>Reading entries\<close>

definition group_at :: "target \<Rightarrow> bytes \<Rightarrow> nat \<Rightarrow> bytes option" where
  "group_at t ctrl at = slice ctrl at (at + WIDTH t)"

definition head_at :: "Table \<Rightarrow> Ref \<Rightarrow> Head option" where
  "head_at T at = do {
     bs \<leftarrow> arena_peek (tb_arena T) at MAX_HEADER;
     head bs }"

definition entry_at :: "Table \<Rightarrow> Ref \<Rightarrow> (Head \<times> bytes) option" where
  "entry_at T at = do {
     h \<leftarrow> head_at T at;
     bs \<leftarrow> arena_get (tb_arena T) at (head_size h);
     Some (h, bs) }"

definition expiry_of :: "Table \<Rightarrow> Ref \<Rightarrow> Head \<Rightarrow> u32 option option" where
  "expiry_of T at h =
     (if flags h AND HAS_EXPIRY = 0 then Some None
      else do {
        bs \<leftarrow> arena_get (tb_arena T) at (head_size h);
        head_expiry h bs })"

definition retime :: "Table \<Rightarrow> bool \<Rightarrow> bool \<Rightarrow> Table option" where
  "retime T was now =
     (if was \<and> \<not> now then do { n \<leftarrow> usub (tb_timed T) 1; Some (T\<lparr> tb_timed := n \<rparr>) }
      else if \<not> was \<and> now then Some (T\<lparr> tb_timed := tb_timed T + 1 \<rparr>)
      else Some T)"

section \<open>Probing\<close>

fun find_lane :: "Table \<Rightarrow> bytes \<Rightarrow> nat \<Rightarrow> nat list \<Rightarrow> (nat \<times> Head) option option" where
  "find_lane T key base [] = Some None"
| "find_lane T key base (lane # lanes) = do {
     let at = base + lane;
     slot \<leftarrow> idx (tb_slots T) at;
     (h, bs) \<leftarrow> entry_at T slot;
     k \<leftarrow> head_key h bs;
     if k = key then Some (Some (at, h)) else find_lane T key base lanes }"

partial_function (option) find_loop ::
    "target \<Rightarrow> Table \<Rightarrow> bytes \<Rightarrow> u8 \<Rightarrow> nat \<Rightarrow> nat \<Rightarrow> nat \<Rightarrow> (nat \<times> Head) option option" where
  "find_loop t T key tag msk grp step = do {
     let base = grp * WIDTH t;
     probe \<leftarrow> group_at t (tb_ctrl T) base;
     found \<leftarrow> find_lane T key base (mask_lanes t (match_byte t probe tag));
     (case found of
        Some f \<Rightarrow> Some (Some f)
      | None \<Rightarrow>
          if mask_any (match_empty t probe) then Some None
          else find_loop t T key tag msk ((grp + step) AND msk) (step + 1)) }"

definition find :: "target \<Rightarrow> Table \<Rightarrow> bytes \<Rightarrow> u64 \<Rightarrow> (nat \<times> Head) option option" where
  "find t T key hsh =
     (if tb_slots T = [] then Some None
      else do {
        msk \<leftarrow> usub (groups t T) 1;
        find_loop t T key (tag_of hsh) msk (group_of hsh msk) 1 })"

definition warm_entry :: "target \<Rightarrow> Table \<Rightarrow> u64 \<Rightarrow> unit option" where
  "warm_entry t T hsh =
     (if tb_slots T = [] then Some ()
      else do {
        msk \<leftarrow> usub (groups t T) 1;
        let base = group_of hsh msk * WIDTH t;
        probe \<leftarrow> group_at t (tb_ctrl T) base;
        (case lowest t (match_byte t probe (tag_of hsh)) of
           Some lane \<Rightarrow> do {
             at \<leftarrow> idx (tb_slots T) (base + lane);
             _ \<leftarrow> arena_peek (tb_arena T) at MAX_HEADER;
             Some () }
         | None \<Rightarrow> Some ()) })"

partial_function (option) free_slot_loop :: "target \<Rightarrow> bytes \<Rightarrow> nat \<Rightarrow> nat \<Rightarrow> nat \<Rightarrow> nat option" where
  "free_slot_loop t ctrl msk grp step = do {
     let base = grp * WIDTH t;
     probe \<leftarrow> group_at t ctrl base;
     (case lowest t (match_free t probe) of
        Some lane \<Rightarrow> Some (base + lane)
      | None \<Rightarrow> free_slot_loop t ctrl msk ((grp + step) AND msk) (step + 1)) }"

definition free_slot :: "target \<Rightarrow> Table \<Rightarrow> u64 \<Rightarrow> nat option" where
  "free_slot t T hsh = do {
     msk \<leftarrow> usub (groups t T) 1;
     free_slot_loop t (tb_ctrl T) msk (group_of hsh msk) 1 }"

definition is_expired :: "Table \<Rightarrow> nat \<Rightarrow> u32 \<Rightarrow> bool option" where
  "is_expired T at now = do {
     entry \<leftarrow> idx (tb_slots T) at;
     h \<leftarrow> head_at T entry;
     e \<leftarrow> expiry_of T entry h;
     Some (case e of Some when \<Rightarrow> when \<le> now | None \<Rightarrow> False) }"

section \<open>Erasing and rebuilding\<close>

definition erase :: "target \<Rightarrow> Table \<Rightarrow> nat \<Rightarrow> Table option" where
  "erase t T at = do {
     entry \<leftarrow> idx (tb_slots T) at;
     h \<leftarrow> head_at T entry;
     let len = head_size h;
     let was_timed = (flags h AND HAS_EXPIRY \<noteq> 0);
     let base = at - at mod WIDTH t;
     probe \<leftarrow> group_at t (tb_ctrl T) base;
     T \<leftarrow> (if mask_any (match_empty t probe)
       then do {
         ctrl \<leftarrow> set_idx (tb_ctrl T) at EMPTY;
         Some (T\<lparr> tb_ctrl := ctrl, tb_growth_left := tb_growth_left T + 1 \<rparr>) }
       else do {
         ctrl \<leftarrow> set_idx (tb_ctrl T) at DELETED;
         Some (T\<lparr> tb_ctrl := ctrl, tb_tombstones := tb_tombstones T + 1 \<rparr>) });
     slots \<leftarrow> set_idx (tb_slots T) at NONE;
     A \<leftarrow> arena_free (tb_arena T) entry len;
     n \<leftarrow> usub (tb_len T) 1;
     retime (T\<lparr> tb_slots := slots, tb_arena := A, tb_len := n \<rparr>) was_timed False }"

partial_function (option) put_loop :: "target \<Rightarrow> bytes \<Rightarrow> nat \<Rightarrow> nat \<Rightarrow> nat \<Rightarrow> nat option" where
  "put_loop t ctrl msk grp step = do {
     let base = grp * WIDTH t;
     probe \<leftarrow> group_at t ctrl base;
     (case lowest t (match_empty t probe) of
        Some lane \<Rightarrow> Some (base + lane)
      | None \<Rightarrow> put_loop t ctrl msk ((grp + step) AND msk) (step + 1)) }"

declare find_loop.simps [code] free_slot_loop.simps [code] put_loop.simps [code]

fun rehash_loop :: "target \<Rightarrow> Table \<Rightarrow> nat \<Rightarrow> nat list \<Rightarrow> bytes \<Rightarrow> u32 list \<Rightarrow> (bytes \<times> u32 list) option" where
  "rehash_loop t T msk [] ctrl slots = Some (ctrl, slots)"
| "rehash_loop t T msk (at # ats) ctrl slots = do {
     c \<leftarrow> idx (tb_ctrl T) at;
     if \<not> is_full c then rehash_loop t T msk ats ctrl slots
     else do {
       entry \<leftarrow> idx (tb_slots T) at;
       (h, bs) \<leftarrow> entry_at T entry;
       key \<leftarrow> head_key h bs;
       hsh \<leftarrow> hash key (tb_seed T);
       put \<leftarrow> put_loop t ctrl msk (group_of hsh msk) 1;
       ctrl \<leftarrow> set_idx ctrl put (tag_of hsh);
       slots \<leftarrow> set_idx slots put entry;
       rehash_loop t T msk ats ctrl slots } }"

definition rehash :: "target \<Rightarrow> Table \<Rightarrow> nat \<Rightarrow> Table option" where
  "rehash t T capacity = do {
     msk \<leftarrow> usub (capacity div WIDTH t) 1;
     (ctrl, slots) \<leftarrow> rehash_loop t T msk [0..<length (tb_slots T)] (replicate capacity EMPTY) (replicate capacity NONE);
     growth_left \<leftarrow> usub (capacity * LOAD_NUM div LOAD_DEN) (tb_len T);
     Some (T\<lparr> tb_ctrl := ctrl, tb_slots := slots, tb_tombstones := 0, tb_growth_left := growth_left \<rparr>) }"

definition reserve :: "target \<Rightarrow> Table \<Rightarrow> Table option" where
  "reserve t T =
     (let wanted = (if tb_slots T = [] then MIN_CAPACITY
                    else if tb_len T \<le> tb_tombstones T then length (tb_slots T)
                    else length (tb_slots T) * 2)
      in rehash t T wanted)"

definition shrink :: "target \<Rightarrow> Table \<Rightarrow> (bool \<times> Table) option" where
  "shrink t T =
     (if length (tb_slots T) \<le> MIN_CAPACITY then Some (False, T)
      else let wanted = max (next_power_of_two (tb_len T * 2)) MIN_CAPACITY
           in if length (tb_slots T) \<le> wanted then Some (False, T)
              else do {
                T \<leftarrow> rehash t T wanted;
                Some (True, T) })"

section \<open>The operations\<close>

text \<open>The three lookups share the check that drops an entry found to have expired.\<close>

definition live_slot :: "target \<Rightarrow> Table \<Rightarrow> bytes \<Rightarrow> u64 \<Rightarrow> u32 \<Rightarrow> ((nat \<times> Head \<times> Ref) option \<times> Table) option" where
  "live_slot t T key hsh now = do {
     found \<leftarrow> find t T key hsh;
     (case found of
        None \<Rightarrow> Some (None, T)
      | Some (at, h) \<Rightarrow> do {
          entry \<leftarrow> idx (tb_slots T) at;
          e \<leftarrow> expiry_of T entry h;
          (case e of
             Some when \<Rightarrow> if when \<le> now then do { T \<leftarrow> erase t T at; Some (None, T) } else Some (Some (at, h, entry), T)
           | None \<Rightarrow> Some (Some (at, h, entry), T)) }) }"

definition table_get :: "target \<Rightarrow> Table \<Rightarrow> bytes \<Rightarrow> u64 \<Rightarrow> u32 \<Rightarrow> (bytes option \<times> Table) option" where
  "table_get t T key hsh now = do {
     (r, T) \<leftarrow> live_slot t T key hsh now;
     (case r of
        None \<Rightarrow> Some (None, T)
      | Some (at, h, entry) \<Rightarrow> do {
          bs \<leftarrow> arena_get (tb_arena T) entry (head_size h);
          v \<leftarrow> head_value h bs;
          Some (Some v, T) }) }"

definition table_view :: "target \<Rightarrow> Table \<Rightarrow> bytes \<Rightarrow> u64 \<Rightarrow> u32 \<Rightarrow> (View option \<times> Table) option" where
  "table_view t T key hsh now = do {
     (r, T) \<leftarrow> live_slot t T key hsh now;
     (case r of
        None \<Rightarrow> Some (None, T)
      | Some (at, h, entry) \<Rightarrow> do {
          bs \<leftarrow> arena_get (tb_arena T) entry (head_size h);
          v \<leftarrow> head_view h bs;
          Some (Some v, T) }) }"

definition table_contains :: "target \<Rightarrow> Table \<Rightarrow> bytes \<Rightarrow> u64 \<Rightarrow> u32 \<Rightarrow> (bool \<times> Table) option" where
  "table_contains t T key hsh now = do {
     (r, T) \<leftarrow> live_slot t T key hsh now;
     Some (r \<noteq> None, T) }"

definition table_set :: "target \<Rightarrow> Platform \<Rightarrow> bool \<Rightarrow> Table \<Rightarrow> bytes \<Rightarrow> bytes \<Rightarrow> u64 \<Rightarrow> u32 option \<Rightarrow>
    u32 option \<Rightarrow> ((Full + Wrote) \<times> Table) option" where
  "table_set t p os T key val hsh expiry user_flags = do {
     let len = size_of_entry (length key) (length val) (expiry \<noteq> None) (user_flags \<noteq> None);
     found \<leftarrow> find t T key hsh;
     (case found of
        Some (at, h) \<Rightarrow> do {
          old \<leftarrow> idx (tb_slots T) at;
          let old_len = head_size h;
          let was_timed = (flags h AND HAS_EXPIRY \<noteq> 0);
          if old_len = len then do {
            A \<leftarrow> arena_get_mut (tb_arena T) old len (\<lambda>into. entry_write into key val expiry user_flags);
            T \<leftarrow> retime (T\<lparr> tb_arena := A \<rparr>) was_timed (expiry \<noteq> None);
            Some (Inr Replaced, T) }
          else do {
            (r, A) \<leftarrow> alloc p os (tb_arena T) len;
            (case r of
               Inl e \<Rightarrow> Some (Inl e, T\<lparr> tb_arena := A \<rparr>)
             | Inr new \<Rightarrow> do {
                 A \<leftarrow> arena_get_mut A new len (\<lambda>into. entry_write into key val expiry user_flags);
                 A \<leftarrow> arena_free A old old_len;
                 slots \<leftarrow> set_idx (tb_slots T) at new;
                 T \<leftarrow> retime (T\<lparr> tb_arena := A, tb_slots := slots \<rparr>) was_timed (expiry \<noteq> None);
                 Some (Inr Replaced, T) }) } }
      | None \<Rightarrow> do {
          T \<leftarrow> (if tb_growth_left T = 0 then reserve t T else Some T);
          (r, A) \<leftarrow> alloc p os (tb_arena T) len;
          (case r of
             Inl e \<Rightarrow> Some (Inl e, T\<lparr> tb_arena := A \<rparr>)
           | Inr new \<Rightarrow> do {
               A \<leftarrow> arena_get_mut A new len (\<lambda>into. entry_write into key val expiry user_flags);
               let T = T\<lparr> tb_arena := A \<rparr>;
               at \<leftarrow> free_slot t T hsh;
               c \<leftarrow> idx (tb_ctrl T) at;
               T \<leftarrow> (if c = DELETED
                 then do { n \<leftarrow> usub (tb_tombstones T) 1; Some (T\<lparr> tb_tombstones := n \<rparr>) }
                 else do { n \<leftarrow> usub (tb_growth_left T) 1; Some (T\<lparr> tb_growth_left := n \<rparr>) });
               ctrl \<leftarrow> set_idx (tb_ctrl T) at (tag_of hsh);
               slots \<leftarrow> set_idx (tb_slots T) at new;
               T \<leftarrow> retime (T\<lparr> tb_ctrl := ctrl, tb_slots := slots, tb_len := tb_len T + 1 \<rparr>) False (expiry \<noteq> None);
               Some (Inr Inserted, T) }) }) }"

definition table_remove :: "target \<Rightarrow> Table \<Rightarrow> bytes \<Rightarrow> u64 \<Rightarrow> (bool \<times> Table) option" where
  "table_remove t T key hsh = do {
     found \<leftarrow> find t T key hsh;
     (case found of
        None \<Rightarrow> Some (False, T)
      | Some (at, _) \<Rightarrow> do {
          T \<leftarrow> erase t T at;
          Some (True, T) }) }"

definition table_expire :: "target \<Rightarrow> Platform \<Rightarrow> bool \<Rightarrow> Table \<Rightarrow> bytes \<Rightarrow> u64 \<Rightarrow> u32 option \<Rightarrow> u32 \<Rightarrow>
    ((Full + bool) \<times> Table) option" where
  "table_expire t p os T key hsh expiry now = do {
     (r, T) \<leftarrow> live_slot t T key hsh now;
     (case r of
        None \<Rightarrow> Some (Inr False, T)
      | Some (at, h, entry) \<Rightarrow> do {
          let was_timed = (flags h AND HAS_EXPIRY \<noteq> 0);
          (case (was_timed, expiry) of
             (True, Some when) \<Rightarrow> do {
               let word = header h + klen h + vlen h;
               A \<leftarrow> arena_get_mut (tb_arena T) entry (head_size h)
                     (\<lambda>bs. copy_into bs word (word + 4) (u32_to_le_bytes when));
               Some (Inr True, T\<lparr> tb_arena := A \<rparr>) }
           | (False, None) \<Rightarrow> Some (Inr True, T)
           | _ \<Rightarrow> do {
               let old = head_size h;
               bs \<leftarrow> arena_get (tb_arena T) entry old;
               h \<leftarrow> head bs;
               user_flags \<leftarrow> head_user_flags h bs;
               let len = size_of_entry (klen h) (vlen h) (expiry \<noteq> None) (user_flags \<noteq> None);
               (r, A) \<leftarrow> alloc p os (tb_arena T) len;
               (case r of
                  Inl e \<Rightarrow> Some (Inl e, T\<lparr> tb_arena := A \<rparr>)
                | Inr new \<Rightarrow> do {
                    k \<leftarrow> head_key h bs;
                    v \<leftarrow> head_value h bs;
                    A \<leftarrow> arena_get_mut A new len (\<lambda>into. entry_write into k v expiry user_flags);
                    A \<leftarrow> arena_free A entry old;
                    slots \<leftarrow> set_idx (tb_slots T) at new;
                    T \<leftarrow> retime (T\<lparr> tb_arena := A, tb_slots := slots \<rparr>) was_timed (expiry \<noteq> None);
                    Some (Inr True, T) }) }) }) }"

fun clear_loop :: "nat list \<Rightarrow> Table \<Rightarrow> Table option" where
  "clear_loop [] T = Some T"
| "clear_loop (at # ats) T = do {
     c \<leftarrow> idx (tb_ctrl T) at;
     A \<leftarrow> (if is_full c
       then do {
         entry \<leftarrow> idx (tb_slots T) at;
         h \<leftarrow> head_at T entry;
         arena_free (tb_arena T) entry (head_size h) }
       else Some (tb_arena T));
     ctrl \<leftarrow> set_idx (tb_ctrl T) at EMPTY;
     slots \<leftarrow> set_idx (tb_slots T) at NONE;
     clear_loop ats (T\<lparr> tb_arena := A, tb_ctrl := ctrl, tb_slots := slots \<rparr>) }"

definition table_clear :: "Table \<Rightarrow> Table option" where
  "table_clear T = do {
     T \<leftarrow> clear_loop [0..<length (tb_slots T)] T;
     Some (T\<lparr> tb_len := 0, tb_tombstones := 0, tb_timed := 0,
              tb_growth_left := length (tb_slots T) * LOAD_NUM div LOAD_DEN \<rparr>) }"

fun sweep_loop :: "target \<Rightarrow> u32 \<Rightarrow> nat \<Rightarrow> nat \<Rightarrow> nat \<Rightarrow> nat \<Rightarrow> Table \<Rightarrow> ((nat \<times> nat) \<times> Table) option" where
  "sweep_loop t now capacity 0 at removed T = Some ((at, removed), T)"
| "sweep_loop t now capacity (Suc n) at removed T = do {
     c \<leftarrow> idx (tb_ctrl T) at;
     gone \<leftarrow> (if is_full c then is_expired T at now else Some False);
     T \<leftarrow> (if gone then erase t T at else Some T);
     sweep_loop t now capacity n ((at + 1) mod capacity) (if gone then removed + 1 else removed) T }"

definition table_sweep :: "target \<Rightarrow> Table \<Rightarrow> nat \<Rightarrow> nat \<Rightarrow> u32 \<Rightarrow> ((nat \<times> nat) \<times> Table) option" where
  "table_sweep t T from budget now =
     (if tb_timed T = 0 then Some ((from, 0), T)
      else if tb_slots T = [] then Some ((0, 0), T)
      else let capacity = length (tb_slots T)
           in sweep_loop t now capacity (min budget capacity) (from mod capacity) 0 T)"

definition deadline :: "Table \<Rightarrow> nat \<Rightarrow> u32 option" where
  "deadline T at = do {
     entry \<leftarrow> idx (tb_slots T) at;
     h \<leftarrow> head_at T entry;
     e \<leftarrow> expiry_of T entry h;
     Some (case e of Some when \<Rightarrow> when | None \<Rightarrow> - 1) }"

definition nearest_full :: "Table \<Rightarrow> nat \<Rightarrow> nat option \<Rightarrow> nat option" where
  "nearest_full T from spare =
     (let capacity = length (tb_slots T)
      in List.find (\<lambda>at. is_full (tb_ctrl T ! at) \<and> Some at \<noteq> spare)
           (map (\<lambda>step. (from + step) mod capacity) [0..<capacity]))"

definition evict_one :: "target \<Rightarrow> Table \<Rightarrow> u64 \<Rightarrow> nat option \<Rightarrow> (bool \<times> Table) option" where
  "evict_one t T roll spare =
     (if tb_len T = 0 then Some (False, T)
      else do {
        let capacity = length (tb_slots T);
        let once = mix roll;
        let twice = mix once;
        a \<leftarrow> spot once capacity;
        b \<leftarrow> spot twice capacity;
        (case (nearest_full T a spare, nearest_full T b spare) of
           (Some first, Some second) \<Rightarrow> do {
             d1 \<leftarrow> deadline T first;
             d2 \<leftarrow> deadline T second;
             let victim = (if d1 \<le> d2 then first else second);
             T \<leftarrow> erase t T victim;
             Some (True, T) }
         | _ \<Rightarrow> Some (False, T)) })"

definition slot_of :: "target \<Rightarrow> Table \<Rightarrow> bytes \<Rightarrow> u64 \<Rightarrow> nat option option" where
  "slot_of t T key hsh = do {
     found \<leftarrow> find t T key hsh;
     Some (map_option fst found) }"

text \<open>\<^verbatim>\<open>for_each\<close>: the views the callback is given, in order.\<close>

fun for_each_loop :: "Table \<Rightarrow> nat list \<Rightarrow> View list option" where
  "for_each_loop T [] = Some []"
| "for_each_loop T (at # ats) = do {
     c \<leftarrow> idx (tb_ctrl T) at;
     if is_full c then do {
       slot \<leftarrow> idx (tb_slots T) at;
       (h, bs) \<leftarrow> entry_at T slot;
       v \<leftarrow> head_view h bs;
       vs \<leftarrow> for_each_loop T ats;
       Some (v # vs) }
     else for_each_loop T ats }"

definition table_for_each :: "Table \<Rightarrow> View list option" where
  "table_for_each T = for_each_loop T [0..<length (tb_slots T)]"

end
