(* ===== verification/Rugo_Store.thy ===== *)
theory Rugo_Store
  imports Rugo_Arena
begin

text \<open>
  What the table may rely on of the allocator: the arena is a store of disjoint blocks, each
  keeping its bytes until it is written or freed. The invariant of the arena (segments, cursor,
  free lists, oversized table, counters) is stated over two ghost maps, the units of every block
  ever cut from a segment and the references on each free list; the locale \<open>block_store\<close> is the
  contract, interpreted on the arena's own operations.
\<close>

section \<open>References\<close>

lemmas [simp] = GRAIN_def SMALL_MAX_def INLINE_SEGMENTS_def OFF_BITS_def

definition is_small :: "Ref \<Rightarrow> bool" where
  "is_small r \<longleftrightarrow> unat r < 2 ^ 31"

definition ref_seg :: "Ref \<Rightarrow> nat" where
  "ref_seg r = unat r div 2 ^ 21"

definition ref_off :: "Ref \<Rightarrow> nat" where
  "ref_off r = unat r mod 2 ^ 21"

definition large_at :: "Ref \<Rightarrow> nat" where
  "large_at r = unat r mod 2 ^ 31"

lemma unat_u32_less [simp]: "unat (r :: u32) < 4294967296"
  using unsigned_less [of r] by simp

lemma unat_low_bits: "unat (take_bit n (r :: u32)) = unat r mod 2 ^ n"
  by (subst unsigned_take_bit_eq) (simp add: take_bit_eq_mod)

lemma place_eq: "place r = (ref_seg r, ref_off r * 4)"
proof -
  have "OFF_MASK = mask 21" by (simp add: OFF_MASK_def mask_eq_exp_minus_1)
  then have "r AND OFF_MASK = take_bit 21 r" by (simp add: take_bit_eq_mask)
  then have "unat (r AND OFF_MASK) = unat r mod 2 ^ 21"
    by (simp only: unat_low_bits)
  moreover have "unat (drop_bit 21 r) = unat r div 2 ^ 21"
    by (subst unat_drop_bit_eq) (simp add: drop_bit_eq_div)
  ultimately show ?thesis by (simp add: place_def ref_seg_def ref_off_def)
qed

lemma LARGE_bit: "r AND LARGE \<noteq> 0 \<longleftrightarrow> \<not> is_small r"
proof -
  have "r AND LARGE = 0 \<longleftrightarrow> \<not> bit r 31"
    using and_exp_eq_0_iff_not_bit [of r 31] by (simp add: LARGE_def)
  also have "bit r 31 \<longleftrightarrow> bit (unat r) 31" by (simp add: bit_simps)
  also have "\<dots> \<longleftrightarrow> odd (unat r div 2 ^ 31)" by (simp add: bit_iff_odd)
  also have "unat r div 2 ^ 31 = (if unat r < 2 ^ 31 then 0 else 1)"
    using unat_u32_less [of r] by (auto intro: div_nat_eqI)
  finally show ?thesis by (simp add: is_small_def)
qed

lemma LARGE_index: "unat (r AND NOT LARGE) = large_at r"
proof -
  have "r AND NOT LARGE = take_bit 31 r"
  proof (rule bit_word_eqI)
    fix n assume "n < LENGTH(32)"
    moreover have "bit LARGE n \<longleftrightarrow> n = 31"
      unfolding LARGE_def by (simp only: bit_push_bit_iff bit_1_iff) auto
    ultimately show "bit (r AND NOT LARGE) n = bit (take_bit 31 r) n"
      by (auto simp: bit_simps)
  qed
  then show ?thesis by (simp only: unat_low_bits large_at_def)
qed

lemma large_ref:
  assumes "unat i < 2 ^ 31"
  shows "unat (i OR LARGE) = unat i + 2 ^ 31" "\<not> is_small (i OR LARGE)" "large_at (i OR LARGE) = unat i"
    "(i OR LARGE) AND NOT LARGE = i"
proof -
  have "i AND LARGE = 0" using assms LARGE_bit [of i] by (simp add: is_small_def)
  then have "i OR LARGE = i + LARGE" by (simp add: disjunctive_add_eq_or)
  moreover have "unat LARGE = 2 ^ 31" by (simp add: LARGE_def)
  ultimately show u: "unat (i OR LARGE) = unat i + 2 ^ 31" using assms by (simp add: unat_word_ariths)
  show "\<not> is_small (i OR LARGE)" "large_at (i OR LARGE) = unat i"
    using u assms by (simp_all add: is_small_def large_at_def)
  then show "(i OR LARGE) AND NOT LARGE = i"
    using LARGE_index [of "i OR LARGE"] by (simp add: word_unat_eq_iff)
qed

lemma large_ref_cases:
  assumes "\<not> is_small r"
  shows "r = of_nat (large_at r) OR LARGE" "large_at r < 2 ^ 31" "unat r = large_at r + 2 ^ 31"
proof -
  show less: "large_at r < 2 ^ 31" by (simp add: large_at_def)
  have "unat r div 2 ^ 31 = 1"
    using assms unat_u32_less [of r] by (intro div_nat_eqI) (simp_all add: is_small_def)
  then show u: "unat r = large_at r + 2 ^ 31"
    using div_mult_mod_eq [of "unat r" "2 ^ 31"] by (simp add: large_at_def)
  have "unat (of_nat (large_at r) :: u32) = large_at r"
    using less by (simp add: unat_of_nat take_bit_nat_eq_self)
  then show "r = of_nat (large_at r) OR LARGE"
    using large_ref(1) [of "of_nat (large_at r)"] less u by (simp add: word_unat_eq_iff)
qed

lemma ref_make_parts:
  assumes "unat s < 1024" "unat o' < 2 ^ 21"
  shows "is_small (ref_make s o')" "ref_seg (ref_make s o') = unat s" "ref_off (ref_make s o') = unat o'"
proof -
  have p: "unat (push_bit 21 s) = unat s * 2 ^ 21"
    using assms(1) by (simp add: push_bit_eq_mult unat_word_ariths)
  have "push_bit 21 s AND o' = 0"
  proof (rule bit_word_eqI)
    fix n
    have "bit o' n \<Longrightarrow> n < 21"
      using assms(2) by (metis bit_take_bit_iff take_bit_nat_eq_self unsigned_take_bit_eq word_unat_eq_iff)
    then show "bit (push_bit 21 s AND o') n = bit 0 n" by (auto simp: bit_simps)
  qed
  then have "ref_make s o' = push_bit 21 s + o'" by (simp add: ref_make_def disjunctive_add_eq_or)
  then have u: "unat (ref_make s o') = unat s * 2 ^ 21 + unat o'"
    using assms p by (simp add: unat_word_ariths)
  then show "is_small (ref_make s o')" "ref_seg (ref_make s o') = unat s" "ref_off (ref_make s o') = unat o'"
    using assms by (simp_all add: is_small_def ref_seg_def ref_off_def)
qed

lemma ref_eqI: "ref_seg r = ref_seg r' \<Longrightarrow> ref_off r = ref_off r' \<Longrightarrow> r = r'"
  by (metis div_mult_mod_eq ref_off_def ref_seg_def word_unat_eq_iff)

lemma ref_off_less [simp]: "ref_off r < 2097152"
  by (simp add: ref_off_def)

section \<open>Segments\<close>

definition seg_bytes :: "Arena \<Rightarrow> nat \<Rightarrow> Segment" where
  "seg_bytes A s = (let sgs = ar_head A @ ar_tail A in if s < length sgs then sgs ! s else [])"

definition put_seg :: "Arena \<Rightarrow> nat \<Rightarrow> Segment \<Rightarrow> Arena" where
  "put_seg A s bs = (if s < 4 then A\<lparr> ar_head := (ar_head A)[s := bs] \<rparr> else A\<lparr> ar_tail := (ar_tail A)[s - 4 := bs] \<rparr>)"

lemma segment_eq: "length (ar_head A) = 4 \<Longrightarrow> segment A s = Some (seg_bytes A s)"
  by (auto simp: segment_def seg_bytes_def panic_defs nth_append Let_def)

lemma segment_mut_eq:
  "length (ar_head A) = 4 \<Longrightarrow> s < 4 + length (ar_tail A) \<Longrightarrow> segment_mut A s bs = Some (put_seg A s bs)"
  by (auto simp: segment_mut_def put_seg_def panic_defs)

lemma put_seg_simps [simp]:
  "length (ar_head (put_seg A s bs)) = length (ar_head A)" "length (ar_tail (put_seg A s bs)) = length (ar_tail A)"
  "ar_made (put_seg A s bs) = ar_made A" "ar_seg (put_seg A s bs) = ar_seg A" "ar_off (put_seg A s bs) = ar_off A"
  "ar_free (put_seg A s bs) = ar_free A" "ar_large (put_seg A s bs) = ar_large A"
  "ar_large_free (put_seg A s bs) = ar_large_free A" "ar_live (put_seg A s bs) = ar_live A"
  "ar_dead (put_seg A s bs) = ar_dead A" "ar_large_live (put_seg A s bs) = ar_large_live A"
  "ar_segment_bytes (put_seg A s bs) = ar_segment_bytes A"
  by (simp_all add: put_seg_def)

lemma seg_bytes_put_seg:
  "length (ar_head A) = 4 \<Longrightarrow> s < 4 + length (ar_tail A) \<Longrightarrow>
   seg_bytes (put_seg A s bs) s' = (if s' = s then bs else seg_bytes A s')"
  by (auto simp: seg_bytes_def put_seg_def nth_append nth_list_update Let_def)

lemma seg_bytes_cong:
  "ar_head A' = ar_head A \<Longrightarrow> ar_tail A' = ar_tail A \<Longrightarrow> seg_bytes A' = seg_bytes A"
  by (rule ext) (simp add: seg_bytes_def)

definition seg_ok :: "nat \<Rightarrow> bool" where
  "seg_ok n \<longleftrightarrow> 4 dvd n \<and> 2048 \<le> n \<and> n \<le> 2 ^ 23"

definition segs_ok :: "Arena \<Rightarrow> bool" where
  "segs_ok A \<longleftrightarrow> length (ar_head A) = 4 \<and> length (ar_tail A) = ar_made A - 4 \<and> ar_made A \<le> 1024 \<and>
     (\<forall>s<ar_made A. seg_ok (length (seg_bytes A s))) \<and> (\<forall>s\<ge>ar_made A. seg_bytes A s = []) \<and>
     ar_segment_bytes A = (\<Sum>s<ar_made A. length (seg_bytes A s)) \<and>
     (if ar_made A = 0 then ar_seg A = 0 \<and> ar_off A = 0
      else unat (ar_seg A) = ar_made A - 1 \<and> unat (ar_off A) * 4 \<le> length (seg_bytes A (ar_made A - 1)))"

text \<open>What the accounting of resident bytes needs of the segments, wherever the cursor is.\<close>

definition segs_sound :: "Arena \<Rightarrow> bool" where
  "segs_sound A \<longleftrightarrow> length (ar_head A) = 4 \<and>
     (0 < ar_made A \<longrightarrow> length (seg_bytes A (ar_made A - 1)) \<le> ar_segment_bytes A)"

lemma segs_ok_sound: "segs_ok A \<Longrightarrow> segs_sound A"
  using member_le_sum [of "ar_made A - 1" "{..<ar_made A}" "\<lambda>s. length (seg_bytes A s)"]
  by (auto simp: segs_ok_def segs_sound_def)

lemma segs_sound_off [simp]: "segs_sound (A\<lparr> ar_off := x \<rparr>) = segs_sound A"
  by (simp add: segs_sound_def seg_bytes_def)

lemma held_returns: "segs_sound A \<Longrightarrow> returns (held p A) (\<lambda>n. True)"
  by (auto simp: held_def segs_sound_def segment_eq usub_def Let_def)

section \<open>Blocks, free lists and the oversized table\<close>

type_synonym units_map = "Ref \<rightharpoonup> nat"
type_synonym lens_map = "Ref \<rightharpoonup> nat"
type_synonym free_lists = "nat \<Rightarrow> Ref list"

definition units :: "nat \<Rightarrow> nat" where
  "units len = (len + 3) div 4"

definition blocks_ok :: "Arena \<Rightarrow> units_map \<Rightarrow> bool" where
  "blocks_ok A U \<longleftrightarrow>
     (\<forall>r n. U r = Some n \<longrightarrow> 0 < n \<and> is_small r \<and> ref_seg r < ar_made A \<and>
        (ref_off r + n) * 4 \<le> length (seg_bytes A (ref_seg r)) \<and>
        (ref_seg r = ar_made A - 1 \<longrightarrow> ref_off r + n \<le> unat (ar_off A))) \<and>
     (\<forall>r n r' n'. U r = Some n \<longrightarrow> U r' = Some n' \<longrightarrow> r \<noteq> r' \<longrightarrow> ref_seg r = ref_seg r' \<longrightarrow>
        ref_off r + n \<le> ref_off r' \<or> ref_off r' + n' \<le> ref_off r)"

fun chain :: "Arena \<Rightarrow> u32 \<Rightarrow> Ref list \<Rightarrow> bool" where
  "chain A r [] \<longleftrightarrow> r = NONE"
| "chain A r (x # xs) \<longleftrightarrow> r = x \<and> (case next_free A x of Some n \<Rightarrow> chain A n xs | None \<Rightarrow> False)"

definition lists_ok :: "Arena \<Rightarrow> units_map \<Rightarrow> lens_map \<Rightarrow> free_lists \<Rightarrow> bool" where
  "lists_ok A U L F \<longleftrightarrow> length (ar_free A) \<le> 512 \<and>
     (\<forall>k. if k < length (ar_free A) then chain A (ar_free A ! k) (F k) else F k = []) \<and>
     (\<forall>k. distinct (F k)) \<and>
     (\<forall>k. \<forall>r\<in>set (F k). U r = Some (k + 1) \<and> L r = None) \<and>
     (\<forall>r len. L r = Some len \<longrightarrow> is_small r \<longrightarrow>
        0 < len \<and> len \<le> 2048 \<and> U r = Some (units len) \<and> units len \<le> length (ar_free A))"

definition large_ok :: "Arena \<Rightarrow> lens_map \<Rightarrow> bool" where
  "large_ok A L \<longleftrightarrow> length (ar_large A) \<le> 2 ^ 31 \<and> distinct (ar_large_free A) \<and>
     (\<forall>i\<in>set (ar_large_free A). unat i < length (ar_large A) \<and> ar_large A ! unat i = [] \<and> L (i OR LARGE) = None) \<and>
     (\<forall>r len. L r = Some len \<longrightarrow> \<not> is_small r \<longrightarrow>
        (len = 0 \<or> 2048 < len) \<and> large_at r < length (ar_large A) \<and> length (ar_large A ! large_at r) = len) \<and>
     (\<forall>i<length (ar_large A). of_nat i \<in> set (ar_large_free A) \<or> L (of_nat i OR LARGE) \<noteq> None \<or> i = 2 ^ 31 - 1)"

definition small_live :: "lens_map \<Rightarrow> nat" where
  "small_live L = (\<Sum>r\<in>dom L. if is_small r then 4 * units (the (L r)) else 0)"

definition counts_ok :: "Arena \<Rightarrow> lens_map \<Rightarrow> free_lists \<Rightarrow> bool" where
  "counts_ok A L F \<longleftrightarrow>
     ar_live A = small_live L + ar_large_live A \<and>
     ar_large_live A = sum_list (map length (ar_large A)) \<and>
     ar_dead A = (\<Sum>k<512. 4 * (k + 1) * length (F k))"

definition arena_rep :: "Arena \<Rightarrow> lens_map \<Rightarrow> units_map \<Rightarrow> free_lists \<Rightarrow> bool" where
  "arena_rep A L U F \<longleftrightarrow> segs_ok A \<and> blocks_ok A U \<and> lists_ok A U L F \<and> large_ok A L \<and> counts_ok A L F"

definition arena_inv :: "Arena \<Rightarrow> lens_map \<Rightarrow> bool" where
  "arena_inv A L \<longleftrightarrow> (\<exists>U F. arena_rep A L U F)"

lemma small_live_insert:
  "L r = None \<Longrightarrow> small_live (L(r \<mapsto> len)) = small_live L + (if is_small r then 4 * units len else 0)"
proof -
  assume r: "L r = None"
  then have "r \<notin> dom L" by auto
  moreover have "(\<Sum>x\<in>dom L. if is_small x then 4 * units (the ((L(r \<mapsto> len)) x)) else 0) = small_live L"
    unfolding small_live_def using r by (intro sum.cong) auto
  ultimately show ?thesis by (simp add: small_live_def [of "L(r \<mapsto> len)"])
qed

lemma small_live_delete:
  "L r = Some len \<Longrightarrow> small_live L = small_live (L(r := None)) + (if is_small r then 4 * units len else 0)"
proof -
  assume "L r = Some len"
  then have "L = (L(r := None))(r \<mapsto> len)" by (auto simp: fun_eq_iff)
  then show ?thesis using small_live_insert [of "L(r := None)" r len] by simp
qed

lemma arena_new_inv: "arena_inv arena_new Map.empty"
proof -
  have seg: "seg_bytes arena_new s = []" for s
    by (simp add: seg_bytes_def arena_new_def segment_empty_def)
  have "arena_rep arena_new Map.empty Map.empty (\<lambda>_. [])"
    using seg by (simp add: arena_rep_def segs_ok_def blocks_ok_def lists_ok_def large_ok_def counts_ok_def small_live_def)
      (simp add: arena_new_def)
  then show ?thesis by (auto simp: arena_inv_def)
qed

section \<open>Reading and writing a block\<close>

definition block :: "Arena \<Rightarrow> Ref \<Rightarrow> nat \<Rightarrow> bytes" where
  "block A r n = take n (drop (ref_off r * 4) (seg_bytes A (ref_seg r)))"

definition write_block :: "Arena \<Rightarrow> Ref \<Rightarrow> bytes \<Rightarrow> Arena" where
  "write_block A r bs =
     put_seg A (ref_seg r) (splice (seg_bytes A (ref_seg r)) (ref_off r * 4) bs)"

lemma blocks_okD:
  assumes "blocks_ok A U" "U r = Some n"
  shows "0 < n" "is_small r" "ref_seg r < ar_made A" "ref_off r * 4 + n * 4 \<le> length (seg_bytes A (ref_seg r))"
    "ref_seg r = ar_made A - 1 \<Longrightarrow> ref_off r + n \<le> unat (ar_off A)"
  using assms by (auto simp: blocks_ok_def distrib_right)

lemma blocks_ok_disjoint:
  assumes "blocks_ok A U" "U r = Some n" "U r' = Some n'" "r \<noteq> r'" "ref_seg r = ref_seg r'"
  shows "ref_off r * 4 + n * 4 \<le> ref_off r' * 4 \<or> ref_off r' * 4 + n' * 4 \<le> ref_off r * 4"
proof -
  have "ref_off r + n \<le> ref_off r' \<or> ref_off r' + n' \<le> ref_off r"
    using assms unfolding blocks_ok_def by blast
  then show ?thesis by linarith
qed

lemma length_block: "blocks_ok A U \<Longrightarrow> U r = Some n \<Longrightarrow> m \<le> n * 4 \<Longrightarrow> length (block A r m) = m"
  using blocks_okD(4) [of A U r n] by (simp add: block_def)

lemma write_block_simps [simp]:
  "length (ar_head (write_block A r bs)) = length (ar_head A)" "length (ar_tail (write_block A r bs)) = length (ar_tail A)"
  "ar_made (write_block A r bs) = ar_made A" "ar_seg (write_block A r bs) = ar_seg A" "ar_off (write_block A r bs) = ar_off A"
  "ar_free (write_block A r bs) = ar_free A" "ar_large (write_block A r bs) = ar_large A"
  "ar_large_free (write_block A r bs) = ar_large_free A" "ar_live (write_block A r bs) = ar_live A"
  "ar_dead (write_block A r bs) = ar_dead A" "ar_large_live (write_block A r bs) = ar_large_live A"
  "ar_segment_bytes (write_block A r bs) = ar_segment_bytes A"
  by (simp_all add: write_block_def)

lemma segs_okD:
  assumes "segs_ok A"
  shows "length (ar_head A) = 4" "s < ar_made A \<Longrightarrow> s < 4 + length (ar_tail A)" "ar_made A \<le> 1024"
  using assms by (auto simp: segs_ok_def)

lemma seg_bytes_write_block:
  assumes "segs_ok A" "blocks_ok A U" "U r = Some n" "length bs \<le> n * 4"
  shows "seg_bytes (write_block A r bs) s =
    (if s = ref_seg r then splice (seg_bytes A s) (ref_off r * 4) bs else seg_bytes A s)"
    and "length (seg_bytes (write_block A r bs) s) = length (seg_bytes A s)"
proof -
  show eq: "seg_bytes (write_block A r bs) s =
    (if s = ref_seg r then splice (seg_bytes A s) (ref_off r * 4) bs else seg_bytes A s)" for s
    using segs_okD [OF assms(1)] blocks_okD [OF assms(2,3)]
    by (simp add: write_block_def seg_bytes_put_seg)
  show "length (seg_bytes (write_block A r bs) s) = length (seg_bytes A s)"
    using blocks_okD(4) [OF assms(2,3)] assms(4) by (simp add: eq)
qed

lemma write_block_segs:
  assumes "segs_ok A" "blocks_ok A U" "U r = Some n" "length bs \<le> n * 4"
  shows "segs_ok (write_block A r bs)" "blocks_ok (write_block A r bs) U"
proof -
  note len = seg_bytes_write_block(2) [OF assms]
  then have "seg_bytes (write_block A r bs) s = [] \<longleftrightarrow> seg_bytes A s = []" for s
    by (metis length_0_conv)
  then show "segs_ok (write_block A r bs)" using assms(1) len by (simp add: segs_ok_def split: if_splits)
  show "blocks_ok (write_block A r bs) U" using assms(2) len by (simp add: blocks_ok_def)
qed

lemma block_write_same:
  assumes "segs_ok A" "blocks_ok A U" "U r = Some n" "length bs \<le> n * 4"
  shows "block (write_block A r bs) r (length bs) = bs"
  using seg_bytes_write_block(1) [OF assms] blocks_okD(4) [OF assms(2,3)] assms(4)
  by (simp add: block_def)

lemma block_write_other:
  assumes "segs_ok A" "blocks_ok A U" "U r = Some n" "length bs \<le> n * 4"
    and "U r' = Some n'" "r' \<noteq> r" "m \<le> n' * 4"
  shows "block (write_block A r bs) r' m = block A r' m"
proof (cases "ref_seg r' = ref_seg r")
  case True
  then show ?thesis
    using blocks_ok_disjoint [OF assms(2,3,5)] assms(4,6,7) blocks_okD(4) [OF assms(2,3)]
      blocks_okD(4) [OF assms(2,5)] seg_bytes_write_block(1) [OF assms(1-4)]
    unfolding block_def by (auto intro!: take_drop_splice_other)
qed (simp add: block_def seg_bytes_write_block(1) [OF assms(1-4)])

lemma segment_cong:
  assumes "ar_head A' = ar_head A" "ar_tail A' = ar_tail A"
  shows "segment A' = segment A" "next_free A' = next_free A"
proof -
  show eq: "segment A' = segment A" unfolding segment_def assms by (rule refl)
  show "next_free A' = next_free A" unfolding next_free_def eq by (rule refl)
qed

lemma segs_cong:
  assumes "ar_head A' = ar_head A" "ar_tail A' = ar_tail A" "ar_made A' = ar_made A"
    "ar_seg A' = ar_seg A" "ar_off A' = ar_off A" "ar_segment_bytes A' = ar_segment_bytes A"
  shows "segs_ok A' = segs_ok A" "blocks_ok A' U = blocks_ok A U" "block A' = block A"
proof -
  have "seg_bytes A' = seg_bytes A" by (rule seg_bytes_cong) (use assms in simp_all)
  then show "segs_ok A' = segs_ok A" "blocks_ok A' U = blocks_ok A U" "block A' = block A"
    using assms by (simp_all add: segs_ok_def blocks_ok_def block_def fun_eq_iff)
qed

lemma next_free_eq:
  assumes "segs_ok A" "blocks_ok A U" "U r = Some n"
  shows "next_free A r = Some (u32_from_le_bytes (block A r 4))"
  using segs_okD(1) [OF assms(1)] blocks_okD [OF assms(2,3)]
  by (simp add: next_free_def place_eq segment_eq slice_def block_def)

lemma set_next_free_eq:
  assumes "segs_ok A" "blocks_ok A U" "U r = Some n"
  shows "set_next_free A r v = Some (write_block A r (u32_to_le_bytes v))"
  using segs_okD [OF assms(1)] blocks_okD [OF assms(2,3)]
  by (simp add: set_next_free_def place_eq segment_eq copy_into_def segment_mut_eq write_block_def)

lemma chain_cong: "(\<And>x. x \<in> set xs \<Longrightarrow> next_free A' x = next_free A x) \<Longrightarrow> chain A' r xs = chain A r xs"
  by (induction xs arbitrary: r) (simp_all split: option.splits)

section \<open>Putting a block on a free list\<close>

lemma push_free_rep:
  assumes rep: "arena_rep A L U F" and r: "U r = Some (Suc k)" "L r = None" "\<And>j. r \<notin> set (F j)"
    and k: "k < length (ar_free A)"
  obtains A' where "push_free A r (Suc k * 4) = Some A'" "arena_rep A' L U (F(k := r # F k))"
    "\<forall>r' n' m. U r' = Some n' \<longrightarrow> r' \<noteq> r \<longrightarrow> m \<le> n' * 4 \<longrightarrow> block A' r' m = block A r' m"
    "ar_large A' = ar_large A" "length (ar_free A') = length (ar_free A)"
proof -
  have segs: "segs_ok A" and blocks: "blocks_ok A U" and lists: "lists_ok A U L F"
    and large: "large_ok A L" and counts: "counts_ok A L F"
    using rep by (simp_all add: arena_rep_def)
  define bs where "bs = u32_to_le_bytes (ar_free A ! k)"
  have bs: "length bs \<le> Suc k * 4" "length bs = 4" by (simp_all add: bs_def)
  define W where "W = write_block A r bs"
  define A' where "A' = W\<lparr> ar_dead := ar_dead A + Suc k * 4, ar_free := (ar_free A)[k := r] \<rparr>"
  have cong: "segs_ok A' = segs_ok W" "blocks_ok A' U = blocks_ok W U" and blk: "block A' = block W"
    by (rule segs_cong; simp add: A'_def W_def)+
  then have segs': "segs_ok A'" and blocks': "blocks_ok A' U"
    using write_block_segs [OF segs blocks r(1) bs(1)] by (simp_all add: W_def)
  have other: "block A' r' m = block A r' m" if "U r' = Some n'" "r' \<noteq> r" "m \<le> n' * 4" for r' n' m
    unfolding blk W_def by (rule block_write_other [OF segs blocks r(1) bs(1) that])
  have next_other: "next_free A' x = next_free A x" if "x \<in> set (F j)" for x j
  proof -
    have x: "U x = Some (j + 1)" "x \<noteq> r" using that lists r(3) by (auto simp: lists_ok_def)
    show ?thesis
      unfolding next_free_eq [OF segs blocks x(1)] next_free_eq [OF segs' blocks' x(1)]
      using other [OF x, of 4] by simp
  qed
  have "next_free A' r = Some (ar_free A ! k)"
    using next_free_eq [OF segs' blocks' r(1)] block_write_same [OF segs blocks r(1) bs(1)] bs(2)
    by (simp add: blk W_def bs_def)
  moreover have "chain A' (ar_free A ! j) (F j) \<longleftrightarrow> chain A (ar_free A ! j) (F j)" for j
    by (rule chain_cong) (rule next_other)
  ultimately have chains: "\<forall>j. if j < length (ar_free A') then chain A' (ar_free A' ! j) ((F(k := r # F k)) j) else (F(k := r # F k)) j = []"
    using lists k by (auto simp: lists_ok_def A'_def W_def nth_list_update)
  have lists': "lists_ok A' U L (F(k := r # F k))"
  proof -
    have "\<forall>j. distinct ((F(k := r # F k)) j)" "\<forall>j. \<forall>x\<in>set ((F(k := r # F k)) j). U x = Some (j + 1) \<and> L x = None"
      using lists r by (auto simp: lists_ok_def)
    moreover have "length (ar_free A') = length (ar_free A)" by (simp add: A'_def W_def)
    moreover note chains
    ultimately show ?thesis using lists unfolding lists_ok_def by (simp del: fun_upd_apply)
  qed
  have "(\<Sum>j<512. 4 * (j + 1) * length ((F(k := r # F k)) j)) = (\<Sum>j<512. 4 * (j + 1) * length (F j) + (if j = k then 4 * (k + 1) else 0))"
    by (rule sum.cong) auto
  also have "\<dots> = (\<Sum>j<512. 4 * (j + 1) * length (F j)) + 4 * (k + 1)"
    using k lists by (simp add: sum.distrib lists_ok_def)
  finally have "counts_ok A' L (F(k := r # F k))" using counts by (simp add: counts_ok_def A'_def W_def)
  moreover have "large_ok A' L" using large by (simp add: large_ok_def A'_def W_def)
  ultimately have rep': "arena_rep A' L U (F(k := r # F k))"
    using segs' blocks' lists' by (simp add: arena_rep_def)
  have "segs_ok (A\<lparr> ar_dead := x \<rparr>)" "blocks_ok (A\<lparr> ar_dead := x \<rparr>) U" for x
    using segs blocks segs_cong [of "A\<lparr> ar_dead := x \<rparr>" A] by simp_all
  then have "set_next_free (A\<lparr> ar_dead := x \<rparr>) r (ar_free A ! k) = Some (write_block (A\<lparr> ar_dead := x \<rparr>) r bs)" for x
    unfolding bs_def using r(1) by (rule set_next_free_eq)
  moreover have "write_block (A\<lparr> ar_dead := x \<rparr>) r bs = W\<lparr> ar_dead := x \<rparr>" for x
    by (simp add: W_def write_block_def put_seg_def seg_bytes_def)
  ultimately have "push_free A r (Suc k * 4) = Some A'"
    using k by (simp add: push_free_def panic_defs A'_def W_def)
  with rep' other show thesis using that by (simp add: A'_def W_def bs_def)
qed

section \<open>Cutting from the newest segment\<close>

lemma cut_rep:
  assumes rep: "segs_ok A" "blocks_ok A U" and made: "0 < ar_made A"
    and n: "0 < n" "unat (ar_off A) + n \<le> length (seg_bytes A (ar_made A - 1)) div 4"
  defines "at \<equiv> ref_make (ar_seg A) (ar_off A)" and "A' \<equiv> A\<lparr> ar_off := ar_off A + of_nat n \<rparr>"
  shows "segs_ok A'" "blocks_ok A' (U(at \<mapsto> n))" "U at = None" "is_small at"
proof -
  let ?len = "length (seg_bytes A (ar_made A - 1))"
  have ok: "seg_ok ?len" "ar_made A \<le> 1024" and seg: "unat (ar_seg A) = ar_made A - 1"
    using rep(1) made by (auto simp: segs_ok_def)
  then have "?len div 4 \<le> 2 ^ 23 div 4" by (intro div_le_mono) (simp add: seg_ok_def)
  then have "?len div 4 \<le> 2 ^ 21" by simp
  then have off: "unat (ar_off A) < 2 ^ 21" "unat (ar_off A) + n \<le> 2 ^ 21" using n by auto
  then have off': "unat (ar_off A + of_nat n) = unat (ar_off A) + n"
    by (simp add: unat_word_ariths unat_of_nat take_bit_nat_eq_self)
  have at: "is_small at" "ref_seg at = ar_made A - 1" "ref_off at = unat (ar_off A)"
    unfolding at_def using ref_make_parts [of "ar_seg A" "ar_off A"] seg ok(2) made off(1) by simp_all
  show "is_small at" by (rule at)
  have len: "(unat (ar_off A) + n) * 4 \<le> ?len" using n(2) by (metis div_times_less_eq_dividend le_trans mult_le_mono1)
  have same: "seg_bytes A' = seg_bytes A" by (rule seg_bytes_cong) (simp_all add: A'_def)
  show "segs_ok A'" using rep(1) made len off' same by (simp add: segs_ok_def) (simp add: A'_def)
  have below: "ref_off r + m \<le> ref_off at" if "U r = Some m" "ref_seg r = ref_seg at" for r m
    using blocks_okD(5) [OF rep(2) that(1)] that(2) at by simp
  show "U at = None"
  proof (rule ccontr)
    assume "U at \<noteq> None"
    then obtain m where "U at = Some m" by blast
    then show False using below [of at m] blocks_okD(1) [OF rep(2)] by fastforce
  qed
  show "blocks_ok A' (U(at \<mapsto> n))"
    unfolding blocks_ok_def same
  proof (intro conjI allI impI)
    fix r m assume r: "(U(at \<mapsto> n)) r = Some m"
    show "0 < m" "is_small r" "ref_seg r < ar_made A'" "(ref_off r + m) * 4 \<le> length (seg_bytes A (ref_seg r))"
      "ref_seg r = ar_made A' - 1 \<Longrightarrow> ref_off r + m \<le> unat (ar_off A')"
      using r at n len made off' blocks_okD [OF rep(2), of r m]
      by (auto simp: A'_def distrib_right split: if_splits)
  next
    fix r m r' m' assume r: "(U(at \<mapsto> n)) r = Some m" "(U(at \<mapsto> n)) r' = Some m'" "r \<noteq> r'" "ref_seg r = ref_seg r'"
    then show "ref_off r + m \<le> ref_off r' \<or> ref_off r' + m' \<le> ref_off r"
      using below rep(2) by (auto simp: blocks_ok_def split: if_splits)
  qed
qed

section \<open>Adding a segment\<close>

lemma next_multiple_of_dvd: "m dvd n \<Longrightarrow> next_multiple_of n m = n"
  by (simp add: next_multiple_of_def dvd_imp_mod_0)

lemma next_multiple_of_spec:
  assumes "0 < m"
  shows "m dvd next_multiple_of n m" "n \<le> next_multiple_of n m" "next_multiple_of n m < n + m"
proof -
  have "n + (m - n mod m) = (n div m + 1) * m"
    using mod_less_divisor [OF assms, of n] div_mult_mod_eq [of n m] unfolding add_mult_distrib by linarith
  then show "m dvd next_multiple_of n m" by (auto simp: next_multiple_of_def)
  have "n \<le> n + (m - n mod m)" "n mod m \<noteq> 0 \<Longrightarrow> n + (m - n mod m) < n + m"
    using mod_less_divisor [OF assms, of n] by linarith+
  then show "n \<le> next_multiple_of n m" "next_multiple_of n m < n + m"
    using assms by (simp_all only: next_multiple_of_def split: if_split) simp_all
qed

lemma multiple_below:
  assumes "m dvd a" "m dvd b" "a < b + m" "0 < (m :: nat)"
  shows "a \<le> b"
proof -
  obtain x y where "a = m * x" "b = m * y" using assms by (auto elim!: dvdE)
  then have "m * x < m * (y + 1)" using assms(3) by simp
  then have "x < y + 1" by (metis nat_mult_less_cancel1 assms(4))
  then show ?thesis using \<open>a = m * x\<close> \<open>b = m * y\<close> by simp
qed

lemma next_segment_size_bounds:
  "MIN_SEGMENT p dvd next_segment_size p n \<and> MIN_SEGMENT p \<le> next_segment_size p n \<and>
   next_segment_size p n \<le> MAX_SEGMENT p"
proof -
  have pos: "0 < MIN_SEGMENT p" and max: "MIN_SEGMENT p dvd MAX_SEGMENT p" "MIN_SEGMENT p \<le> MAX_SEGMENT p"
    by (auto simp: MIN_SEGMENT_def MAX_SEGMENT_def)
  let ?share = "n div GROWTH p" and ?w = "next_multiple_of (n div GROWTH p) (MIN_SEGMENT p)"
  have "?w \<le> MAX_SEGMENT p" if "?share < MAX_SEGMENT p"
    using multiple_below [OF next_multiple_of_spec(1) [OF pos] max(1) _ pos, of ?share]
      next_multiple_of_spec(3) [OF pos, of ?share] that by linarith
  then show ?thesis
    using max next_multiple_of_spec [OF pos, of ?share]
    by (auto simp: next_segment_size_def Let_def not_less)
qed

lemma segment_new_len:
  assumes "platform_ok p" "segment_new p os (next_segment_size p n) = Some sg"
  shows "seg_ok (length sg)" "length sg = next_segment_size p n"
proof -
  note b = next_segment_size_bounds [of p n]
  have "lazy p \<Longrightarrow> granule p dvd next_segment_size p n"
    using assms(1) b by (auto simp: platform_ok_def MIN_SEGMENT_def elim: dvd_trans)
  then show len: "length sg = next_segment_size p n"
    using assms by (auto simp: segment_new_def next_multiple_of_dvd split: if_splits)
  have "4 dvd MIN_SEGMENT p" "2048 \<le> MIN_SEGMENT p" "MAX_SEGMENT p \<le> 2 ^ 23"
    by (auto simp: MIN_SEGMENT_def MAX_SEGMENT_def)
  then show "seg_ok (length sg)" using b unfolding len seg_ok_def by (meson dvd_trans le_trans)
qed

lemma grow_rep:
  assumes p: "platform_ok p" and segs: "segs_ok A" and blocks: "blocks_ok A U"
  shows "returns (grow p os (A\<lparr> ar_off := x \<rparr>)) (\<lambda>(r, A').
    (case r of
       Inl e \<Rightarrow> A' = A\<lparr> ar_off := x \<rparr>
     | Inr _ \<Rightarrow> segs_ok A' \<and> blocks_ok A' U \<and> (\<forall>s<ar_made A. seg_bytes A' s = seg_bytes A s) \<and>
         ar_made A' = ar_made A + 1 \<and> ar_off A' = 0 \<and> ar_free A' = ar_free A \<and>
         ar_large A' = ar_large A \<and> ar_large_free A' = ar_large_free A \<and> ar_live A' = ar_live A \<and>
         ar_dead A' = ar_dead A \<and> ar_large_live A' = ar_large_live A))"
proof (cases "1024 \<le> ar_made A \<or> segment_new p os (next_segment_size p (ar_segment_bytes A)) = None")
  case True
  then show ?thesis by (auto simp: grow_def MAX_SEGMENTS_def SEG_BITS_def)
next
  case False
  then obtain sg where sg: "segment_new p os (next_segment_size p (ar_segment_bytes A)) = Some sg" by auto
  note len = segment_new_len(1) [OF p sg]
  have head: "length (ar_head A) = 4" "length (ar_tail A) = ar_made A - 4" using segs by (auto simp: segs_ok_def)
  define A' where "A' = A\<lparr> ar_segment_bytes := ar_segment_bytes A + length sg,
    ar_head := (if ar_made A < 4 then (ar_head A)[ar_made A := sg] else ar_head A),
    ar_tail := (if ar_made A < 4 then ar_tail A else ar_tail A @ [sg]),
    ar_seg := narrow (ar_made A), ar_made := ar_made A + 1, ar_off := 0 \<rparr>"
  have grow: "grow p os (A\<lparr> ar_off := x \<rparr>) = Some (Inr (), A')"
    using False sg head by (simp add: grow_def MAX_SEGMENTS_def SEG_BITS_def set_idx_def A'_def)
  have seg: "seg_bytes A' s = (if s = ar_made A then sg else seg_bytes A s)" for s
    using head by (auto simp: seg_bytes_def A'_def nth_append nth_list_update Let_def)
  have "unat (narrow (ar_made A)) = ar_made A"
    using False by (simp add: narrow_def unat_of_nat take_bit_nat_eq_self)
  then have "segs_ok A'" using segs len seg False head
    by (auto simp: segs_ok_def less_Suc_eq) (auto simp: A'_def)
  moreover have "blocks_ok A' U"
    unfolding blocks_ok_def
  proof (intro conjI allI impI)
    fix r n assume "U r = Some n"
    then show "0 < n" "is_small r" "ref_seg r < ar_made A'" "(ref_off r + n) * 4 \<le> length (seg_bytes A' (ref_seg r))"
      "ref_seg r = ar_made A' - 1 \<Longrightarrow> ref_off r + n \<le> unat (ar_off A')"
      using blocks_okD [OF blocks, of r n] by (auto simp: seg distrib_right) (auto simp: A'_def)
  qed (use blocks in \<open>auto simp: blocks_ok_def\<close>)
  ultimately show ?thesis by (simp add: grow seg) (simp add: A'_def)
qed

section \<open>Reading live blocks\<close>

lemma arena_repD:
  assumes "arena_rep A L U F"
  shows "segs_ok A" "blocks_ok A U" "lists_ok A U L F" "large_ok A L" "counts_ok A L F"
  using assms by (simp_all add: arena_rep_def)

lemma lists_okD:
  assumes "lists_ok A U L F"
  shows "length (ar_free A) \<le> 512" "k < length (ar_free A) \<Longrightarrow> chain A (ar_free A ! k) (F k)"
    "length (ar_free A) \<le> k \<Longrightarrow> F k = []" "distinct (F k)"
    "r \<in> set (F k) \<Longrightarrow> U r = Some (Suc k)" "r \<in> set (F k) \<Longrightarrow> L r = None"
    "L r = Some len \<Longrightarrow> is_small r \<Longrightarrow> 0 < len \<and> len \<le> 2048 \<and> U r = Some (units len) \<and> units len \<le> length (ar_free A)"
  using assms by (auto simp: lists_ok_def split: if_splits)

lemma lists_okI:
  assumes "length (ar_free A) \<le> 512" "\<And>k. k < length (ar_free A) \<Longrightarrow> chain A (ar_free A ! k) (F k)"
    "\<And>k. length (ar_free A) \<le> k \<Longrightarrow> F k = []" "\<And>k. distinct (F k)"
    "\<And>k r. r \<in> set (F k) \<Longrightarrow> U r = Some (Suc k) \<and> L r = None"
    "\<And>r len. L r = Some len \<Longrightarrow> is_small r \<Longrightarrow> 0 < len \<and> len \<le> 2048 \<and> U r = Some (units len) \<and> units len \<le> length (ar_free A)"
  shows "lists_ok A U L F"
  unfolding lists_ok_def using assms by (auto simp: not_less)

lemma not_small_large: "\<not> is_small (i OR LARGE)"
proof -
  have "(i OR LARGE) AND LARGE = LARGE" by (rule bit_word_eqI) (auto simp: bit_simps)
  moreover have "LARGE \<noteq> 0" by (simp add: LARGE_def)
  ultimately show ?thesis by (simp flip: LARGE_bit)
qed

lemma large_ok_small:
  assumes "large_ok A L" "is_small r" "ar_large A' = ar_large A" "ar_large_free A' = ar_large_free A"
  shows "large_ok A' (L(r := v))"
proof -
  define L' where "L' = L(r := v)"
  have eq: "L' x = L x" if "\<not> is_small x" for x using assms(2) that by (auto simp: L'_def)
  show ?thesis
    unfolding large_ok_def assms(3,4) L'_def [symmetric] eq [OF not_small_large]
    using assms(1) by (auto simp: large_ok_def eq) blast
qed

lemma live_small:
  assumes "arena_rep A L U F" "L r = Some len" "is_small r"
  shows "0 < len" "len \<le> 2048" "U r = Some (units len)" "len \<le> units len * 4" "units len \<le> length (ar_free A)"
  using arena_repD(3) [OF assms(1)] assms(2,3) by (auto simp: lists_ok_def units_def)

lemma get_small:
  assumes "arena_rep A L U F" "L r = Some len" "is_small r"
  shows "arena_get A r len = Some (block A r len)"
  using live_small [OF assms] assms(3) arena_repD [OF assms(1)] segs_okD(1) [of A]
    blocks_okD(4) [of A U r "units len"]
  by (simp add: arena_get_def LARGE_bit place_eq segment_eq slice_def block_def)

lemma get_large:
  assumes "arena_rep A L U F" "L r = Some len" "\<not> is_small r"
  shows "arena_get A r n = Some (ar_large A ! large_at r)" "length (ar_large A ! large_at r) = len"
    "large_at r < length (ar_large A)" "len = 0 \<or> 2048 < len"
  using arena_repD(4) [OF assms(1)] assms(2,3)
  by (auto simp: arena_get_def LARGE_bit LARGE_index idx_def large_ok_def)

text \<open>Two arenas that hold the same bytes in every live block.\<close>

definition same_reads :: "Arena \<Rightarrow> Arena \<Rightarrow> lens_map \<Rightarrow> bool" where
  "same_reads A A' L \<longleftrightarrow> (\<forall>r len. L r = Some len \<longrightarrow> arena_get A' r len = arena_get A r len)"

lemma arena_get_cong:
  "ar_head A' = ar_head A \<Longrightarrow> ar_tail A' = ar_tail A \<Longrightarrow> ar_large A' = ar_large A \<Longrightarrow> arena_get A' = arena_get A"
proof -
  assume eq: "ar_head A' = ar_head A" "ar_tail A' = ar_tail A" "ar_large A' = ar_large A"
  show ?thesis unfolding arena_get_def eq(3) segment_cong(1) [OF eq(1,2)] by (rule refl)
qed

lemma get_small_segs:
  assumes "segs_ok A" "blocks_ok A U" "U r = Some n" "len \<le> n * 4"
  shows "arena_get A r len = Some (block A r len)"
  using segs_okD(1) [OF assms(1)] blocks_okD [OF assms(2,3)] assms(4)
  by (simp add: arena_get_def LARGE_bit place_eq segment_eq slice_def block_def)

section \<open>Allocating\<close>

lemma class_of_Some: "class_of len = Some k \<longleftrightarrow> 0 < len \<and> len \<le> 2048 \<and> Suc k = units len"
  by (auto simp: class_of_def units_def)

lemma class_of_None: "class_of len = None \<longleftrightarrow> len = 0 \<or> 2048 < len"
  by (auto simp: class_of_def)

lemma units_le: "len \<le> 2048 \<Longrightarrow> units len \<le> 512"
proof -
  assume "len \<le> 2048"
  then have "(len + 3) div 4 \<le> 2051 div 4" by (intro div_le_mono) simp
  then show ?thesis by (simp add: units_def)
qed

lemma resize_rep:
  assumes "arena_rep A L U F" "k < 512" "length (ar_free A) \<le> k"
  shows "arena_rep (A\<lparr> ar_free := ar_free A @ replicate (k + 1 - length (ar_free A)) NONE \<rparr>) L U F"
proof -
  define A' where "A' = A\<lparr> ar_free := ar_free A @ replicate (k + 1 - length (ar_free A)) NONE \<rparr>"
  note rep = arena_repD [OF assms(1)]
  have cong: "segs_ok A' = segs_ok A" "blocks_ok A' U = blocks_ok A U" "next_free A' = next_free A"
    unfolding A'_def by (rule segs_cong segment_cong; simp)+
  have "chain A' r xs = chain A r xs" for r xs by (rule chain_cong) (simp add: cong)
  moreover have free: "ar_free A' = ar_free A @ replicate (Suc k - length (ar_free A)) NONE" by (simp add: A'_def)
  ultimately have "lists_ok A' U L F"
    using lists_okD(1-6) [OF rep(3)] assms(2,3)
    by (intro lists_okI) (auto simp: free nth_append not_less dest: lists_okD(7) [OF rep(3)] intro: le_trans le_SucI)
  moreover have "large_ok A' L" "counts_ok A' L F" using rep(4,5) by (simp_all add: A'_def large_ok_def counts_ok_def)
  ultimately show ?thesis using rep unfolding A'_def [symmetric] by (simp add: arena_rep_def cong)
qed

lemma pop_rep:
  assumes rep: "arena_rep A L U F" and k: "k < length (ar_free A)" "F k = r # rs"
    and len: "0 < len" "len \<le> 2048" "units len = Suc k" and link: "next_free A r = Some link"
  defines "A' \<equiv> A\<lparr> ar_free := (ar_free A)[k := link], ar_dead := ar_dead A - Suc k * 4, ar_live := ar_live A + Suc k * 4 \<rparr>"
  shows "arena_rep A' (L(r \<mapsto> len)) U (F(k := rs))" "L r = None" "Suc k * 4 \<le> ar_dead A"
proof -
  note R = arena_repD [OF rep]
  have mem: "r \<in> set (F k)" using k(2) by simp
  have rs: "U r = Some (Suc k)" "distinct (r # rs)" "chain A (ar_free A ! k) (r # rs)"
    using lists_okD [OF R(3)] k mem by metis+
  show none: "L r = None" using lists_okD(6) [OF R(3) mem] .
  have small: "is_small r" using blocks_okD(2) [OF R(2) rs(1)] .
  have cong: "segs_ok A' = segs_ok A" "blocks_ok A' U = blocks_ok A U" "next_free A' = next_free A"
    unfolding A'_def by (rule segs_cong segment_cong; simp)+
  have chain: "chain A' x xs = chain A x xs" for x xs by (rule chain_cong) (simp add: cong)
  have free: "ar_free A' = (ar_free A)[k := link]" by (simp add: A'_def)
  have F: "r \<notin> set ((F(k := rs)) j)" for j
    using lists_okD(5) [OF R(3), of r j] rs(1,2) by (cases "j = k") auto
  have sub: "set ((F(k := rs)) j) \<subseteq> set (F j)" for j using k(2) by auto
  have "lists_ok A' U (L(r \<mapsto> len)) (F(k := rs))"
  proof (rule lists_okI)
    show "length (ar_free A') \<le> 512" using lists_okD(1) [OF R(3)] by (simp add: A'_def)
    show "chain A' (ar_free A' ! j) ((F(k := rs)) j)" if "j < length (ar_free A')" for j
      using lists_okD(2) [OF R(3), of j] that rs(3) link k(1) by (auto simp: chain free nth_list_update)
    show "(F(k := rs)) j = []" if "length (ar_free A') \<le> j" for j
      using lists_okD(3) [OF R(3), of j] that k(1) by (simp add: A'_def)
    show "distinct ((F(k := rs)) j)" for j using lists_okD(4) [OF R(3), of j] rs(2) by simp
    show "U x = Some (Suc j) \<and> (L(r \<mapsto> len)) x = None" if "x \<in> set ((F(k := rs)) j)" for x j
      using lists_okD(5,6) [OF R(3), of x j] that F [of j] sub [of j] by (metis fun_upd_other subsetD)
    show "0 < m \<and> m \<le> 2048 \<and> U x = Some (units m) \<and> units m \<le> length (ar_free A')"
      if "(L(r \<mapsto> len)) x = Some m" "is_small x" for x m
      using lists_okD(7) [OF R(3), of x m] that rs(1) len k(1) by (auto simp: A'_def split: if_splits)
  qed
  moreover have "large_ok A' (L(r \<mapsto> len))" by (rule large_ok_small [OF R(4) small]) (simp_all add: A'_def)
  moreover have dead: "(\<Sum>j<512. 4 * (j + 1) * length (F j)) = (\<Sum>j<512. 4 * (j + 1) * length ((F(k := rs)) j)) + Suc k * 4"
  proof -
    have "(\<Sum>j<512. 4 * (j + 1) * length (F j)) =
        (\<Sum>j<512. 4 * (j + 1) * length ((F(k := rs)) j) + (if j = k then 4 * (k + 1) else 0))"
      using k(2) by (intro sum.cong) auto
    then show ?thesis using k R(3) by (simp add: sum.distrib lists_ok_def)
  qed
  moreover from dead show "Suc k * 4 \<le> ar_dead A" using R(5) by (simp add: counts_ok_def)
  ultimately show "arena_rep A' (L(r \<mapsto> len)) U (F(k := rs))"
    using R small none len(3) by (simp add: arena_rep_def cong counts_ok_def small_live_insert) (simp add: A'_def)
qed

lemma bump_rep:
  assumes rep: "arena_rep A L U F" and made: "0 < ar_made A"
    and n: "unat (ar_off A) + units len \<le> length (seg_bytes A (ar_made A - 1)) div 4"
    and len: "0 < len" "len \<le> 2048" "units len \<le> length (ar_free A)"
  defines "at \<equiv> ref_make (ar_seg A) (ar_off A)"
    and "A' \<equiv> A\<lparr> ar_off := ar_off A + of_nat (units len), ar_live := ar_live A + units len * 4 \<rparr>"
  shows "arena_rep A' (L(at \<mapsto> len)) (U(at \<mapsto> units len)) F" "L at = None"
proof -
  note R = arena_repD [OF rep]
  have pos: "0 < units len" using len by (simp add: units_def)
  note cut = cut_rep [OF R(1,2) made pos n, folded at_def]
  show none: "L at = None" using R(3) cut(3,4) by (cases "L at") (auto simp: lists_ok_def)
  let ?B = "A\<lparr> ar_off := ar_off A + of_nat (units len) \<rparr>"
  have cong: "segs_ok A' = segs_ok ?B" "blocks_ok A' V = blocks_ok ?B V" for V
    unfolding A'_def by (rule segs_cong; simp)+
  have "next_free A' = next_free A" unfolding A'_def by (rule segment_cong) simp_all
  then have chain: "chain A' x xs = chain A x xs" for x xs by (intro chain_cong) simp
  have fresh: "x \<noteq> at" if "U x = Some m" for x m using that cut(3) by auto
  have "lists_ok A' (U(at \<mapsto> units len)) (L(at \<mapsto> len)) F"
  proof (rule lists_okI)
    show "(U(at \<mapsto> units len)) x = Some (Suc j) \<and> (L(at \<mapsto> len)) x = None" if "x \<in> set (F j)" for x j
      using lists_okD(5,6) [OF R(3) that] fresh [of x] by simp
    show "0 < m \<and> m \<le> 2048 \<and> (U(at \<mapsto> units len)) x = Some (units m) \<and> units m \<le> length (ar_free A')"
      if "(L(at \<mapsto> len)) x = Some m" "is_small x" for x m
      using lists_okD(7) [OF R(3), of x m] that len by (auto simp: A'_def split: if_splits)
  qed (use lists_okD(1-4) [OF R(3)] in \<open>simp_all add: chain, simp_all add: A'_def\<close>)
  moreover have "large_ok A' (L(at \<mapsto> len))" by (rule large_ok_small [OF R(4) cut(4)]) (simp_all add: A'_def)
  ultimately show "arena_rep A' (L(at \<mapsto> len)) (U(at \<mapsto> units len)) F"
    using R cut none by (simp add: arena_rep_def cong counts_ok_def small_live_insert) (simp add: A'_def)
qed

lemma push_free_off:
  "push_free (A\<lparr> ar_off := x \<rparr>) r n = map_option (\<lambda>A. A\<lparr> ar_off := x \<rparr>) (push_free A r n)"
proof -
  have seg: "segment (B\<lparr> ar_off := x \<rparr>) = segment B" for B by (rule segment_cong) simp_all
  have mut: "segment_mut (B\<lparr> ar_off := x \<rparr>) s bs = map_option (\<lambda>A. A\<lparr> ar_off := x \<rparr>) (segment_mut B s bs)" for B s bs
    by (auto simp: segment_mut_def panic_defs)
  have link: "set_next_free (B\<lparr> ar_off := x \<rparr>) r v = map_option (\<lambda>A. A\<lparr> ar_off := x \<rparr>) (set_next_free B r v)" for B v
    unfolding set_next_free_def seg mut by (cases "place r") (auto simp: copy_into_def segment_def panic_defs)
  have "set_next_free (A\<lparr> ar_off := x, ar_dead := d \<rparr>) r v =
      map_option (\<lambda>A. A\<lparr> ar_off := x \<rparr>) (set_next_free (A\<lparr> ar_dead := d \<rparr>) r v)" for d v
  proof -
    have "A\<lparr> ar_off := x, ar_dead := d \<rparr> = A\<lparr> ar_dead := d, ar_off := x \<rparr>" by (cases A) simp
    then show ?thesis using link [of "A\<lparr> ar_dead := d \<rparr>" v] by (simp only:)
  qed
  then show ?thesis
    unfolding push_free_def
    by (cases "idx (ar_free A) (n div 4 - 1)"; cases "set_next_free (A\<lparr> ar_dead := ar_dead A + n \<rparr>) r (the (idx (ar_free A) (n div 4 - 1)))")
       (auto simp: Let_def usub_def set_idx_def)
qed

lemma grown_rep:
  assumes rep: "arena_rep A L U F" and segs: "segs_ok A'" "blocks_ok A' U" "\<forall>s<ar_made A. seg_bytes A' s = seg_bytes A s"
    and same: "ar_free A' = ar_free A" "ar_large A' = ar_large A" "ar_large_free A' = ar_large_free A"
      "ar_live A' = ar_live A" "ar_dead A' = ar_dead A" "ar_large_live A' = ar_large_live A"
  shows "arena_rep A' L U F" "U r = Some n \<Longrightarrow> block A' r m = block A r m"
proof -
  note R = arena_repD [OF rep]
  show blk: "block A' r m = block A r m" if "U r = Some n" for r n m
    using blocks_okD(3) [OF R(2) that] segs(3) by (simp add: block_def)
  have "next_free A' r = next_free A r" if "r \<in> set (F k)" for r k
    using blk [OF lists_okD(5) [OF R(3) that], of 4] next_free_eq [OF R(1,2) lists_okD(5) [OF R(3) that]]
      next_free_eq [OF segs(1,2) lists_okD(5) [OF R(3) that]] by simp
  then have "chain A' x (F k) = chain A x (F k)" for x k by (rule chain_cong)
  then have "lists_ok A' U L F" using R(3) by (simp add: lists_ok_def same)
  then show "arena_rep A' L U F"
    using R segs by (simp add: arena_rep_def large_ok_def counts_ok_def same)
qed

text \<open>The step before the cut: make sure the newest segment has room, abandoning a short tail.\<close>

definition make_room :: "Platform \<Rightarrow> bool \<Rightarrow> Arena \<Rightarrow> nat \<Rightarrow> nat \<Rightarrow> ((Full + unit) \<times> Arena) option" where
  "make_room p os A room n =
     (if room < n
      then do {
        A \<leftarrow> (if 0 < room then push_free A (ref_make (ar_seg A) (ar_off A)) (room * GRAIN) else Some A);
        grow p os A }
      else Some (Inr (), A))"

definition room_of :: "Arena \<Rightarrow> nat" where
  "room_of A = length (seg_bytes A (unat (ar_seg A))) div 4 - unat (ar_off A)"

lemma room_made: "segs_ok A \<Longrightarrow> 0 < room_of A \<Longrightarrow> 0 < ar_made A \<and> unat (ar_seg A) = ar_made A - 1"
  by (cases "ar_made A = 0") (auto simp: segs_ok_def room_of_def)

lemma fresh_room:
  assumes "segs_ok A" "0 < ar_made A" "ar_off A = 0"
  shows "512 \<le> room_of A"
proof -
  have "seg_ok (length (seg_bytes A (ar_made A - 1)))" "unat (ar_seg A) = ar_made A - 1"
    using assms by (auto simp: segs_ok_def)
  then have "2048 div 4 \<le> length (seg_bytes A (unat (ar_seg A))) div 4"
    by (intro div_le_mono) (simp add: seg_ok_def)
  then show ?thesis using assms(3) by (simp add: room_of_def)
qed

lemma tail_rep:
  assumes rep: "arena_rep A L U F" and room: "0 < room_of A" "room_of A < n" "n \<le> length (ar_free A)"
  obtains A' U' F' where
    "push_free A (ref_make (ar_seg A) (ar_off A)) (room_of A * 4) = Some (A'\<lparr> ar_off := ar_off A \<rparr>)"
    "arena_rep A' L U' F'" "ar_large A' = ar_large A" "length (ar_free A') = length (ar_free A)"
    "\<And>r n m. U r = Some n \<Longrightarrow> U' r = Some n \<and> (m \<le> n * 4 \<longrightarrow> block A' r m = block A r m)"
proof -
  note R = arena_repD [OF rep]
  let ?at = "ref_make (ar_seg A) (ar_off A)" and ?n = "room_of A"
  let ?B = "A\<lparr> ar_off := ar_off A + of_nat ?n \<rparr>" and ?U = "U(?at \<mapsto> ?n)"
  have made: "0 < ar_made A" "unat (ar_seg A) = ar_made A - 1" using room_made [OF R(1) room(1)] by auto
  have le: "unat (ar_off A) + ?n \<le> length (seg_bytes A (ar_made A - 1)) div 4"
    using room(1) made(2) by (simp add: room_of_def)
  note cut = cut_rep [OF R(1,2) made(1) room(1) le]
  have link: "next_free ?B = next_free A" by (rule segment_cong) simp_all
  then have chain: "chain ?B x xs = chain A x xs" for x xs by (intro chain_cong) simp
  have fresh: "x \<noteq> ?at" if "U x = Some m" for x m using that cut(3) by auto
  have none: "L ?at = None" using lists_okD(7) [OF R(3), of ?at] cut(3,4) by (cases "L ?at") auto
  have "lists_ok ?B ?U L F"
  proof (rule lists_okI)
    show "?U x = Some (Suc j) \<and> L x = None" if "x \<in> set (F j)" for x j
      using lists_okD(5,6) [OF R(3) that] fresh [of x] by simp
    show "0 < m \<and> m \<le> 2048 \<and> ?U x = Some (units m) \<and> units m \<le> length (ar_free ?B)"
      if "L x = Some m" "is_small x" for x m
      using lists_okD(7) [OF R(3) that] fresh [of x] by simp
  qed (use lists_okD(1-4) [OF R(3)] in \<open>simp_all add: chain\<close>)
  then have rep': "arena_rep ?B L ?U F"
    using cut R by (simp add: arena_rep_def large_ok_def counts_ok_def)
  obtain k where k: "?n = Suc k" using room(1) by (cases ?n) auto
  have F: "?at \<notin> set (F j)" for j using lists_okD(5) [OF R(3), of ?at j] cut(3) by auto
  have "?U ?at = Some (Suc k)" "k < length (ar_free ?B)" using k room by simp_all
  note at_k = this
  obtain A' where A': "push_free ?B ?at (Suc k * 4) = Some A'" "arena_rep A' L ?U (F(k := ?at # F k))"
    "\<forall>r' n' m. ?U r' = Some n' \<longrightarrow> r' \<noteq> ?at \<longrightarrow> m \<le> n' * 4 \<longrightarrow> block A' r' m = block ?B r' m"
    "ar_large A' = ar_large ?B" "length (ar_free A') = length (ar_free ?B)"
    by (rule push_free_rep [OF rep' at_k(1) none F at_k(2)])
  have "block ?B = block A" by (simp add: block_def seg_bytes_def fun_eq_iff)
  then have blk: "?U r = Some n \<and> (m \<le> n * 4 \<longrightarrow> block A' r m = block A r m)" if "U r = Some n" for r n m
    using A'(3) [rule_format, of r n m] fresh [OF that] that by simp
  have "A = ?B\<lparr> ar_off := ar_off A \<rparr>" by simp
  then have "push_free A ?at (?n * 4) = Some (A'\<lparr> ar_off := ar_off A \<rparr>)"
    using A'(1) push_free_off [where A = ?B and x = "ar_off A"] k by simp
  with A' blk show thesis using that by simp
qed

text \<open>The tail goes on its free list, as if it had been cut.\<close>

lemma tail_listed:
  assumes "arena_rep A L U F" "room_of A < n" "n \<le> length (ar_free A)"
  obtains B U' F' where "(if 0 < room_of A then push_free A (ref_make (ar_seg A) (ar_off A)) (room_of A * GRAIN) else Some A) =
      Some (B\<lparr> ar_off := ar_off A \<rparr>)"
    "arena_rep B L U' F'" "ar_large B = ar_large A" "length (ar_free B) = length (ar_free A)"
    "\<And>r n m. U r = Some n \<Longrightarrow> U' r = Some n \<and> (m \<le> n * 4 \<longrightarrow> block B r m = block A r m)" "room_of A = 0 \<longrightarrow> B = A"
proof (cases "0 < room_of A")
  case pos: True
  from tail_rep [OF assms(1) pos assms(2,3)] obtain A' U' F' where
    "push_free A (ref_make (ar_seg A) (ar_off A)) (room_of A * 4) = Some (A'\<lparr> ar_off := ar_off A \<rparr>)"
    "arena_rep A' L U' F'" "ar_large A' = ar_large A" "length (ar_free A') = length (ar_free A)"
    "\<And>r n m. U r = Some n \<Longrightarrow> U' r = Some n \<and> (m \<le> n * 4 \<longrightarrow> block A' r m = block A r m)"
    by blast
  then show thesis using that [of A' U' F'] pos by simp
next
  case False
  then show thesis using that [of A U F] assms(1) by simp
qed

text \<open>Blocks that are the same in two steps read the same.\<close>

lemma reads_through:
  assumes rep: "arena_rep A L U F"
    and cut: "\<And>r n m. U r = Some n \<Longrightarrow> U' r = Some n \<and> (m \<le> n * 4 \<longrightarrow> block B r m = block A r m)"
    and "segs_ok A'" "blocks_ok A' U'" and blocks: "\<And>r n m. U' r = Some n \<Longrightarrow> block A' r m = block B r m" and large: "ar_large A' = ar_large A"
  shows "same_reads A A' L"
  unfolding same_reads_def
proof (intro allI impI)
  fix r len assume r: "L r = Some len"
  show "arena_get A' r len = arena_get A r len"
  proof (cases "is_small r")
    case True
    note live = live_small [OF rep r True]
    have "U' r = Some (units len)" "block B r len = block A r len" using cut live(3,4) by auto
    then show ?thesis using get_small_segs [OF assms(3,4) _ live(4)] get_small [OF rep r True] blocks by simp
  next
    case False
    then show ?thesis using large by (simp add: arena_get_def LARGE_bit)
  qed
qed

lemma make_room_rep:
  assumes p: "platform_ok p" and rep: "arena_rep A L U F" and n: "n \<le> length (ar_free A)"
  shows "returns (make_room p os A (room_of A) n) (\<lambda>(r, A').
    same_reads A A' L \<and>
    (case r of Inl _ \<Rightarrow> segs_sound A' \<and> (room_of A = 0 \<longrightarrow> A' = A)
     | Inr _ \<Rightarrow> n \<le> room_of A' \<and> n \<le> length (ar_free A') \<and> (\<exists>U' F'. arena_rep A' L U' F')))"
proof -
  note R = arena_repD [OF rep]
  have n512: "n \<le> 512" using n lists_okD(1) [OF R(3)] by simp
  show ?thesis
  proof (cases "room_of A < n")
    case False
    then show ?thesis using rep n by (auto simp: make_room_def same_reads_def)
  next
    case True
    obtain B U' F' where B: "(if 0 < room_of A then push_free A (ref_make (ar_seg A) (ar_off A)) (room_of A * GRAIN) else Some A) =
          Some (B\<lparr> ar_off := ar_off A \<rparr>)"
        "arena_rep B L U' F'" "ar_large B = ar_large A" "length (ar_free B) = length (ar_free A)"
        "\<And>r n m. U r = Some n \<Longrightarrow> U' r = Some n \<and> (m \<le> n * 4 \<longrightarrow> block B r m = block A r m)"
        "room_of A = 0 \<longrightarrow> B = A"
      by (rule tail_listed [OF rep True n]) (rule that, assumption+)
    note S = arena_repD [OF B(2)]
    note reads = reads_through [OF rep B(5)]
    have grow: "returns (grow p os (B\<lparr> ar_off := ar_off A \<rparr>)) (\<lambda>(r, A').
        (case r of
           Inl e \<Rightarrow> A' = B\<lparr> ar_off := ar_off A \<rparr>
         | Inr _ \<Rightarrow> segs_ok A' \<and> blocks_ok A' U' \<and> (\<forall>s<ar_made B. seg_bytes A' s = seg_bytes B s) \<and>
             ar_made A' = ar_made B + 1 \<and> ar_off A' = 0 \<and> ar_free A' = ar_free B \<and>
             ar_large A' = ar_large B \<and> ar_large_free A' = ar_large_free B \<and> ar_live A' = ar_live B \<and>
             ar_dead A' = ar_dead B \<and> ar_large_live A' = ar_large_live B))"
      by (rule grow_rep [OF p S(1,2)])
    have refused: "same_reads A (B\<lparr> ar_off := ar_off A \<rparr>) L"
    proof -
      have "same_reads A B L" by (rule reads) (use S B(3) in simp_all)
      moreover have "arena_get (B\<lparr> ar_off := ar_off A \<rparr>) = arena_get B" by (rule arena_get_cong) simp_all
      ultimately show ?thesis by (simp add: same_reads_def)
    qed
    have "same_reads A A' L \<and> n \<le> room_of A' \<and> n \<le> length (ar_free A') \<and> (\<exists>U' F'. arena_rep A' L U' F')"
      if g: "segs_ok A'" "blocks_ok A' U'" "\<forall>s<ar_made B. seg_bytes A' s = seg_bytes B s"
        "ar_made A' = ar_made B + 1" "ar_off A' = 0" "ar_free A' = ar_free B"
        "ar_large A' = ar_large B" "ar_large_free A' = ar_large_free B" "ar_live A' = ar_live B"
        "ar_dead A' = ar_dead B" "ar_large_live A' = ar_large_live B" for A'
    proof -
      note G = grown_rep [OF B(2) g(1-3) g(6-11)]
      have "same_reads A A' L" by (rule reads) (use g G(2) B(3) in simp_all)
      moreover have "n \<le> room_of A'" using fresh_room [OF g(1)] g(4,5) n512 by simp
      ultimately show ?thesis using G(1) g(6) B(4) n by auto
    qed
    then have "same_reads A A' L \<and> (case r of Inl _ \<Rightarrow> segs_sound A' \<and> (room_of A = 0 \<longrightarrow> A' = A)
        | Inr _ \<Rightarrow> n \<le> room_of A' \<and> n \<le> length (ar_free A') \<and> (\<exists>U' F'. arena_rep A' L U' F'))"
      if "grow p os (B\<lparr> ar_off := ar_off A \<rparr>) = Some (r, A')" for r A'
      using grow refused B(6) segs_ok_sound [OF S(1)] that by (cases r) auto
    moreover obtain r A' where "grow p os (B\<lparr> ar_off := ar_off A \<rparr>) = Some (r, A')"
      using grow by (auto elim!: returnsE)
    ultimately show ?thesis
      using True B(1) by (simp add: make_room_def del: GRAIN_def)
  qed
qed

lemma chain_head:
  "chain A r xs \<Longrightarrow> (\<And>x. x \<in> set xs \<Longrightarrow> is_small x) \<Longrightarrow> (r = NONE \<longleftrightarrow> xs = []) \<and> (xs \<noteq> [] \<longrightarrow> hd xs = r)"
proof (cases xs)
  case (Cons x ys)
  assume "chain A r xs" "\<And>x. x \<in> set xs \<Longrightarrow> is_small x"
  then have "r = x" "is_small r" using Cons by auto
  moreover have "\<not> is_small NONE" by (simp add: is_small_def NONE_def unsigned_minus_1_eq_mask mask_eq_exp_minus_1)
  ultimately show ?thesis using Cons by auto
qed simp

definition alloc_post :: "Arena \<Rightarrow> lens_map \<Rightarrow> nat \<Rightarrow> (Full + Ref) \<times> Arena \<Rightarrow> bool" where
  "alloc_post A L len = (\<lambda>(r, A'). same_reads A A' L \<and>
     (case r of Inl _ \<Rightarrow> segs_sound A' | Inr at \<Rightarrow> L at = None \<and> arena_inv A' (L(at \<mapsto> len))))"

definition alloc_step :: "Platform \<Rightarrow> bool \<Rightarrow> Arena \<Rightarrow> nat \<Rightarrow> ((Full + Ref) \<times> Arena) option" where
  "alloc_step p os A k = do {
     head \<leftarrow> idx (ar_free A) k;
     if head \<noteq> NONE then do {
       link \<leftarrow> next_free A head;
       heads \<leftarrow> set_idx (ar_free A) k link;
       dead \<leftarrow> usub (ar_dead A) (Suc k * 4);
       Some (Inr head, A\<lparr> ar_free := heads, ar_dead := dead, ar_live := ar_live A + Suc k * 4 \<rparr>) }
     else do {
       (r, A) \<leftarrow> make_room p os A (room_of A) (Suc k);
       (case r of
          Inl e \<Rightarrow> Some (Inl e, A)
        | Inr _ \<Rightarrow> Some (Inr (ref_make (ar_seg A) (ar_off A)),
            A\<lparr> ar_off := ar_off A + of_nat (Suc k), ar_live := ar_live A + Suc k * 4 \<rparr>)) } }"

lemma alloc_small:
  assumes p: "platform_ok p" and rep: "arena_rep A L U F" and len: "0 < len" "len \<le> 2048"
    and free: "units len \<le> length (ar_free A)" and k: "units len = Suc k"
  shows "returns (alloc_step p os A k) (alloc_post A L len)"
proof -
  note R = arena_repD [OF rep]
  have kl: "k < length (ar_free A)" using free k by simp
  have chain: "chain A (ar_free A ! k) (F k)" by (rule lists_okD(2) [OF R(3) kl])
  have small: "is_small x" if "x \<in> set (F k)" for x
    using blocks_okD(2) [OF R(2) lists_okD(5) [OF R(3) that]] .
  show ?thesis
  proof (cases "F k")
    case Nil
    then have none: "ar_free A ! k = NONE" using chain by simp
    have bump: "alloc_post A L len (Inr (ref_make (ar_seg A') (ar_off A')),
        A'\<lparr> ar_off := ar_off A' + of_nat (Suc k), ar_live := ar_live A' + Suc k * 4 \<rparr>)"
      if "same_reads A A' L" "Suc k \<le> room_of A'" "Suc k \<le> length (ar_free A')" "arena_rep A' L U' F'" for A' U' F'
    proof -
      let ?A = "A'\<lparr> ar_off := ar_off A' + of_nat (Suc k), ar_live := ar_live A' + Suc k * 4 \<rparr>"
      have made: "0 < ar_made A'" "unat (ar_seg A') = ar_made A' - 1"
        using room_made [OF arena_repD(1) [OF that(4)]] that(2) by auto
      then have "unat (ar_off A') + units len \<le> length (seg_bytes A' (ar_made A' - 1)) div 4"
        using that(2) k by (simp add: room_of_def)
      note B = bump_rep [OF that(4) made(1) this len, unfolded k, OF that(3)]
      have "arena_get ?A = arena_get A'" by (rule arena_get_cong) simp_all
      then show ?thesis using that(1) B by (auto simp: alloc_post_def same_reads_def arena_inv_def)
    qed
    obtain r A' where mr: "make_room p os A (room_of A) (Suc k) = Some (r, A')" "same_reads A A' L"
      "\<And>u. r = Inr u \<Longrightarrow> Suc k \<le> room_of A' \<and> Suc k \<le> length (ar_free A') \<and> (\<exists>U' F'. arena_rep A' L U' F')"
      "\<And>e. r = Inl e \<Longrightarrow> segs_sound A'"
    proof -
      obtain ra where ra: "make_room p os A (room_of A) (Suc k) = Some ra" "(case ra of (r, A') \<Rightarrow> same_reads A A' L \<and>
          (case r of Inl _ \<Rightarrow> segs_sound A' \<and> (room_of A = 0 \<longrightarrow> A' = A)
           | Inr _ \<Rightarrow> Suc k \<le> room_of A' \<and> Suc k \<le> length (ar_free A') \<and> (\<exists>U' F'. arena_rep A' L U' F')))"
        using make_room_rep [OF p rep, of "Suc k" os] free k by (auto elim: returnsE)
      then show thesis using that by (cases ra; cases "fst ra") auto
    qed
    have "alloc_post A L len (Inl e, A')" if "r = Inl e" for e using mr(2,4) that by (simp add: alloc_post_def)
    then show ?thesis using none kl mr bump by (cases r) (auto simp: alloc_step_def idx_def)
  next
    case (Cons r rs)
    then have head: "ar_free A ! k = r" "r \<noteq> NONE" using chain_head [OF chain small] by auto
    obtain link where link: "next_free A r = Some link" using chain Cons by (auto split: option.splits)
    let ?A = "A\<lparr> ar_free := (ar_free A)[k := link], ar_dead := ar_dead A - Suc k * 4, ar_live := ar_live A + Suc k * 4 \<rparr>"
    note P = pop_rep [OF rep kl Cons len k link]
    have "arena_get ?A = arena_get A" by (rule arena_get_cong) simp_all
    then have "alloc_post A L len (Inr r, ?A)"
      using P by (auto simp: alloc_post_def same_reads_def arena_inv_def)
    then show ?thesis using head kl link P(3) by (simp add: alloc_step_def panic_defs)
  qed
qed

lemma alloc_ok_small:
  assumes p: "platform_ok p" and rep: "arena_rep A L U F" and len: "0 < len" "len \<le> 2048"
  shows "returns (alloc p os A len) (alloc_post A L len)"
proof -
  obtain k where k: "units len = Suc k" using len by (cases "units len") (auto simp: units_def)
  then have cls: "class_of len = Some k" using len by (simp add: class_of_Some)
  have k512: "k < 512" using units_le [OF len(2)] k by simp
  define B where "B = (if length (ar_free A) \<le> k
    then A\<lparr> ar_free := ar_free A @ replicate (k + 1 - length (ar_free A)) NONE \<rparr> else A)"
  have repB: "arena_rep B L U F" using resize_rep [OF rep k512] rep by (auto simp: B_def)
  have kB: "units len \<le> length (ar_free B)" using k by (auto simp: B_def)
  have get: "arena_get B = arena_get A" by (rule arena_get_cong) (simp_all add: B_def)
  have seg: "segment B (unat (ar_seg B)) = Some (seg_bytes B (unat (ar_seg B)))"
    by (rule segment_eq [OF segs_okD(1) [OF arena_repD(1) [OF repB]]])
  have nar: "unat (narrow (Suc k)) = Suc k" using k512 by (simp add: narrow_def unat_of_nat take_bit_nat_eq_self del: of_nat_Suc)
  have room: "(if seg_bytes B (unat (ar_seg B)) = [] then Some 0
      else usub (unat (narrow (length (seg_bytes B (unat (ar_seg B))) div 4))) (unat (ar_off B))) = Some (room_of B)"
  proof -
    have ok: "segs_ok B" by (rule arena_repD(1) [OF repB])
    show ?thesis
    proof (cases "seg_bytes B (unat (ar_seg B)) = []")
      case True
      then show ?thesis by (simp add: room_of_def)
    next
      case False
      then have made: "0 < ar_made B" using ok by (cases "ar_made B = 0") (auto simp: segs_ok_def)
      then have s: "unat (ar_seg B) = ar_made B - 1" "unat (ar_off B) * 4 \<le> length (seg_bytes B (unat (ar_seg B)))"
          "seg_ok (length (seg_bytes B (unat (ar_seg B))))"
        using ok by (auto simp: segs_ok_def)
      have "length (seg_bytes B (unat (ar_seg B))) div 4 \<le> 2 ^ 23 div 4"
        using s(3) by (intro div_le_mono) (simp add: seg_ok_def)
      moreover have "unat (ar_off B) \<le> length (seg_bytes B (unat (ar_seg B))) div 4"
        using div_le_mono [OF s(2), of 4] by simp
      ultimately show ?thesis
        using False by (simp add: usub_def narrow_def unat_of_nat take_bit_nat_eq_self room_of_def)
    qed
  qed
  have "alloc p os A len = alloc_step p os B k"
  proof -
    have units: "k + 1 = Suc k" "Suc k * 4 div 4 = Suc k" by simp_all
    have add: "ar_off A + narrow (Suc k) = ar_off A + of_nat (Suc k)" for A by (simp only: narrow_def)
    show ?thesis
      unfolding alloc_def cls option.case Let_def B_def [symmetric]
      unfolding alloc_step_def make_room_def seg Option.bind.bind_lunit units GRAIN_def room nar add ..
  qed
  then show ?thesis using alloc_small [OF p repB len kB k, of os] by (simp add: alloc_post_def same_reads_def get)
qed

section \<open>Oversized blocks\<close>

lemma large_okD:
  assumes "large_ok A L"
  shows "length (ar_large A) \<le> 2 ^ 31" "distinct (ar_large_free A)"
    "i \<in> set (ar_large_free A) \<Longrightarrow> unat i < length (ar_large A) \<and> ar_large A ! unat i = [] \<and> L (i OR LARGE) = None"
    "L r = Some len \<Longrightarrow> \<not> is_small r \<Longrightarrow>
       (len = 0 \<or> 2048 < len) \<and> large_at r < length (ar_large A) \<and> length (ar_large A ! large_at r) = len"
    "j < length (ar_large A) \<Longrightarrow> of_nat j \<in> set (ar_large_free A) \<or> L (of_nat j OR LARGE) \<noteq> None \<or> j = 2 ^ 31 - 1"
  using assms unfolding large_ok_def by blast+

lemma unat_index: "n < 2 ^ 31 \<Longrightarrow> unat (of_nat n :: u32) = n"
  by (simp add: unat_of_nat take_bit_nat_eq_self)

lemma sum_list_update:
  "i < length xs \<Longrightarrow> xs ! i = [] \<Longrightarrow> sum_list (map length (xs[i := ys])) = sum_list (map length xs) + length ys"
  by (induction xs arbitrary: i) (auto split: nat.splits)

lemma large_rep:
  assumes rep: "arena_rep A L U F" and len: "len = 0 \<or> 2048 < len" and i: "unat i < 2 ^ 31" "L (i OR LARGE) = None"
    and A': "ar_large_live A' = ar_large_live A + len" "ar_live A' = ar_live A + len"
      "ar_head A' = ar_head A" "ar_tail A' = ar_tail A" "ar_made A' = ar_made A" "ar_seg A' = ar_seg A"
      "ar_off A' = ar_off A" "ar_segment_bytes A' = ar_segment_bytes A" "ar_free A' = ar_free A" "ar_dead A' = ar_dead A"
    and large: "large_ok A' (L(i OR LARGE \<mapsto> len))"
      "sum_list (map length (ar_large A')) = sum_list (map length (ar_large A)) + len"
  shows "arena_inv A' (L(i OR LARGE \<mapsto> len))"
proof -
  note R = arena_repD [OF rep]
  have big: "\<not> is_small (i OR LARGE)" by (rule not_small_large)
  have cong: "segs_ok A' = segs_ok A" "blocks_ok A' U = blocks_ok A U" "next_free A' = next_free A"
    by (rule segs_cong segment_cong; simp add: A')+
  have chain: "chain A' x xs = chain A x xs" for x xs by (rule chain_cong) (simp add: cong)
  have "lists_ok A' U (L(i OR LARGE \<mapsto> len)) F"
  proof (rule lists_okI)
    show "U x = Some (Suc k) \<and> (L(i OR LARGE \<mapsto> len)) x = None" if "x \<in> set (F k)" for x k
      using lists_okD(5,6) [OF R(3) that] blocks_okD(2) [OF R(2)] big by auto
  qed (use lists_okD(1-4) [OF R(3)] lists_okD(7) [OF R(3)] big in \<open>auto simp: chain A' split: if_splits\<close>)
  then have "arena_rep A' (L(i OR LARGE \<mapsto> len)) U F"
    using R big i large A' by (simp add: arena_rep_def cong counts_ok_def small_live_insert)
  then show ?thesis by (auto simp: arena_inv_def)
qed

lemma large_ref_eq: "unat i < 2 ^ 31 \<Longrightarrow> unat j < 2 ^ 31 \<Longrightarrow> i OR LARGE = j OR LARGE \<longleftrightarrow> i = j"
  by (metis large_ref(4))

text \<open>A block put in an empty place of the oversized table.\<close>

lemma large_placed:
  assumes rep: "arena_rep A L U F" and len: "len = 0 \<or> 2048 < len"
    and i: "unat i < 2 ^ 31" "L (i OR LARGE) = None"
      and A': "ar_large_live A' = ar_large_live A + len" "ar_live A' = ar_live A + len"
      "ar_head A' = ar_head A" "ar_tail A' = ar_tail A" "ar_made A' = ar_made A" "ar_seg A' = ar_seg A"
      "ar_off A' = ar_off A" "ar_segment_bytes A' = ar_segment_bytes A" "ar_free A' = ar_free A" "ar_dead A' = ar_dead A"
      and large: "ar_large A' = blocks[unat i := replicate len 0]" "unat i < length blocks" "blocks ! unat i = []"
        "length blocks \<le> 2 ^ 31" "\<And>j. j < length (ar_large A) \<Longrightarrow> blocks ! j = ar_large A ! j" "length (ar_large A) \<le> length blocks"
        "sum_list (map length blocks) = sum_list (map length (ar_large A))"
        "distinct (ar_large_free A')" "set (ar_large_free A') \<subseteq> set (ar_large_free A)" "i \<notin> set (ar_large_free A')"
        "\<And>j. j < length blocks \<Longrightarrow> j = unat i \<or> (j < length (ar_large A) \<and> (of_nat j \<in> set (ar_large_free A) \<longrightarrow> of_nat j \<in> set (ar_large_free A')))"
  shows "alloc_post A L len (Inr (i OR LARGE), A')"
proof -
  note D = large_okD [OF arena_repD(4) [OF rep]]
  have "large_ok A' (L(i OR LARGE \<mapsto> len))"
    unfolding large_ok_def
  proof (intro conjI ballI allI impI)
    show "length (ar_large A') \<le> 2 ^ 31" "distinct (ar_large_free A')" using large by simp_all
    fix j assume j: "j \<in> set (ar_large_free A')"
    then have "unat j < length (ar_large A)" "ar_large A ! unat j = []" "L (j OR LARGE) = None" "j \<noteq> i"
      using D(3) [of j] large(9,10) by auto
    then show "unat j < length (ar_large A')" "ar_large A' ! unat j = []" "(L(i OR LARGE \<mapsto> len)) (j OR LARGE) = None"
      using large(1,5,6) large_ref_eq [OF i(1), of j] D(1) by (auto simp: nth_list_update word_unat_eq_iff)
  next
    fix r m assume r: "(L(i OR LARGE \<mapsto> len)) r = Some m" "\<not> is_small r"
    have "large_at r = unat i \<longleftrightarrow> r = i OR LARGE"
      using large_ref(3) [OF i(1)] large_ref_cases [OF r(2)] by auto
    then show "m = 0 \<or> 2048 < m" "large_at r < length (ar_large A')" "length (ar_large A' ! large_at r) = m"
      using r D(4) [of r m] large(1,2,5,6) len large_ref(3) [OF i(1)]
      by (auto simp: nth_list_update split: if_splits)
  next
    fix j assume "j < length (ar_large A')"
    then have "j < length blocks" using large(1) by simp
    then show "of_nat j \<in> set (ar_large_free A') \<or> (L(i OR LARGE \<mapsto> len)) (of_nat j OR LARGE) \<noteq> None \<or> j = 2 ^ 31 - 1"
      using large(11) [of j] D(5) [of j] by auto
  qed
  moreover have "sum_list (map length (ar_large A')) = sum_list (map length (ar_large A)) + len"
    using sum_list_update [OF large(2,3), of "replicate len 0"] large(1,7) by simp
  ultimately have inv: "arena_inv A' (L(i OR LARGE \<mapsto> len))" by (rule large_rep [OF rep len i A'])
  have "same_reads A A' L"
    unfolding same_reads_def
  proof (intro allI impI)
    fix r m assume r: "L r = Some m"
    show "arena_get A' r m = arena_get A r m"
    proof (cases "is_small r")
      case True
      have "segment A' = segment A" by (rule segment_cong) (simp_all add: A')
      then show ?thesis using True by (simp add: arena_get_def LARGE_bit)
    next
      case False
      have "large_at r \<noteq> unat i" using large_ref_cases(1) [OF False] r i(2) by auto
      then show ?thesis
        using False D(4) [OF r False] large(1,5,6) by (simp add: arena_get_def LARGE_bit LARGE_index idx_def)
    qed
  qed
  then show ?thesis using inv i(2) by (simp add: alloc_post_def)
qed

lemma alloc_ok_large:
  assumes rep: "arena_rep A L U F" and len: "len = 0 \<or> 2048 < len"
  shows "returns (alloc_large A len) (alloc_post A L len)"
proof -
  note R = arena_repD [OF rep]
  note D = large_okD [OF R(4)]
  show ?thesis
  proof (cases "ar_large_free A = []")
    case False
    let ?i = "last (ar_large_free A)"
    have i: "?i \<in> set (ar_large_free A)" using False by simp
    have split: "ar_large_free A = butlast (ar_large_free A) @ [?i]" using False by simp
    have not_in: "?i \<notin> set (butlast (ar_large_free A))" using D(2) split by (metis distinct_butlast not_distinct_conv_prefix)
    have step: "alloc_large A len = Some (Inr (?i OR LARGE), A\<lparr> ar_large_free := butlast (ar_large_free A),
        ar_live := ar_live A + len, ar_large_live := ar_large_live A + len,
        ar_large := (ar_large A)[unat ?i := replicate len 0] \<rparr>)"
      using False D(3) [OF i] by (simp add: alloc_large_def set_idx_def)
    have cover: "of_nat j \<in> set (butlast (ar_large_free A))" if "of_nat j \<in> set (ar_large_free A)" "j \<noteq> unat ?i" "j < length (ar_large A)" for j
    proof -
      have "unat (of_nat j :: u32) = j" using that(3) D(1) by (intro unat_index) simp
      then have "of_nat j \<noteq> ?i" using that(2) by auto
      then show ?thesis using that(1) split by (metis Un_iff empty_iff empty_set set_ConsD set_append)
    qed
    have "unat ?i < 2 ^ 31" using D(1) D(3) [OF i] by simp
    then show ?thesis unfolding step returns_Some
      using D(1-3) i not_in cover
      by (intro large_placed [OF rep len, where blocks = "ar_large A"]) (auto simp: distinct_butlast dest: in_set_butlastD)
  next
    case True
    show ?thesis
    proof (cases "length (ar_large A) < 2 ^ 31")
      case False
      then have "length (ar_large A) = 2 ^ 31" using D(1) by simp
      moreover from this have "(of_nat (length (ar_large A)) :: u32) AND LARGE \<noteq> 0"
        by (simp add: LARGE_bit is_small_def)
      ultimately have "alloc_large A len = Some (Inl Large, A)"
        using True by (simp add: alloc_large_def Let_def)
      then show ?thesis using segs_ok_sound [OF R(1)] by (simp add: alloc_post_def same_reads_def)
    next
      case less: True
      let ?i = "of_nat (length (ar_large A)) :: u32"
      have i: "unat ?i = length (ar_large A)" by (rule unat_index [OF less])
      then have "?i AND LARGE = 0" using LARGE_bit [of ?i] less by (simp add: is_small_def)
      then have step: "alloc_large A len = Some (Inr (?i OR LARGE), A\<lparr> ar_large := (ar_large A @ [[]])[length (ar_large A) := replicate len 0],
          ar_live := ar_live A + len, ar_large_live := ar_large_live A + len \<rparr>)"
        using True less i by (simp add: alloc_large_def set_idx_def Let_def)
      have none: "L (?i OR LARGE) = None"
        using D(4) [of "?i OR LARGE"] large_ref [of ?i] less i by (cases "L (?i OR LARGE)") auto
      show ?thesis unfolding step returns_Some
        using D(1-3) True less i none
        by (intro large_placed [OF rep len, where blocks = "ar_large A @ [[]]"]) (auto simp: nth_append less_Suc_eq)
    qed
  qed
qed

section \<open>Freeing\<close>

definition free_post :: "Arena \<Rightarrow> lens_map \<Rightarrow> Arena \<Rightarrow> bool" where
  "free_post A L A' \<longleftrightarrow> arena_inv A' L \<and> same_reads A A' L"

lemma forget_lists:
  assumes "lists_ok A U L F" "ar_free A' = ar_free A" "next_free A' = next_free A"
  shows "lists_ok A' U (L(r := None)) F"
proof -
  have chain: "chain A' x xs = chain A x xs" for x xs by (rule chain_cong) (simp add: assms)
  show ?thesis
    by (rule lists_okI)
       (use lists_okD [OF assms(1)] in \<open>auto simp: assms(2) chain split: if_splits\<close>)
qed

lemma free_small:
  assumes rep: "arena_rep A L U F" and r: "L r = Some len" "is_small r"
  shows "returns (arena_free A r len) (free_post A (L(r := None)))"
proof -
  note R = arena_repD [OF rep] and live = live_small [OF rep r]
  obtain k where k: "units len = Suc k" using live(1) by (cases "units len") (auto simp: units_def)
  then have cls: "class_of len = Some k" using live by (simp add: class_of_Some)
  have sum: "small_live L = small_live (L(r := None)) + 4 * Suc k"
    using small_live_delete [of L r len, OF r(1)] r(2) k by simp
  then have enough: "Suc k * 4 \<le> ar_live A" using R(5) by (simp add: counts_ok_def)
  define B where "B = A\<lparr> ar_live := ar_live A - Suc k * 4 \<rparr>"
  have cong: "segs_ok B = segs_ok A" "blocks_ok B U = blocks_ok A U" "next_free B = next_free A" "block B = block A"
    unfolding B_def by (rule segs_cong segment_cong; simp)+
  have "lists_ok B U (L(r := None)) F" by (rule forget_lists [OF R(3) _ cong(3)]) (simp add: B_def)
  moreover have "large_ok B (L(r := None))" by (rule large_ok_small [OF R(4) r(2)]) (simp_all add: B_def)
  moreover have "counts_ok B (L(r := None)) F" using R(5) sum by (simp add: counts_ok_def B_def)
  ultimately have repB: "arena_rep B (L(r := None)) U F" using R cong by (simp add: arena_rep_def)
  have kB: "k < length (ar_free B)" using live(5) k by (simp add: B_def)
  have F: "r \<notin> set (F j)" for j using lists_okD(6) [OF R(3), of r j] r(1) by auto
  have Ur: "U r = Some (Suc k)" using live(3) k by simp
  have Lr: "(L(r := None)) r = None" by simp
  obtain A' where A': "push_free B r (Suc k * 4) = Some A'" "arena_rep A' (L(r := None)) U (F(k := r # F k))"
      "\<forall>r' n' m. U r' = Some n' \<longrightarrow> r' \<noteq> r \<longrightarrow> m \<le> n' * 4 \<longrightarrow> block A' r' m = block B r' m"
      "ar_large A' = ar_large B" "length (ar_free A') = length (ar_free B)"
    by (rule push_free_rep [OF repB Ur Lr F kB])
  have "same_reads A A' (L(r := None))"
    unfolding same_reads_def
  proof (intro allI impI)
    fix x m assume x: "(L(r := None)) x = Some m"
    then have Lx: "L x = Some m" "x \<noteq> r" by (auto split: if_splits)
    show "arena_get A' x m = arena_get A x m"
    proof (cases "is_small x")
      case True
      show ?thesis
        using get_small [OF A'(2) x True] get_small [OF rep Lx(1) True] live_small [OF rep Lx(1) True]
          A'(3) [rule_format, of x "units m" m] Lx(2) cong(4) by simp
    next
      case False
      then show ?thesis using A'(4) by (simp add: arena_get_def LARGE_bit B_def)
    qed
  qed
  then have post: "free_post A (L(r := None)) A'" using A'(2) by (auto simp: free_post_def arena_inv_def)
  have "\<not> is_none r" using r(2) by (auto simp: is_none_def is_small_def NONE_def unsigned_minus_1_eq_mask mask_eq_exp_minus_1)
  then have "arena_free A r len = push_free B r (Suc k * 4)"
    using cls enough by (simp add: arena_free_def usub_def B_def Let_def)
  then show ?thesis using A'(1) post by simp
qed

lemma sum_list_clear:
  "i < length xs \<Longrightarrow> sum_list (map length xs) = sum_list (map length (xs[i := []])) + length (xs ! i)"
  by (induction xs arbitrary: i) (auto split: nat.splits)

lemma forget_large:
  assumes "large_ok A L" "\<not> is_small r" "L r = Some len"
    and A': "ar_large A' = (if r = NONE then ar_large A else (ar_large A)[large_at r := []])"
      "ar_large_free A' = (if r = NONE then ar_large_free A else ar_large_free A @ [of_nat (large_at r)])"
  shows "large_ok A' (L(r := None))"
proof -
  note D = large_okD [OF assms(1)] and C = large_ref_cases [OF assms(2)]
  let ?i = "of_nat (large_at r) :: u32"
  have i: "unat ?i = large_at r" by (rule unat_index [OF C(2)])
  have fresh: "?i \<notin> set (ar_large_free A)" using D(3) [of ?i] C(1) assms(3) by auto
  have none: "large_at NONE = 2 ^ 31 - 1"
    by (simp add: large_at_def NONE_def unsigned_minus_1_eq_mask mask_eq_exp_minus_1)
  have other: "large_at x = large_at r \<longleftrightarrow> x = r" if "\<not> is_small x" for x
    using large_ref_cases(1) [OF that] C(1) by auto
  show ?thesis
    unfolding large_ok_def
  proof (intro conjI ballI allI impI)
    show "length (ar_large A') \<le> 2 ^ 31" "distinct (ar_large_free A')" using D(1,2) fresh A' by simp_all
    fix j assume "j \<in> set (ar_large_free A')"
    then have "j \<in> set (ar_large_free A) \<or> j = ?i \<and> r \<noteq> NONE" using A' by (auto split: if_splits)
    then show "unat j < length (ar_large A')" "ar_large A' ! unat j = []" "(L(r := None)) (j OR LARGE) = None"
      using D(3) [of j] D(4) [OF assms(3,2)] A' i C(1) by (auto simp: nth_list_update)
  next
    fix x m assume "(L(r := None)) x = Some m" "\<not> is_small x"
    then show "m = 0 \<or> 2048 < m" "large_at x < length (ar_large A')" "length (ar_large A' ! large_at x) = m"
      using D(4) [of x m] other [of x] A' by (auto simp: nth_list_update split: if_splits)
  next
    fix j assume "j < length (ar_large A')"
    then have j: "j < length (ar_large A)" using A' by (auto split: if_splits)
    show "of_nat j \<in> set (ar_large_free A') \<or> (L(r := None)) (of_nat j OR LARGE) \<noteq> None \<or> j = 2 ^ 31 - 1"
    proof (cases "of_nat j OR LARGE = r")
      case True
      have "j < 2 ^ 31" using j D(1) by simp
      then have "large_at r = j" using large_ref(3) [of "of_nat j"] unat_index [of j] True by simp
      then show ?thesis using A' none by auto
    next
      case False
      then show ?thesis using D(5) [OF j] A' by auto
    qed
  qed
qed

lemma free_large:
  assumes rep: "arena_rep A L U F" and r: "L r = Some len" "\<not> is_small r"
  shows "returns (arena_free A r len) (free_post A (L(r := None)))"
proof -
  note R = arena_repD [OF rep] and G = get_large [OF rep r] and C = large_ref_cases [OF r(2)]
  have cls: "class_of len = None" using G(4) by (simp add: class_of_None)
  define n where "n = (if r = NONE then 0 else len)"
  define A' where "A' = (if r = NONE then A else A\<lparr> ar_live := ar_live A - len, ar_large_live := ar_large_live A - len,
      ar_large := (ar_large A)[large_at r := []], ar_large_free := ar_large_free A @ [of_nat (large_at r)] \<rparr>)"
  have idx: "r AND NOT LARGE = of_nat (large_at r)"
    using LARGE_index [of r] unat_index [OF C(2)] by (simp add: word_unat_eq_iff)
  have sum: "sum_list (map length (ar_large A)) = sum_list (map length ((ar_large A)[large_at r := []])) + len"
    using sum_list_clear [OF G(3)] G(2) by simp
  then have le: "len \<le> ar_large_live A" "len \<le> ar_live A" using R(5) by (auto simp: counts_ok_def)
  have free: "arena_free A r len = Some A'"
    using cls G(2,3) le idx LARGE_index [of r] by (simp add: arena_free_def is_none_def panic_defs A'_def Let_def)
  have cong: "segs_ok A' = segs_ok A" "blocks_ok A' U = blocks_ok A U" "next_free A' = next_free A" "segment A' = segment A"
    unfolding A'_def by (rule segs_cong segment_cong; simp)+
  have "lists_ok A' U (L(r := None)) F" by (rule forget_lists [OF R(3) _ cong(3)]) (simp add: A'_def)
  moreover have large: "large_ok A' (L(r := None))" by (rule forget_large [OF R(4) r(2,1)]) (simp_all add: A'_def)
  moreover have "small_live (L(r := None)) = small_live L" using small_live_delete [of L r len] r by simp
  then have "counts_ok A' (L(r := None)) F" using R(5) sum by (auto simp: counts_ok_def A'_def)
  ultimately have rep': "arena_rep A' (L(r := None)) U F" using R cong by (simp add: arena_rep_def)
  have "same_reads A A' (L(r := None))"
    unfolding same_reads_def
  proof (intro allI impI)
    fix x m assume x: "(L(r := None)) x = Some m"
    then have Lx: "L x = Some m" "x \<noteq> r" by (auto split: if_splits)
    show "arena_get A' x m = arena_get A x m"
    proof (cases "is_small x")
      case True
      then show ?thesis using cong(4) by (simp add: arena_get_def LARGE_bit)
    next
      case False
      have "large_at x \<noteq> large_at r" using large_ref_cases(1) [OF False] C(1) Lx(2) by auto
      then show ?thesis
        using get_large(1) [OF rep' x False] get_large(1) [OF rep Lx(1) False] by (simp add: A'_def)
    qed
  qed
  then show ?thesis using rep' by (auto simp: free free_post_def arena_inv_def)
qed

section \<open>Writing through \<^verbatim>\<open>get_mut\<close>\<close>

lemma get_mut_small:
  assumes rep: "arena_rep A L U F" and r: "L r = Some len" "is_small r"
    and f: "f (block A r len) = Some bs" "length bs = len"
  shows "arena_get_mut A r len f = Some (write_block A r bs)" "arena_rep (write_block A r bs) L U F"
    "same_reads A (write_block A r bs) (L(r := None))" "arena_get (write_block A r bs) r len = Some bs"
proof -
  note R = arena_repD [OF rep] and live = live_small [OF rep r]
  have le: "length bs \<le> units len * 4" using live(4) f(2) by simp
  note W = write_block_segs [OF R(1,2) live(3) le]
  have off: "ref_off r * 4 + len \<le> length (seg_bytes A (ref_seg r))"
    using blocks_okD(4) [OF R(2) live(3)] live(4) by simp
  have "ref_seg r < 4 + length (ar_tail A)" using segs_okD(2) [OF R(1)] blocks_okD(3) [OF R(2) live(3)] by blast
  then show "arena_get_mut A r len f = Some (write_block A r bs)"
    using off f r(2) segs_okD(1) [OF R(1)] live(1)
    by (simp add: arena_get_mut_def LARGE_bit place_eq segment_eq slice_def copy_into_def segment_mut_eq write_block_def block_def)
  have "next_free (write_block A r bs) x = next_free A x" if "x \<in> set (F k)" for x k
  proof -
    have x: "U x = Some (Suc k)" "x \<noteq> r" using lists_okD(5,6) [OF R(3) that] r(1) by auto
    show ?thesis
      using next_free_eq [OF R(1,2) x(1)] next_free_eq [OF W x(1)] block_write_other [OF R(1,2) live(3) le x, of 4] by simp
  qed
  then have "chain (write_block A r bs) x (F k) = chain A x (F k)" for x k by (rule chain_cong)
  then have "lists_ok (write_block A r bs) U L F" using R(3) by (simp add: lists_ok_def)
  then show rep': "arena_rep (write_block A r bs) L U F"
    using R W by (simp add: arena_rep_def large_ok_def counts_ok_def)
  show "arena_get (write_block A r bs) r len = Some bs"
    using get_small [OF rep' r] block_write_same [OF R(1,2) live(3) le] f(2) by simp
  show "same_reads A (write_block A r bs) (L(r := None))"
    unfolding same_reads_def
  proof (intro allI impI)
    fix x m assume "(L(r := None)) x = Some m"
    then have x: "L x = Some m" "x \<noteq> r" by (auto split: if_splits)
    show "arena_get (write_block A r bs) x m = arena_get A x m"
    proof (cases "is_small x")
      case True
      note lx = live_small [OF rep x(1) True]
      show ?thesis
        using get_small [OF rep' x(1) True] get_small [OF rep x(1) True]
          block_write_other [OF R(1,2) live(3) le lx(3) x(2) lx(4)] by simp
    next
      case False
      then show ?thesis by (simp add: arena_get_def LARGE_bit)
    qed
  qed
qed

lemma get_mut_large:
  assumes rep: "arena_rep A L U F" and r: "L r = Some len" "\<not> is_small r"
    and f: "f (ar_large A ! large_at r) = Some bs" "length bs = len"
  defines "A' \<equiv> A\<lparr> ar_large := (ar_large A)[large_at r := bs] \<rparr>"
  shows "arena_get_mut A r len f = Some A'" "arena_rep A' L U F" "same_reads A A' (L(r := None))" "arena_get A' r len = Some bs"
proof -
  note R = arena_repD [OF rep] and G = get_large [OF rep r] and D = large_okD [OF R(4)]
  have cong: "segs_ok A' = segs_ok A" "blocks_ok A' U = blocks_ok A U" "next_free A' = next_free A" "segment A' = segment A"
    unfolding A'_def by (rule segs_cong segment_cong; simp)+
  show "arena_get_mut A r len f = Some A'"
    using G f r(2) by (simp add: arena_get_mut_def LARGE_bit LARGE_index idx_def set_idx_def A'_def)
  have chain: "chain A' x xs = chain A x xs" for x xs by (rule chain_cong) (simp add: cong)
  have lists: "lists_ok A' U L F" using R(3) by (simp add: lists_ok_def chain) (simp add: A'_def)
  have "map length (ar_large A') = map length (ar_large A)"
    using f(2) G(2,3) by (simp add: A'_def map_update list_update_same_conv)
  then have lens: "length (ar_large A' ! i) = length (ar_large A ! i)" if "i < length (ar_large A)" for i
    using that by (metis A'_def Arena.select_convs(7) Arena.surjective Arena.update_convs(7) length_list_update nth_map)
  have large: "large_ok A' L"
    unfolding large_ok_def
  proof (intro conjI ballI allI impI)
    show "length (ar_large A') \<le> 2 ^ 31" "distinct (ar_large_free A')" using D(1,2) by (simp_all add: A'_def)
    fix i assume "i \<in> set (ar_large_free A')"
    then have i: "unat i < length (ar_large A)" "ar_large A ! unat i = []" "L (i OR LARGE) = None"
      using D(3) [of i] by (auto simp: A'_def)
    then have "length (ar_large A' ! unat i) = 0" using lens by simp
    then show "unat i < length (ar_large A')" "ar_large A' ! unat i = []" "L (i OR LARGE) = None" using i by (simp_all add: A'_def)
  next
    fix x m assume "L x = Some m" "\<not> is_small x"
    from D(4) [OF this] lens [of "large_at x"]
    show "m = 0 \<or> 2048 < m" "large_at x < length (ar_large A')" "length (ar_large A' ! large_at x) = m"
      by (simp_all add: A'_def)
  next
    fix j assume "j < length (ar_large A')"
    then show "of_nat j \<in> set (ar_large_free A') \<or> L (of_nat j OR LARGE) \<noteq> None \<or> j = 2 ^ 31 - 1"
      using D(5) [of j] by (simp add: A'_def)
  qed
  have "counts_ok A' L F"
    using R(5) \<open>map length (ar_large A') = map length (ar_large A)\<close> unfolding counts_ok_def by (simp add: A'_def)
  then show rep': "arena_rep A' L U F" using R lists large by (simp add: arena_rep_def cong)
  show "arena_get A' r len = Some bs"
    using get_large(1) [OF rep' r] G(3) by (simp add: A'_def)
  show "same_reads A A' (L(r := None))"
    unfolding same_reads_def
  proof (intro allI impI)
    fix x m assume "(L(r := None)) x = Some m"
    then have x: "L x = Some m" "x \<noteq> r" by (auto split: if_splits)
    show "arena_get A' x m = arena_get A x m"
    proof (cases "is_small x")
      case True
      then show ?thesis by (simp add: arena_get_def LARGE_bit cong)
    next
      case False
      have "large_at x \<noteq> large_at r"
        using large_ref_cases(1) [OF False] large_ref_cases(1) [OF r(2)] x(2) by auto
      then show ?thesis
        using get_large(1) [OF rep' x(1) False] get_large(1) [OF rep x(1) False] by (simp add: A'_def)
    qed
  qed
qed

section \<open>The contract\<close>

type_synonym blocks = "Ref \<rightharpoonup> bytes"

text \<open>
  A store holds a finite map from references to the bytes behind them. Allocation adds a block
  of the length asked for, of unspecified contents, under a reference that was not in use, or is
  refused; every other operation changes only the block it names. A refused allocation promises
  less than the rest: the blocks are still readable.
\<close>

locale block_store =
  fixes holds :: "'s \<Rightarrow> blocks \<Rightarrow> bool"
    and readable :: "'s \<Rightarrow> blocks \<Rightarrow> bool"
    and alloc_op :: "bool \<Rightarrow> 's \<Rightarrow> nat \<Rightarrow> ((Full + Ref) \<times> 's) option"
    and free_op :: "'s \<Rightarrow> Ref \<Rightarrow> nat \<Rightarrow> 's option"
    and get_op :: "'s \<Rightarrow> Ref \<Rightarrow> nat \<Rightarrow> bytes option"
    and peek_op :: "'s \<Rightarrow> Ref \<Rightarrow> nat \<Rightarrow> bytes option"
    and get_mut_op :: "'s \<Rightarrow> Ref \<Rightarrow> nat \<Rightarrow> (bytes \<Rightarrow> bytes option) \<Rightarrow> 's option"
  assumes holds_readable: "holds s M \<Longrightarrow> readable s M"
    and alloc_law: "holds s M \<Longrightarrow> returns (alloc_op os s len) (\<lambda>(r, s').
      case r of Inl _ \<Rightarrow> readable s' M
      | Inr at \<Rightarrow> M at = None \<and> (\<exists>bs. length bs = len \<and> holds s' (M(at \<mapsto> bs))))"
    and free_law: "holds s M \<Longrightarrow> M at = Some bs \<Longrightarrow>
      returns (free_op s at (length bs)) (\<lambda>s'. holds s' (M(at := None)))"
    and get_law: "readable s M \<Longrightarrow> M at = Some bs \<Longrightarrow> get_op s at (length bs) = Some bs"
    and peek_law: "readable s M \<Longrightarrow> M at = Some bs \<Longrightarrow> \<exists>rest. peek_op s at n = Some (take n (bs @ rest))"
    and get_mut_law: "holds s M \<Longrightarrow> M at = Some bs \<Longrightarrow> f bs = Some bs' \<Longrightarrow> length bs' = length bs \<Longrightarrow>
      returns (get_mut_op s at (length bs) f) (\<lambda>s'. holds s' (M(at \<mapsto> bs')))"
begin

text \<open>A block taken and filled: what every write of an entry does.\<close>

lemma alloc_write:
  assumes "holds s M" "\<And>old. length old = length bs \<Longrightarrow> f old = Some bs"
  shows "returns (alloc_op os s (length bs)) (\<lambda>(r, s1).
    case r of Inl _ \<Rightarrow> readable s1 M
    | Inr at \<Rightarrow> M at = None \<and> returns (get_mut_op s1 at (length bs) f) (\<lambda>s2. holds s2 (M(at \<mapsto> bs))))"
proof -
  have "returns (get_mut_op s' at (length bs) f) (\<lambda>s''. holds s'' (M(at \<mapsto> bs)))"
    if "length old = length bs" "holds s' (M(at \<mapsto> old))" for s' at old
    using get_mut_law [OF that(2), of at old f bs] assms(2) [OF that(1)] that(1) by simp
  then show ?thesis
    by (intro returns_mono [OF alloc_law [OF assms(1)]]) (fastforce split: sum.splits)
qed

text \<open>A block replaced by another: the new one is filled before the old one goes.\<close>

lemma alloc_write_free:
  assumes "holds s M" "M old_at = Some old_bs" "\<And>old. length old = length bs \<Longrightarrow> f old = Some bs"
  shows "returns (alloc_op os s (length bs)) (\<lambda>(r, s1).
    case r of Inl _ \<Rightarrow> readable s1 M
    | Inr at \<Rightarrow> M at = None \<and> returns (get_mut_op s1 at (length bs) f) (\<lambda>s2.
        returns (free_op s2 old_at (length old_bs)) (\<lambda>s3. holds s3 (M(old_at := None, at \<mapsto> bs)))))"
proof -
  have "returns (free_op s2 old_at (length old_bs)) (\<lambda>s3. holds s3 (M(old_at := None, at \<mapsto> bs)))"
    if "M at = None" "holds s2 (M(at \<mapsto> bs))" for s2 at
  proof -
    have "at \<noteq> old_at" using that(1) assms(2) by auto
    then show ?thesis using free_law [OF that(2), of old_at old_bs] assms(2) by (simp add: fun_upd_twist)
  qed
  then show ?thesis
    using alloc_write [OF assms(1), of bs f os, OF assms(3)]
    by (auto elim!: returns_mono split: sum.splits)
qed

end

section \<open>The arena keeps it\<close>

definition arena_readable :: "Arena \<Rightarrow> blocks \<Rightarrow> bool" where
  "arena_readable A M \<longleftrightarrow> segs_sound A \<and> (\<forall>r bs. M r = Some bs \<longrightarrow> arena_get A r (length bs) = Some bs)"

definition arena_holds :: "Platform \<Rightarrow> Arena \<Rightarrow> blocks \<Rightarrow> bool" where
  "arena_holds p A M \<longleftrightarrow> platform_ok p \<and> arena_inv A (\<lambda>r. map_option length (M r)) \<and> arena_readable A M"

lemma lens_upd: "(\<lambda>r. map_option length ((M(at := v)) r)) = (\<lambda>r. map_option length (M r))(at := map_option length v)"
  by (rule ext) simp

lemma inv_sound: "arena_inv A L \<Longrightarrow> segs_sound A"
  by (auto simp: arena_inv_def arena_rep_def segs_ok_sound)

lemma readable_same:
  "arena_readable A M \<Longrightarrow> same_reads A A' (\<lambda>r. map_option length (M r)) \<Longrightarrow> segs_sound A' \<Longrightarrow> arena_readable A' M"
  by (simp add: arena_readable_def same_reads_def)

lemma readable_upd:
  assumes "arena_readable A M" "same_reads A A' ((\<lambda>r. map_option length (M r))(at := None))" "segs_sound A'"
    and "\<And>bs. v = Some bs \<Longrightarrow> arena_get A' at (length bs) = Some bs"
  shows "arena_readable A' (M(at := v))"
  using assms by (auto simp: arena_readable_def same_reads_def)

lemma arena_alloc_law:
  assumes "arena_holds p A M"
  shows "returns (alloc p os A len) (\<lambda>(r, A').
    case r of Inl _ \<Rightarrow> arena_readable A' M
    | Inr at \<Rightarrow> M at = None \<and> (\<exists>bs. length bs = len \<and> arena_holds p A' (M(at \<mapsto> bs))))"
proof -
  let ?L = "\<lambda>r. map_option length (M r)"
  obtain U F where rep: "arena_rep A ?L U F" and p: "platform_ok p" and read: "arena_readable A M"
    using assms by (auto simp: arena_holds_def arena_inv_def)
  have post: "returns (alloc p os A len) (alloc_post A ?L len)"
  proof (cases "0 < len \<and> len \<le> 2048")
    case True
    then show ?thesis using alloc_ok_small [OF p rep] by simp
  next
    case False
    then have "class_of len = None" "len = 0 \<or> 2048 < len" by (auto simp: class_of_None)
    then show ?thesis using alloc_ok_large [OF rep, of len] by (simp add: alloc_def)
  qed
  have held: "M at = None \<and> (\<exists>bs. length bs = len \<and> arena_holds p A' (M(at \<mapsto> bs)))"
    if h: "same_reads A A' ?L" "M at = None" "arena_inv A' (?L(at \<mapsto> len))" for A' at
  proof -
    obtain U' F' where rep': "arena_rep A' (?L(at \<mapsto> len)) U' F'" using h(3) by (auto simp: arena_inv_def)
    have "\<exists>bs. length bs = len \<and> arena_get A' at len = Some bs"
    proof (cases "is_small at")
      case True
      note live = live_small [OF rep', of at len, simplified, OF True]
      show ?thesis
        using get_small [OF rep', of at len] True length_block [OF arena_repD(2) [OF rep'] live(3)] live(4)
        by (simp add: mult.commute)
    next
      case False
      then show ?thesis using get_large [OF rep', of at len] by simp
    qed
    then obtain bs where bs: "length bs = len" "arena_get A' at len = Some bs" by blast
    have "?L at = None" using h(2) by simp
    then have "same_reads A A' (?L(at := None))" using h(1) by (simp add: fun_upd_idem)
    then have "arena_readable A' (M(at \<mapsto> bs))" using read bs inv_sound [OF h(3)] by (intro readable_upd) auto
    moreover have "arena_inv A' (\<lambda>r. map_option length ((M(at \<mapsto> bs)) r))"
      unfolding lens_upd using h(3) bs(1) by simp
    ultimately show ?thesis using bs(1) p h(2) by (auto simp: arena_holds_def)
  qed
  have "case r of Inl _ \<Rightarrow> arena_readable A' M
      | Inr at \<Rightarrow> M at = None \<and> (\<exists>bs. length bs = len \<and> arena_holds p A' (M(at \<mapsto> bs)))"
    if "alloc_post A ?L len (r, A')" for r A'
  proof (cases r)
    case (Inl e)
    then show ?thesis using that readable_same [OF read, of A'] by (simp add: alloc_post_def)
  next
    case (Inr at)
    then show ?thesis using that held [of A' at] by (simp add: alloc_post_def)
  qed
  then show ?thesis by (intro returns_mono [OF post]) (simp add: case_prod_beta)
qed

lemma arena_free_law:
  assumes "arena_holds p A M" "M at = Some bs"
  shows "returns (arena_free A at (length bs)) (\<lambda>A'. arena_holds p A' (M(at := None)))"
proof -
  let ?L = "\<lambda>r. map_option length (M r)"
  obtain U F where rep: "arena_rep A ?L U F" and p: "platform_ok p" and read: "arena_readable A M"
    using assms by (auto simp: arena_holds_def arena_inv_def)
  have "returns (arena_free A at (length bs)) (free_post A (?L(at := None)))"
    using free_small [OF rep, of at] free_large [OF rep, of at] assms(2) by (cases "is_small at") auto
  moreover have "arena_holds p A' (M(at := None))" if "free_post A (?L(at := None)) A'" for A'
    unfolding arena_holds_def lens_upd
    using that p readable_upd [OF read, of A' at None] inv_sound [of A'] by (auto simp: free_post_def)
  ultimately show ?thesis by (auto elim!: returns_mono)
qed

lemma arena_get_mut_law:
  assumes "arena_holds p A M" "M at = Some bs" "f bs = Some bs'" "length bs' = length bs"
  shows "returns (arena_get_mut A at (length bs) f) (\<lambda>A'. arena_holds p A' (M(at \<mapsto> bs')))"
proof -
  let ?L = "\<lambda>r. map_option length (M r)"
  obtain U F where rep: "arena_rep A ?L U F" and p: "platform_ok p" and read: "arena_readable A M"
    using assms by (auto simp: arena_holds_def arena_inv_def)
  have at: "?L at = Some (length bs)" and get: "arena_get A at (length bs) = Some bs"
    using assms(2) read by (auto simp: arena_readable_def)
  have "\<exists>A'. arena_get_mut A at (length bs) f = Some A' \<and> arena_inv A' ?L \<and>
      same_reads A A' (?L(at := None)) \<and> arena_get A' at (length bs) = Some bs'"
  proof (cases "is_small at")
    case True
    then have "block A at (length bs) = bs" using get_small [OF rep at] get by simp
    then show ?thesis using get_mut_small [OF rep at True, of f bs'] assms(3,4) by (auto simp: arena_inv_def)
  next
    case False
    then have "ar_large A ! large_at at = bs" using get_large(1) [OF rep at] get by simp
    then show ?thesis using get_mut_large [OF rep at False, of f bs'] assms(3,4) by (auto simp: arena_inv_def)
  qed
  then obtain A' where A': "arena_get_mut A at (length bs) f = Some A'" "arena_inv A' ?L"
      "same_reads A A' (?L(at := None))" "arena_get A' at (length bs) = Some bs'" by blast
  have "?L(at := map_option length (Some bs')) = ?L" using at assms(4) by (auto simp: fun_eq_iff)
  then have "arena_holds p A' (M(at \<mapsto> bs'))"
    unfolding arena_holds_def lens_upd using p A' assms(4) readable_upd [OF read A'(3) inv_sound [OF A'(2)], of "Some bs'"] by simp
  then show ?thesis using A'(1) by simp
qed

lemma arena_peek_law:
  assumes "arena_readable A M" "M at = Some bs"
  shows "\<exists>rest. arena_peek A at n = Some (take n (bs @ rest))"
proof -
  have get: "arena_get A at (length bs) = Some bs" using assms by (simp add: arena_readable_def)
  show ?thesis
  proof (cases "at AND LARGE \<noteq> 0")
    case True
    then have "idx (ar_large A) (unat (at AND NOT LARGE)) = Some bs" using get by (simp add: arena_get_def)
    then show ?thesis using True
      by (intro exI [of _ "[]"]) (simp add: arena_peek_def slice_def min_def)
  next
    case False
    obtain s off where place: "place at = (s, off)" by force
    then obtain sg where sg: "segment A s = Some sg" "slice sg off (off + length bs) = Some bs"
      using get False by (auto simp: arena_get_def split: bind_splits)
    then have le: "off + length bs \<le> length sg" "bs = take (length bs) (drop off sg)" by (auto simp: slice_def split: if_splits)
    have "drop off sg = bs @ drop (off + length bs) sg"
      using le by (metis add.commute append_take_drop_id drop_drop)
    moreover have "take (min (off + n) (length sg) - off) (drop off sg) = take n (drop off sg)"
      using le(1) by (simp add: min_def)
    ultimately have "arena_peek A at n = Some (take n (bs @ drop (off + length bs) sg))"
      using False place sg le(1) by (simp add: arena_peek_def slice_def)
    then show ?thesis by blast
  qed
qed

interpretation ar: block_store "arena_holds p" arena_readable "alloc p" arena_free arena_get arena_peek arena_get_mut
  for p
proof
  show "arena_holds p s M \<Longrightarrow> arena_readable s M" for s M by (simp add: arena_holds_def)
  show "arena_readable s M \<Longrightarrow> M at = Some bs \<Longrightarrow> arena_get s at (length bs) = Some bs" for s M at bs
    by (simp add: arena_readable_def)
qed (fact arena_alloc_law arena_free_law arena_peek_law arena_get_mut_law)+

lemma arena_new_holds: "platform_ok p \<Longrightarrow> arena_holds p arena_new Map.empty"
  using arena_new_inv inv_sound [OF arena_new_inv] by (simp add: arena_holds_def arena_readable_def)

end
