(* ===== verification/Rugo_Probe.thy ===== *)
theory Rugo_Probe
  imports Rugo_Table Rugo_Store
begin

text \<open>
  The probe sequence and the placement of keys in the control bytes: the triangular walk visits
  every group of a table of a power of two, so a walk that looks for a free or an empty lane ends;
  and a key placed at the first free lane of its walk is found again by a walk that stops at the
  first empty one, whatever is inserted and erased in between.
\<close>

section \<open>The triangular walk\<close>

fun probe :: "nat \<Rightarrow> nat \<Rightarrow> nat \<Rightarrow> nat" where
  "probe n g 0 = g"
| "probe n g (Suc j) = (probe n g j + Suc j) mod n"

fun triangle :: "nat \<Rightarrow> nat" where
  "triangle 0 = 0"
| "triangle (Suc j) = triangle j + Suc j"

lemma probe_less: "g < n \<Longrightarrow> probe n g j < n"
  by (induction j) (auto intro: mod_less_divisor)

lemma probe_triangle: "g < n \<Longrightarrow> probe n g j = (g + triangle j) mod n"
proof (induction j)
  case (Suc j)
  then show ?case by (simp only: probe.simps triangle.simps mod_add_left_eq add.assoc)
qed simp

lemma two_triangle: "2 * triangle j = j * (j + 1)"
  by (induction j) auto

lemma triangle_mono: "i \<le> j \<Longrightarrow> triangle i \<le> triangle j"
  by (induction j) (auto simp: le_Suc_eq)

lemma power_two_dvd_product:
  assumes "(2 :: nat) ^ m dvd a * b" "odd (a + b)"
  shows "2 ^ m dvd a \<or> 2 ^ m dvd b"
proof -
  have "odd a \<or> odd b" using assms(2) by auto
  then have "coprime (2 ^ m) a \<or> coprime (2 ^ m) b"
    by (auto simp: coprime_left_2_iff_odd)
  then show ?thesis using assms(1) by (metis coprime_dvd_mult_left_iff coprime_dvd_mult_right_iff)
qed

lemma triangle_inj_mod:
  assumes "i < 2 ^ k" "j < 2 ^ k" "triangle i mod 2 ^ k = triangle j mod 2 ^ k"
  shows "i = j"
proof -
  have *: "i = j" if le: "i \<le> j" "j < 2 ^ k" "triangle i mod 2 ^ k = triangle j mod 2 ^ k" for i j
  proof -
    have "2 ^ k dvd triangle j - triangle i"
      using that(3) triangle_mono [OF le(1)] by (metis mod_eq_dvd_iff_nat)
    then have "2 * 2 ^ k dvd 2 * (triangle j - triangle i)" by simp
    moreover have "2 * (triangle j - triangle i) = (j - i) * (j + i + 1)"
    proof -
      obtain d where d: "j = i + d" using le(1) le_Suc_ex by blast
      have "2 * (triangle j - triangle i) = j * (j + 1) - i * (i + 1)"
        by (simp only: diff_mult_distrib2 two_triangle)
      also have "\<dots> = d * (j + i + 1)" by (simp add: d algebra_simps)
      finally show ?thesis by (simp add: d)
    qed
    ultimately have "2 ^ Suc k dvd (j - i) * (j + i + 1)" by simp
    moreover have "odd ((j - i) + (j + i + 1))" using le(1) by presburger
    ultimately have "2 ^ Suc k dvd j - i \<or> 2 ^ Suc k dvd j + i + 1" by (rule power_two_dvd_product)
    then show "i = j"
    proof
      assume "2 ^ Suc k dvd j - i"
      then show ?thesis using le by (auto dest!: dvd_imp_le)
    next
      assume "2 ^ Suc k dvd j + i + 1"
      then show ?thesis using le by (auto dest!: dvd_imp_le)
    qed
  qed
  show ?thesis using * [of i j] * [of j i] assms by (metis nat_le_linear)
qed

lemma probe_visits_all:
  assumes "g < 2 ^ k" "h < 2 ^ k"
  shows "\<exists>j<2 ^ k. probe (2 ^ k) g j = h"
proof -
  have "inj_on (probe (2 ^ k) g) {..<2 ^ k}"
  proof (rule inj_onI)
    fix i j assume ij: "i \<in> {..<2 ^ k}" "j \<in> {..<2 ^ k}" "probe (2 ^ k) g i = probe (2 ^ k) g j"
    then have "(g + triangle i) mod 2 ^ k = (g + triangle j) mod 2 ^ k"
      using assms(1) by (simp add: probe_triangle)
    then obtain q q' where "g + triangle i + 2 ^ k * q = g + triangle j + 2 ^ k * q'"
      unfolding nat_mod_eq_iff by blast
    then have "triangle i + 2 ^ k * q = triangle j + 2 ^ k * q'" by simp
    then have "triangle i mod 2 ^ k = triangle j mod 2 ^ k" unfolding nat_mod_eq_iff by blast
    then show "i = j" using triangle_inj_mod ij by auto
  qed
  moreover have "probe (2 ^ k) g ` {..<2 ^ k} \<subseteq> {..<2 ^ k}" using probe_less [OF assms(1)] by auto
  ultimately have "probe (2 ^ k) g ` {..<2 ^ k} = {..<2 ^ k}" by (simp add: endo_inj_surj)
  then show ?thesis using assms(2) by (metis imageE lessThan_iff)
qed

lemma and_mask_mod: "(x :: nat) AND (2 ^ k - 1) = x mod 2 ^ k"
  by (metis mask_eq_exp_minus_1 take_bit_eq_mask take_bit_eq_mod)

lemma group_of_le: "group_of h m \<le> m"
proof -
  have "unat (h AND of_nat m) \<le> unat (of_nat m :: u64)"
    by (metis word_and_le1 word_le_nat_alt)
  also have "\<dots> \<le> m" by (simp add: unsigned_of_nat take_bit_nat_less_eq_self)
  finally show ?thesis by (simp add: group_of_def)
qed

section \<open>Groups of control bytes\<close>

definition cap_ok :: "nat \<Rightarrow> bool" where
  "cap_ok n \<longleftrightarrow> (\<exists>k\<ge>4. n = 2 ^ k)"

definition ngroups :: "target \<Rightarrow> bytes \<Rightarrow> nat" where
  "ngroups t ctrl = length ctrl div WIDTH t"

definition grp :: "target \<Rightarrow> bytes \<Rightarrow> nat \<Rightarrow> bytes" where
  "grp t ctrl g = take (WIDTH t) (drop (g * WIDTH t) ctrl)"

text \<open>A slot is reachable from a home group if no group walked over before it has an empty lane.\<close>

definition reach :: "target \<Rightarrow> bytes \<Rightarrow> nat \<Rightarrow> nat \<Rightarrow> bool" where
  "reach t ctrl g i \<longleftrightarrow>
     (\<exists>j. probe (ngroups t ctrl) g j = i div WIDTH t \<and>
        (\<forall>j'<j. EMPTY \<notin> set (grp t ctrl (probe (ngroups t ctrl) g j'))))"

lemma cap_ok_pos: "cap_ok n \<Longrightarrow> 16 \<le> n"
proof -
  assume "cap_ok n"
  then obtain k where "4 \<le> k" "n = 2 ^ k" by (auto simp: cap_ok_def)
  then show ?thesis using power_increasing [of 4 k "2 :: nat"] by simp
qed

lemma cap_ok_double: "cap_ok n \<Longrightarrow> cap_ok (n * 2)"
  unfolding cap_ok_def by (metis le_SucI power_Suc2)

lemma cap_ok_16: "cap_ok 16"
  unfolding cap_ok_def by (rule exI [of _ 4]) simp

lemma cap_ok_dvd: "cap_ok n \<Longrightarrow> 16 dvd n"
  unfolding cap_ok_def using le_imp_power_dvd [of 4 _ "2 :: nat"] by auto

lemma cap_ok_groups:
  assumes "cap_ok n" "w = 8 \<or> w = (16 :: nat)"
  shows "\<exists>k. n div w = 2 ^ k" "n div w * w = n" "0 < n div w"
proof -
  obtain k where k: "4 \<le> k" "n = 2 ^ k" using assms(1) by (auto simp: cap_ok_def)
  obtain e where e: "w = 2 ^ e" "e \<le> 4" using assms(2) that [of 3] that [of 4] by auto
  have n: "n = 2 ^ (k - e) * w" using k e by (simp flip: power_add)
  have "0 < w" using assms(2) by auto
  then show "\<exists>k. n div w = 2 ^ k" "n div w * w = n" "0 < n div w" unfolding n by auto
qed

context probe_target
begin

lemma ngroups_facts:
  assumes "cap_ok (length ctrl)"
  shows "\<exists>k. ngroups t ctrl = 2 ^ k" "ngroups t ctrl * WIDTH t = length ctrl" "0 < ngroups t ctrl"
  using cap_ok_groups [OF assms width] by (simp_all add: ngroups_def)

lemma group_at_grp:
  assumes "cap_ok (length ctrl)" "g < ngroups t ctrl"
  shows "group_at t ctrl (g * WIDTH t) = Some (grp t ctrl g)" "length (grp t ctrl g) = WIDTH t"
    "g * WIDTH t + WIDTH t \<le> length ctrl"
proof -
  have "Suc g * WIDTH t \<le> ngroups t ctrl * WIDTH t" using assms(2) by (intro mult_le_mono1) simp
  then show le: "g * WIDTH t + WIDTH t \<le> length ctrl" using ngroups_facts(2) [OF assms(1)] by simp
  then show "group_at t ctrl (g * WIDTH t) = Some (grp t ctrl g)" "length (grp t ctrl g) = WIDTH t"
    by (simp_all add: group_at_def slice_def grp_def)
qed

lemma nth_grp:
  assumes "cap_ok (length ctrl)" "g < ngroups t ctrl" "l < WIDTH t"
  shows "grp t ctrl g ! l = ctrl ! (g * WIDTH t + l)" "g * WIDTH t + l < length ctrl" "(g * WIDTH t + l) div WIDTH t = g"
  using group_at_grp(3) [OF assms(1,2)] assms(3) by (simp_all add: grp_def)

lemma lane_of:
  assumes "cap_ok (length ctrl)" "i < length ctrl"
  shows "i div WIDTH t < ngroups t ctrl" "i mod WIDTH t < WIDTH t"
    "grp t ctrl (i div WIDTH t) ! (i mod WIDTH t) = ctrl ! i" "ctrl ! i \<in> set (grp t ctrl (i div WIDTH t))"
proof -
  show less: "i div WIDTH t < ngroups t ctrl"
    using assms(2) ngroups_facts(2) [OF assms(1)] by (simp add: less_mult_imp_div_less)
  show l: "i mod WIDTH t < WIDTH t" using width_pos by simp
  show "grp t ctrl (i div WIDTH t) ! (i mod WIDTH t) = ctrl ! i"
    using nth_grp(1) [OF assms(1) less l] by simp
  then show "ctrl ! i \<in> set (grp t ctrl (i div WIDTH t))"
    using group_at_grp(2) [OF assms(1) less] l by (metis nth_mem)
qed

lemma grp_ctrl_ok:
  assumes "list_all ctrl_ok ctrl"
  shows "list_all ctrl_ok (grp t ctrl g)"
  using assms by (auto simp: list_all_iff grp_def dest!: in_set_takeD in_set_dropD)

lemma walk_reaches:
  assumes "cap_ok (length ctrl)" "g < ngroups t ctrl" "x \<in> set ctrl"
  shows "\<exists>j. x \<in> set (grp t ctrl (probe (ngroups t ctrl) g j))"
proof -
  obtain i where i: "i < length ctrl" "ctrl ! i = x" using assms(3) by (metis in_set_conv_nth)
  obtain k where k: "ngroups t ctrl = 2 ^ k" using ngroups_facts(1) [OF assms(1)] by blast
  obtain j where "probe (ngroups t ctrl) g j = i div WIDTH t"
    using probe_visits_all [of g k "i div WIDTH t"] assms(2) lane_of(1) [OF assms(1) i(1)] k by auto
  then show ?thesis using lane_of(4) [OF assms(1) i(1)] i(2) by metis
qed

lemma step_probe:
  assumes "cap_ok (length ctrl)"
  shows "(probe (ngroups t ctrl) g j + Suc j) AND (ngroups t ctrl - Suc 0) = probe (ngroups t ctrl) g (Suc j)"
proof -
  obtain k where "ngroups t ctrl = 2 ^ k" using ngroups_facts(1) [OF assms] by blast
  then show ?thesis using and_mask_mod [of _ k] by simp
qed

lemma put_loop_from:
  assumes ctrl: "cap_ok (length ctrl)" "list_all ctrl_ok ctrl" and g: "g < ngroups t ctrl"
    and J: "EMPTY \<in> set (grp t ctrl (probe (ngroups t ctrl) g J))"
      "\<And>j. j < J \<Longrightarrow> EMPTY \<notin> set (grp t ctrl (probe (ngroups t ctrl) g j))"
  shows "j \<le> J \<Longrightarrow> returns (put_loop t ctrl (ngroups t ctrl - Suc 0) (probe (ngroups t ctrl) g j) (Suc j))
    (\<lambda>at. at < length ctrl \<and> ctrl ! at = EMPTY \<and> at div WIDTH t = probe (ngroups t ctrl) g J)"
proof (induction "J - j" arbitrary: j)
  case 0
  then have j: "j = J" by simp
  let ?h = "probe (ngroups t ctrl) g J"
  have h: "?h < ngroups t ctrl" by (rule probe_less [OF g])
  note G = group_at_grp [OF ctrl(1) h]
  obtain l where l: "lowest t (match_empty t (grp t ctrl ?h)) = Some l" "first_at (\<lambda>b. b = EMPTY) (grp t ctrl ?h) l"
    using no_empty [OF G(2) grp_ctrl_ok [OF ctrl(2)]] first_empty [OF G(2) grp_ctrl_ok [OF ctrl(2)]] J(1)
    by (cases "lowest t (match_empty t (grp t ctrl ?h))") auto
  then have "l < WIDTH t" "grp t ctrl ?h ! l = EMPTY" using G(2) by (auto simp: first_at_def)
  then show ?case
    using nth_grp [OF ctrl(1) h] l(1) G(1) by (subst put_loop.simps) (simp add: j)
next
  case (Suc d)
  then have less: "j < J" by simp
  let ?h = "probe (ngroups t ctrl) g j"
  have h: "?h < ngroups t ctrl" by (rule probe_less [OF g])
  note G = group_at_grp [OF ctrl(1) h]
  have "lowest t (match_empty t (grp t ctrl ?h)) = None"
    using no_empty [OF G(2) grp_ctrl_ok [OF ctrl(2)]] J(2) [OF less] by simp
  moreover have "d = J - Suc j" using Suc(2) by simp
  ultimately show ?case
    using Suc(1) [of "Suc j"] less G(1) step_probe [OF ctrl(1), of g j]
    by (subst put_loop.simps) simp
qed

lemma put_loop_spec:
  assumes ctrl: "cap_ok (length ctrl)" "list_all ctrl_ok ctrl" and g: "g < ngroups t ctrl" and "EMPTY \<in> set ctrl"
  shows "returns (put_loop t ctrl (ngroups t ctrl - 1) g 1)
    (\<lambda>at. at < length ctrl \<and> ctrl ! at = EMPTY \<and> reach t ctrl g at)"
proof -
  obtain J where J: "EMPTY \<in> set (grp t ctrl (probe (ngroups t ctrl) g J))"
      "\<And>j. j < J \<Longrightarrow> EMPTY \<notin> set (grp t ctrl (probe (ngroups t ctrl) g j))"
    using walk_reaches [OF ctrl(1) g assms(4)] exists_least_iff [of "\<lambda>j. EMPTY \<in> set (grp t ctrl (probe (ngroups t ctrl) g j))"]
    by auto
  show ?thesis
    using put_loop_from [OF ctrl g J, of 0] J(2) by (auto elim!: returns_mono simp: reach_def)
qed

lemma free_slot_loop_from:
  assumes ctrl: "cap_ok (length ctrl)" "list_all ctrl_ok ctrl" and g: "g < ngroups t ctrl"
    and J: "\<not> list_all is_full (grp t ctrl (probe (ngroups t ctrl) g J))"
      "\<And>j. j < J \<Longrightarrow> list_all is_full (grp t ctrl (probe (ngroups t ctrl) g j))"
  shows "j \<le> J \<Longrightarrow> returns (free_slot_loop t ctrl (ngroups t ctrl - Suc 0) (probe (ngroups t ctrl) g j) (Suc j))
    (\<lambda>at. at < length ctrl \<and> \<not> is_full (ctrl ! at) \<and> at div WIDTH t = probe (ngroups t ctrl) g J)"
proof (induction "J - j" arbitrary: j)
  case 0
  then have j: "j = J" by simp
  let ?h = "probe (ngroups t ctrl) g J"
  have h: "?h < ngroups t ctrl" by (rule probe_less [OF g])
  note G = group_at_grp [OF ctrl(1) h]
  obtain l where l: "lowest t (match_free t (grp t ctrl ?h)) = Some l" "first_at (\<lambda>b. \<not> is_full b) (grp t ctrl ?h) l"
    using no_free [OF G(2)] first_free [OF G(2)] J(1)
    by (cases "lowest t (match_free t (grp t ctrl ?h))") auto
  then have "l < WIDTH t" "\<not> is_full (grp t ctrl ?h ! l)" using G(2) by (auto simp: first_at_def)
  then show ?case
    using nth_grp [OF ctrl(1) h] l(1) G(1) by (subst free_slot_loop.simps) (simp add: j)
next
  case (Suc d)
  then have less: "j < J" by simp
  let ?h = "probe (ngroups t ctrl) g j"
  have h: "?h < ngroups t ctrl" by (rule probe_less [OF g])
  note G = group_at_grp [OF ctrl(1) h]
  have "lowest t (match_free t (grp t ctrl ?h)) = None" using no_free [OF G(2)] J(2) [OF less] by simp
  moreover have "d = J - Suc j" using Suc(2) by simp
  ultimately show ?case
    using Suc(1) [of "Suc j"] less G(1) step_probe [OF ctrl(1), of g j]
    by (subst free_slot_loop.simps) simp
qed

lemma free_slot_loop_spec:
  assumes ctrl: "cap_ok (length ctrl)" "list_all ctrl_ok ctrl" and g: "g < ngroups t ctrl"
    and free: "x \<in> set ctrl" "\<not> is_full x"
  shows "returns (free_slot_loop t ctrl (ngroups t ctrl - 1) g 1)
    (\<lambda>at. at < length ctrl \<and> \<not> is_full (ctrl ! at) \<and> reach t ctrl g at)"
proof -
  obtain j where "x \<in> set (grp t ctrl (probe (ngroups t ctrl) g j))" using walk_reaches [OF ctrl(1) g free(1)] by blast
  then have "\<not> list_all is_full (grp t ctrl (probe (ngroups t ctrl) g j))" using free(2) by (auto simp: list_all_iff)
  then obtain J where J: "\<not> list_all is_full (grp t ctrl (probe (ngroups t ctrl) g J))"
      "\<And>j. j < J \<Longrightarrow> list_all is_full (grp t ctrl (probe (ngroups t ctrl) g j))"
    using exists_least_iff [of "\<lambda>j. \<not> list_all is_full (grp t ctrl (probe (ngroups t ctrl) g j))"] by auto
  then have "EMPTY \<notin> set (grp t ctrl (probe (ngroups t ctrl) g j))" if "j < J" for j
    using that markers(1) by (fastforce simp: list_all_iff)
  then show ?thesis
    using free_slot_loop_from [OF ctrl g J, of 0] by (auto elim!: returns_mono simp: reach_def)
qed

end

section \<open>Keys in their places\<close>

type_synonym stored = "bytes \<times> u32 option \<times> u32 option"
type_synonym placed = "nat \<rightharpoonup> bytes \<times> stored"

definition home :: "target \<Rightarrow> u64 \<Rightarrow> nat \<Rightarrow> bytes \<Rightarrow> nat" where
  "home t seed n k = group_of (hash_of seed k) (n div WIDTH t - 1)"

definition layout :: "target \<Rightarrow> u64 \<Rightarrow> bytes \<Rightarrow> placed \<Rightarrow> bool" where
  "layout t seed ctrl E \<longleftrightarrow>
     list_all ctrl_ok ctrl \<and> (ctrl = [] \<or> cap_ok (length ctrl)) \<and>
     (\<forall>i. E i \<noteq> None \<longleftrightarrow> i < length ctrl \<and> is_full (ctrl ! i)) \<and>
     (\<forall>i k x. E i = Some (k, x) \<longrightarrow>
        ctrl ! i = tag_of (hash_of seed k) \<and> reach t ctrl (home t seed (length ctrl) k) i) \<and>
     (\<forall>i j k x y. E i = Some (k, x) \<longrightarrow> E j = Some (k, y) \<longrightarrow> i = j)"

lemma layoutD:
  assumes "layout t seed ctrl E"
  shows "list_all ctrl_ok ctrl" "ctrl \<noteq> [] \<Longrightarrow> cap_ok (length ctrl)"
    "E i \<noteq> None \<longleftrightarrow> i < length ctrl \<and> is_full (ctrl ! i)"
    "E i = Some (k, x) \<Longrightarrow> ctrl ! i = tag_of (hash_of seed k)"
    "E i = Some (k, x) \<Longrightarrow> reach t ctrl (home t seed (length ctrl) k) i"
    "E i = Some (k, x) \<Longrightarrow> E j = Some (k, y) \<Longrightarrow> i = j"
    "E i = Some kx \<Longrightarrow> i < length ctrl \<and> is_full (ctrl ! i)"
  using assms unfolding layout_def by blast+

lemma in_grp:
  assumes "0 < WIDTH t"
  shows "b \<in> set (grp t ctrl g) \<longleftrightarrow> (\<exists>i<length ctrl. i div WIDTH t = g \<and> ctrl ! i = b)"
proof
  assume "b \<in> set (grp t ctrl g)"
  then obtain l where l: "l < length (grp t ctrl g)" "grp t ctrl g ! l = b" by (metis in_set_conv_nth)
  then have "l < WIDTH t" "g * WIDTH t + l < length ctrl" "ctrl ! (g * WIDTH t + l) = b" by (auto simp: grp_def)
  moreover from this have "(g * WIDTH t + l) div WIDTH t = g" by simp
  ultimately show "\<exists>i<length ctrl. i div WIDTH t = g \<and> ctrl ! i = b" by blast
next
  assume "\<exists>i<length ctrl. i div WIDTH t = g \<and> ctrl ! i = b"
  then obtain i where i: "i < length ctrl" "i div WIDTH t = g" "ctrl ! i = b" by blast
  have eq: "g * WIDTH t + i mod WIDTH t = i" using i(2) div_mult_mod_eq by blast
  have l: "i mod WIDTH t < WIDTH t" using assms by simp
  then have "i mod WIDTH t < length (grp t ctrl g)" using i(1) eq by (simp add: grp_def)
  moreover have "grp t ctrl g ! (i mod WIDTH t) = b" using l i eq by (simp add: grp_def)
  ultimately show "b \<in> set (grp t ctrl g)" by (metis nth_mem)
qed

lemma reach_mono:
  assumes "reach t ctrl g i" "length ctrl' = length ctrl"
    and "\<And>h. EMPTY \<in> set (grp t ctrl' h) \<Longrightarrow> EMPTY \<in> set (grp t ctrl h)"
  shows "reach t ctrl' g i"
  using assms unfolding reach_def ngroups_def by metis

lemma list_all_update: "list_all P xs \<Longrightarrow> P x \<Longrightarrow> list_all P (xs[i := x])"
  by (auto simp: list_all_iff dest!: set_update_subset_insert [THEN subsetD])

lemma count_update:
  "i < length xs \<Longrightarrow> length (filter P (xs[i := v])) + of_bool (P (xs ! i)) = length (filter P xs) + of_bool (P v)"
proof (induction xs arbitrary: i)
  case (Cons x xs)
  then show ?case
  proof (cases i)
    case (Suc j)
    then show ?thesis using Cons.IH [of j] Cons.prems by simp
  qed simp
qed simp

lemma ctrl_counts:
  assumes "list_all ctrl_ok ctrl"
  shows "length (filter is_full ctrl) + length (filter (\<lambda>b. b = DELETED) ctrl) + length (filter (\<lambda>b. b = EMPTY) ctrl) = length ctrl"
  using assms markers by (induction ctrl) (auto simp: ctrl_ok_def)

lemma some_empty:
  assumes "list_all ctrl_ok ctrl" "length (filter is_full ctrl) + length (filter (\<lambda>b. b = DELETED) ctrl) < length ctrl"
  shows "EMPTY \<in> set ctrl"
proof (rule ccontr)
  assume "EMPTY \<notin> set ctrl"
  then have "filter (\<lambda>b. b = EMPTY) ctrl = []" by (auto simp: filter_empty_conv)
  then show False using ctrl_counts [OF assms(1)] assms(2) by simp
qed

lemma layout_dom: "layout t seed ctrl E \<Longrightarrow> dom E = {i. i < length ctrl \<and> is_full (ctrl ! i)}"
  using layoutD(3) [of t seed ctrl E] by (auto simp: dom_def)

lemma layout_card: "layout t seed ctrl E \<Longrightarrow> length (filter is_full ctrl) = card (dom E)"
  by (simp add: layout_dom length_filter_conv_card)

lemma layout_finite: "layout t seed ctrl E \<Longrightarrow> finite (dom E)"
  by (simp add: layout_dom)

context probe_target
begin

lemma layout_insert:
  assumes lay: "layout t seed ctrl E" and at: "at < length ctrl" "\<not> is_full (ctrl ! at)"
    and reach: "reach t ctrl (home t seed (length ctrl) k) at" and new: "\<And>i x. E i \<noteq> Some (k, x)"
  shows "layout t seed (ctrl[at := tag_of (hash_of seed k)]) (E(at \<mapsto> (k, x)))"
proof -
  let ?c = "ctrl[at := tag_of (hash_of seed k)]"
  have less: "EMPTY \<in> set (grp t ctrl h)" if e: "EMPTY \<in> set (grp t ?c h)" for h
  proof -
    obtain i where "i < length ctrl" "i div WIDTH t = h" "?c ! i = EMPTY" using e by (auto simp: in_grp width_pos)
    moreover from this have "i \<noteq> at" using is_full_tag_of markers(1) by (metis nth_list_update_eq)
    ultimately show ?thesis by (auto simp: in_grp width_pos)
  qed
  have far: "reach t ?c g i" if "reach t ctrl g i" for g i using reach_mono [OF that _ less] by simp
  show ?thesis
    unfolding layout_def
  proof (intro conjI allI impI)
    show "list_all ctrl_ok ?c" using layoutD(1) [OF lay] by (intro list_all_update) (simp_all add: ctrl_ok_def)
    show "?c = [] \<or> cap_ok (length ?c)" using layoutD(2) [OF lay] by auto
    show "((E(at \<mapsto> (k, x))) i \<noteq> None) = (i < length ?c \<and> is_full (?c ! i))" for i
      using layoutD(3) [OF lay, of i] at(1) by (cases "i = at") simp_all
    show "?c ! i = tag_of (hash_of seed k')" "reach t ?c (home t seed (length ?c) k') i"
      if "(E(at \<mapsto> (k, x))) i = Some (k', y)" for i k' y
      using that layoutD(4,5) [OF lay, of i k' y] far reach at(1) by (auto split: if_splits)
    show "i = j" if "(E(at \<mapsto> (k, x))) i = Some (k', y)" "(E(at \<mapsto> (k, x))) j = Some (k', z)" for i j k' y z
      using that layoutD(6) [OF lay, of i k' y j z] new by (auto split: if_splits)
  qed
qed

lemma layout_erase:
  assumes lay: "layout t seed ctrl E" and at: "at < length ctrl"
    and b: "b = DELETED \<or> b = EMPTY \<and> EMPTY \<in> set (grp t ctrl (at div WIDTH t))"
  shows "layout t seed (ctrl[at := b]) (E(at := None))"
proof -
  let ?c = "ctrl[at := b]"
  have less: "EMPTY \<in> set (grp t ctrl h)" if e: "EMPTY \<in> set (grp t ?c h)" for h
  proof -
    obtain i where i: "i < length ctrl" "i div WIDTH t = h" "?c ! i = EMPTY" using e by (auto simp: in_grp width_pos)
    show ?thesis
    proof (cases "i = at")
      case True
      then have "b = EMPTY" using i at by simp
      then show ?thesis using b markers(3) True i(2) by auto
    next
      case False
      then show ?thesis using i by (auto simp: in_grp width_pos)
    qed
  qed
  have far: "reach t ?c g i" if "reach t ctrl g i" for g i using reach_mono [OF that _ less] by simp
  have b': "ctrl_ok b" "\<not> is_full b" using b markers by (auto simp: ctrl_ok_def)
  show ?thesis
    unfolding layout_def
  proof (intro conjI allI impI)
    show "list_all ctrl_ok ?c" using layoutD(1) [OF lay] b' by (intro list_all_update) simp_all
    show "?c = [] \<or> cap_ok (length ?c)" using layoutD(2) [OF lay] by auto
    show "((E(at := None)) i \<noteq> None) = (i < length ?c \<and> is_full (?c ! i))" for i
      using layoutD(3) [OF lay, of i] at b' by (auto simp: nth_list_update)
    show "?c ! i = tag_of (hash_of seed k')" "reach t ?c (home t seed (length ?c) k') i"
      if "(E(at := None)) i = Some (k', y)" for i k' y
      using that layoutD(4,5) [OF lay, of i k' y] far at by (auto split: if_splits)
    show "i = j" if "(E(at := None)) i = Some (k', y)" "(E(at := None)) j = Some (k', z)" for i j k' y z
      using that layoutD(6) [OF lay, of i k' y j z] by (auto split: if_splits)
  qed
qed

lemma layout_empty: "cap_ok n \<Longrightarrow> layout t seed (replicate n EMPTY) Map.empty"
  using markers(1) by (auto simp: layout_def list_all_iff ctrl_ok_def)

lemma home_less: "cap_ok (length ctrl) \<Longrightarrow> home t seed (length ctrl) k < ngroups t ctrl"
  using ngroups_facts(3) [of ctrl] group_of_le [of "hash_of seed k" "length ctrl div WIDTH t - 1"]
  by (simp add: home_def ngroups_def)

end

end
