(* ===== verification/Rugo_Shard.thy ===== *)
theory Rugo_Shard
  imports Rugo_Probe
begin

text \<open>
  What a table means: a map from keys to a value, an expiry and user flags. \<open>table_rep\<close> ties the
  control bytes, the slots, the blocks of the arena and the counters to such a map, and every
  operation of the table is shown to return and to do on the map what it promises.
\<close>

section \<open>The abstraction\<close>

type_synonym cache = "bytes \<rightharpoonup> stored"

definition contents :: "placed \<Rightarrow> cache \<Rightarrow> bool" where
  "contents E m \<longleftrightarrow> (\<forall>k x. m k = Some x \<longleftrightarrow> (\<exists>i. E i = Some (k, x)))"

definition backed :: "blocks \<Rightarrow> u32 list \<Rightarrow> placed \<Rightarrow> bool" where
  "backed M slots E \<longleftrightarrow>
     (\<forall>i k v e u. E i = Some (k, v, e, u) \<longrightarrow>
        fits (length k) \<and> fits (length v) \<and> i < length slots \<and> M (slots ! i) = Some (entry_bytes k v e u)) \<and>
     (\<forall>i j. E i \<noteq> None \<longrightarrow> E j \<noteq> None \<longrightarrow> slots ! i = slots ! j \<longrightarrow> i = j) \<and>
     dom M = (\<lambda>i. slots ! i) ` dom E"

definition timed :: "cache \<Rightarrow> bytes set" where
  "timed m = {k. \<exists>v d u. m k = Some (v, Some d, u)}"

definition counted :: "Table \<Rightarrow> cache \<Rightarrow> bool" where
  "counted T m \<longleftrightarrow> tb_len T = card (dom m) \<and> tb_timed T = card (timed m) \<and>
     tb_tombstones T = length (filter (\<lambda>b. b = DELETED) (tb_ctrl T)) \<and>
     tb_growth_left T + tb_len T + tb_tombstones T = length (tb_ctrl T) * 7 div 8"

definition table_rep :: "target \<Rightarrow> Table \<Rightarrow> blocks \<Rightarrow> placed \<Rightarrow> cache \<Rightarrow> bool" where
  "table_rep t T M E m \<longleftrightarrow>
     layout t (tb_seed T) (tb_ctrl T) E \<and> length (tb_slots T) = length (tb_ctrl T) \<and>
     backed M (tb_slots T) E \<and> contents E m \<and> counted T m"

definition table_inv :: "Platform \<Rightarrow> target \<Rightarrow> Table \<Rightarrow> cache \<Rightarrow> bool" where
  "table_inv p t T m \<longleftrightarrow> (\<exists>M E. arena_holds p (tb_arena T) M \<and> table_rep t T M E m)"

text \<open>What a refused allocation leaves: every entry can be read, and nothing has changed.\<close>

definition table_readable :: "target \<Rightarrow> Table \<Rightarrow> cache \<Rightarrow> bool" where
  "table_readable t T m \<longleftrightarrow> (\<exists>M E. arena_readable (tb_arena T) M \<and> table_rep t T M E m)"

lemma table_repD:
  assumes "table_rep t T M E m"
  shows "layout t (tb_seed T) (tb_ctrl T) E" "length (tb_slots T) = length (tb_ctrl T)"
    "backed M (tb_slots T) E" "contents E m" "counted T m"
  using assms by (simp_all add: table_rep_def)

lemma countedD:
  assumes "counted T m"
  shows "tb_len T = card (dom m)" "tb_timed T = card (timed m)"
    "tb_tombstones T = length (filter (\<lambda>b. b = DELETED) (tb_ctrl T))"
    "tb_growth_left T + tb_len T + tb_tombstones T = length (tb_ctrl T) * 7 div 8"
  using assms by (simp_all add: counted_def)

lemma backedD:
  assumes "backed M slots E"
  shows "E i = Some (k, v, e, u) \<Longrightarrow> fits (length k)" "E i = Some (k, v, e, u) \<Longrightarrow> fits (length v)"
    "E i = Some kx \<Longrightarrow> i < length slots" "E i = Some (k, v, e, u) \<Longrightarrow> M (slots ! i) = Some (entry_bytes k v e u)"
    "E i = Some x \<Longrightarrow> E j = Some y \<Longrightarrow> slots ! i = slots ! j \<Longrightarrow> i = j"
    "dom M = (\<lambda>i. slots ! i) ` dom E"
  using assms unfolding backed_def by (blast, blast, (cases kx; blast), blast, blast, blast)

lemma contentsI: "(\<And>k x. m k = Some x \<longleftrightarrow> (\<exists>i. E i = Some (k, x))) \<Longrightarrow> contents E m"
  by (simp add: contents_def)

lemma contentsD: "contents E m \<Longrightarrow> E i = Some (k, x) \<Longrightarrow> m k = Some x"
  unfolding contents_def by blast

lemma contents_iff: "contents E m \<Longrightarrow> m k = Some x \<longleftrightarrow> (\<exists>i. E i = Some (k, x))"
  unfolding contents_def by blast

lemma contents_None: "contents E m \<Longrightarrow> m k = None \<longleftrightarrow> (\<forall>i x. E i \<noteq> Some (k, x))"
  unfolding contents_def by (metis not_Some_eq)

lemma card_contents:
  assumes "layout t seed ctrl E" "contents E m"
  shows "finite (dom m)" "card (dom E) = card (dom m)"
proof -
  let ?f = "\<lambda>i. fst (the (E i))"
  have img: "?f ` dom E = dom m"
  proof (intro set_eqI iffI)
    fix k assume "k \<in> ?f ` dom E"
    then show "k \<in> dom m" using contentsD [OF assms(2)] by force
  next
    fix k assume "k \<in> dom m"
    then obtain i x where "E i = Some (k, x)" using assms(2) by (auto simp: contents_def)
    then show "k \<in> ?f ` dom E" by force
  qed
  have inj: "inj_on ?f (dom E)"
  proof (rule inj_onI)
    fix i j assume "i \<in> dom E" "j \<in> dom E" "?f i = ?f j"
    then obtain k x y where "E i = Some (k, x)" "E j = Some (k, y)" by (cases "the (E i)"; cases "the (E j)") auto
    then show "i = j" by (rule layoutD(6) [OF assms(1)])
  qed
  show "finite (dom m)" using layout_finite [OF assms(1)] img by (metis finite_imageI)
  show "card (dom E) = card (dom m)" using card_image [OF inj] img by simp
qed

lemma timed_subset: "timed m \<subseteq> dom m"
  by (auto simp: timed_def)

lemma rep_has_empty:
  assumes rep: "table_rep t T M E m" and "tb_slots T \<noteq> []"
  shows "EMPTY \<in> set (tb_ctrl T)" "cap_ok (length (tb_ctrl T))"
proof -
  note R = table_repD [OF rep]
  have ne: "tb_ctrl T \<noteq> []" using assms(2) R(2) by auto
  show cap: "cap_ok (length (tb_ctrl T))" by (rule layoutD(2) [OF R(1) ne])
  have "length (filter is_full (tb_ctrl T)) = tb_len T"
    using layout_card [OF R(1)] card_contents [OF R(1,4)] countedD(1) [OF R(5)] by simp
  then have "length (filter is_full (tb_ctrl T)) + length (filter (\<lambda>b. b = DELETED) (tb_ctrl T)) \<le> length (tb_ctrl T) * 7 div 8"
    using countedD(3,4) [OF R(5)] by simp
  moreover have "length (tb_ctrl T) * 7 div 8 < length (tb_ctrl T)" using cap_ok_pos [OF cap] by linarith
  ultimately show "EMPTY \<in> set (tb_ctrl T)" by (intro some_empty [OF layoutD(1) [OF R(1)]]) linarith
qed

section \<open>Reading an entry\<close>

lemma read_entry:
  assumes "arena_readable (tb_arena T) M" "backed M (tb_slots T) E" "E i = Some (k, v, e, u)"
  shows "head_at T (tb_slots T ! i) = Some (entry_head k v e u)"
    "entry_at T (tb_slots T ! i) = Some (entry_head k v e u, entry_bytes k v e u)"
    "expiry_of T (tb_slots T ! i) (entry_head k v e u) = Some e"
    "arena_get (tb_arena T) (tb_slots T ! i) (head_size (entry_head k v e u)) = Some (entry_bytes k v e u)"
    "head_size (entry_head k v e u) = length (entry_bytes k v e u)"
proof -
  note f = backedD(1,2,4) [OF assms(2,3)]
  obtain rest where peek: "arena_peek (tb_arena T) (tb_slots T ! i) 11 = Some (take 11 (entry_bytes k v e u @ rest))"
    using ar.peek_law [OF assms(1) f(3), of 11] by blast
  then show head: "head_at T (tb_slots T ! i) = Some (entry_head k v e u)"
    using head_entry_prefix [OF f(1,2), of 11] by (simp add: head_at_def MAX_HEADER_def)
  show len: "head_size (entry_head k v e u) = length (entry_bytes k v e u)" by (rule head_size_entry [OF f(1,2)])
  show get: "arena_get (tb_arena T) (tb_slots T ! i) (head_size (entry_head k v e u)) = Some (entry_bytes k v e u)"
    unfolding len by (rule ar.get_law [OF assms(1) f(3)])
  then show "entry_at T (tb_slots T ! i) = Some (entry_head k v e u, entry_bytes k v e u)"
    by (simp add: entry_at_def head)
  show "expiry_of T (tb_slots T ! i) (entry_head k v e u) = Some e"
    using get entry_fields(3) [OF f(1,2), of e u "[]"] by (auto simp: expiry_of_def)
qed

lemma read_fields:
  assumes "backed M slots E" "E i = Some (k, v, e, u)"
  shows "head_key (entry_head k v e u) (entry_bytes k v e u) = Some k"
    "head_value (entry_head k v e u) (entry_bytes k v e u) = Some v"
    "head_expiry (entry_head k v e u) (entry_bytes k v e u) = Some e"
    "head_user_flags (entry_head k v e u) (entry_bytes k v e u) = Some u"
    "head (entry_bytes k v e u) = Some (entry_head k v e u)"
  using entry_fields [OF backedD(1,2) [OF assms], of e u "[]"] head_entry [OF backedD(1,2) [OF assms], of e u]
  by simp_all

section \<open>Finding a key\<close>

definition not_in_group :: "target \<Rightarrow> placed \<Rightarrow> bytes \<Rightarrow> nat \<Rightarrow> bool" where
  "not_in_group t E key h \<longleftrightarrow> (\<forall>i x. i div WIDTH t = h \<longrightarrow> E i \<noteq> Some (key, x))"

definition found_at :: "placed \<Rightarrow> bytes \<Rightarrow> nat \<times> Head \<Rightarrow> bool" where
  "found_at E key = (\<lambda>(at, h). \<exists>v e u. E at = Some (key, v, e, u) \<and> h = entry_head key v e u)"

lemma find_lane_spec:
  assumes read: "arena_readable (tb_arena T) M" "backed M (tb_slots T) E"
    and lanes: "\<forall>l\<in>set lanes. E (base + l) \<noteq> None"
  shows "returns (find_lane T key base lanes) (\<lambda>r. case r of
      Some f \<Rightarrow> found_at E key f
    | None \<Rightarrow> \<forall>l\<in>set lanes. \<forall>x. E (base + l) \<noteq> Some (key, x))"
  using lanes
proof (induction lanes)
  case Nil
  then show ?case by simp
next
  case (Cons l ls)
  then obtain k v e u where E: "E (base + l) = Some (k, v, e, u)" by auto
  have less: "base + l < length (tb_slots T)" by (rule backedD(3) [OF read(2) E])
  show ?case
    using Cons E less read_entry(2) [OF read E] read_fields(1) [OF read(2) E]
    by (cases "k = key") (auto simp: found_at_def idx_def elim!: returns_mono split: option.splits)
qed

context probe_target
begin

lemma find_group:
  assumes read: "arena_readable (tb_arena T) M" and rep: "table_rep t T M E m" and cap: "cap_ok (length (tb_ctrl T))"
    and h: "h < ngroups t (tb_ctrl T)" and tag: "tag = tag_of (hash_of (tb_seed T) key)"
  shows "returns (find_lane T key (h * WIDTH t) (mask_lanes t (match_byte t (grp t (tb_ctrl T) h) tag)))
    (\<lambda>r. case r of Some f \<Rightarrow> found_at E key f | None \<Rightarrow> not_in_group t E key h)"
proof -
  note R = table_repD [OF rep] and G = group_at_grp [OF cap h]
  let ?lanes = "mask_lanes t (match_byte t (grp t (tb_ctrl T) h) tag)"
  have "E (h * WIDTH t + l) \<noteq> None" if "l \<in> set ?lanes" for l
  proof -
    have l: "l < WIDTH t" "is_full (grp t (tb_ctrl T) h ! l)" using tag_sound [OF G(2) _ that] tag by simp_all
    then show ?thesis unfolding layoutD(3) [OF R(1)] using nth_grp(1,2) [OF cap h l(1)] by simp
  qed
  moreover have "not_in_group t E key h"
    if none: "\<forall>l\<in>set ?lanes. \<forall>x. E (h * WIDTH t + l) \<noteq> Some (key, x)"
    unfolding not_in_group_def
  proof (intro allI impI notI)
    fix i x assume i: "i div WIDTH t = h" "E i = Some (key, x)"
    have less: "i < length (tb_ctrl T)" and "tb_ctrl T ! i = tag" using layoutD(4,7) [OF R(1)] i(2) tag by auto
    then have "i mod WIDTH t \<in> set ?lanes"
      using lane_of(2,3) [OF cap less] i(1) by (intro tag_complete [OF G(2)]) auto
    moreover have "h * WIDTH t + i mod WIDTH t = i" using i(1) div_mult_mod_eq by blast
    ultimately show False using none i(2) by metis
  qed
  ultimately show ?thesis
    using find_lane_spec [OF read R(3), of ?lanes "h * WIDTH t" key]
    by (auto elim!: returns_mono split: option.splits)
qed

lemma find_loop_from:
  assumes read: "arena_readable (tb_arena T) M" and rep: "table_rep t T M E m" and cap: "cap_ok (length (tb_ctrl T))"
    and g: "g < ngroups t (tb_ctrl T)" and tag: "tag = tag_of (hash_of (tb_seed T) key)"
    and J: "EMPTY \<in> set (grp t (tb_ctrl T) (probe (ngroups t (tb_ctrl T)) g J))"
      "\<And>j. j < J \<Longrightarrow> EMPTY \<notin> set (grp t (tb_ctrl T) (probe (ngroups t (tb_ctrl T)) g j))"
  shows "j \<le> J \<Longrightarrow> returns (find_loop t T key tag (ngroups t (tb_ctrl T) - Suc 0) (probe (ngroups t (tb_ctrl T)) g j) (Suc j))
    (\<lambda>r. case r of
       Some f \<Rightarrow> found_at E key f
     | None \<Rightarrow> \<forall>j'. j \<le> j' \<and> j' \<le> J \<longrightarrow> not_in_group t E key (probe (ngroups t (tb_ctrl T)) g j'))"
proof (induction "J - j" arbitrary: j)
  case (0 j)
  then have j: "j = J" by simp
  let ?h = "probe (ngroups t (tb_ctrl T)) g J"
  have h: "?h < ngroups t (tb_ctrl T)" by (rule probe_less [OF g])
  have "mask_any (match_empty t (grp t (tb_ctrl T) ?h))"
    using any_empty [OF group_at_grp(2) [OF cap h] grp_ctrl_ok [OF layoutD(1) [OF table_repD(1) [OF rep]]]] J(1) by simp
  then show ?case
    using find_group [OF read rep cap h tag] group_at_grp(1) [OF cap h]
    by (subst find_loop.simps) (auto simp: j elim!: returns_mono split: option.splits)
next
  case (Suc d)
  then have less: "j < J" by simp
  let ?n = "ngroups t (tb_ctrl T)"
  let ?h = "probe ?n g j"
  have h: "?h < ?n" by (rule probe_less [OF g])
  have none: "\<not> mask_any (match_empty t (grp t (tb_ctrl T) ?h))"
    using any_empty [OF group_at_grp(2) [OF cap h] grp_ctrl_ok [OF layoutD(1) [OF table_repD(1) [OF rep]]]] J(2) [OF less] by simp
  have IH: "returns (find_loop t T key tag (?n - Suc 0) (probe ?n g (Suc j)) (Suc (Suc j)))
    (\<lambda>r. case r of Some f \<Rightarrow> found_at E key f
     | None \<Rightarrow> \<forall>j'. Suc j \<le> j' \<and> j' \<le> J \<longrightarrow> not_in_group t E key (probe ?n g j'))"
    by (rule Suc(1)) (use Suc(2) less in simp_all)
  have step: "\<forall>j'. j \<le> j' \<and> j' \<le> J \<longrightarrow> not_in_group t E key (probe ?n g j')"
    if "not_in_group t E key ?h" "\<forall>j'. Suc j \<le> j' \<and> j' \<le> J \<longrightarrow> not_in_group t E key (probe ?n g j')"
    using that by (metis Suc_leI le_neq_implies_less)
  have rest: "returns (find_loop t T key tag (?n - Suc 0) ((?h + Suc j) AND (?n - Suc 0)) (Suc (Suc j)))
      (\<lambda>r. case r of Some f \<Rightarrow> found_at E key f
       | None \<Rightarrow> \<forall>j'. j \<le> j' \<and> j' \<le> J \<longrightarrow> not_in_group t E key (probe ?n g j'))"
    if "not_in_group t E key ?h"
    unfolding step_probe [OF cap]
  proof (rule returns_mono [OF IH])
    fix r assume "case r of Some f \<Rightarrow> found_at E key f
      | None \<Rightarrow> \<forall>j'. Suc j \<le> j' \<and> j' \<le> J \<longrightarrow> not_in_group t E key (probe ?n g j')"
    then show "case r of Some f \<Rightarrow> found_at E key f
      | None \<Rightarrow> \<forall>j'. j \<le> j' \<and> j' \<le> J \<longrightarrow> not_in_group t E key (probe ?n g j')"
      using step [OF that] by (cases r) simp_all
  qed
  show ?case
    using find_group [OF read rep cap h tag] group_at_grp(1) [OF cap h] none rest
    by (subst find_loop.simps) (auto elim!: returns_mono split: option.splits)
qed

lemma find_spec:
  assumes read: "arena_readable (tb_arena T) M" and rep: "table_rep t T M E m"
  shows "returns (find t T key (hash_of (tb_seed T) key))
    (\<lambda>r. case r of Some f \<Rightarrow> found_at E key f | None \<Rightarrow> m key = None)"
proof (cases "tb_slots T = []")
  case True
  note R = table_repD [OF rep]
  have "tb_ctrl T = []" using True R(2) by auto
  then have "m key = None" using contents_None [OF R(4)] layoutD(7) [OF R(1)] by fastforce
  then show ?thesis using True by (simp add: find_def)
next
  case False
  note R = table_repD [OF rep] and cap = rep_has_empty(2) [OF rep False]
  let ?n = "ngroups t (tb_ctrl T)" and ?hash = "hash_of (tb_seed T) key"
  let ?g = "group_of ?hash (?n - 1)"
  have n: "groups t T = ?n" "0 < ?n" using R(2) ngroups_facts(3) [OF cap] by (simp_all add: groups_def ngroups_def)
  have g: "?g < ?n" "?g = home t (tb_seed T) (length (tb_ctrl T)) key"
    using group_of_le [of ?hash "?n - 1"] n(2) by (simp_all add: home_def ngroups_def)
  obtain J where J: "EMPTY \<in> set (grp t (tb_ctrl T) (probe ?n ?g J))"
      "\<And>j. j < J \<Longrightarrow> EMPTY \<notin> set (grp t (tb_ctrl T) (probe ?n ?g j))"
    using walk_reaches [OF cap g(1) rep_has_empty(1) [OF rep False]]
      exists_least_iff [of "\<lambda>j. EMPTY \<in> set (grp t (tb_ctrl T) (probe ?n ?g j))"] by auto
  have "m key = None" if none: "\<forall>j'. 0 \<le> j' \<and> j' \<le> J \<longrightarrow> not_in_group t E key (probe ?n ?g j')"
  proof -
    have "E i \<noteq> Some (key, x)" for i x
    proof
      assume i: "E i = Some (key, x)"
      then obtain j where j: "probe ?n ?g j = i div WIDTH t" "\<forall>j'<j. EMPTY \<notin> set (grp t (tb_ctrl T) (probe ?n ?g j'))"
        using layoutD(5) [OF R(1) i] g(2) by (auto simp: reach_def)
      then have "j \<le> J" using J(1) by (meson not_le)
      then show False using none i j(1) by (metis le0 not_in_group_def)
    qed
    then show ?thesis using contents_None [OF R(4)] by blast
  qed
  moreover have "returns (find_loop t T key (tag_of ?hash) (?n - 1) ?g 1) (\<lambda>r. case r of Some f \<Rightarrow> found_at E key f
     | None \<Rightarrow> \<forall>j'. 0 \<le> j' \<and> j' \<le> J \<longrightarrow> not_in_group t E key (probe ?n ?g j'))"
    using find_loop_from [OF read rep cap g(1) _ J, of "tag_of ?hash" key 0]
    by (auto elim!: returns_mono split: option.splits)
  ultimately show ?thesis
    using False n by (auto simp: find_def usub_def elim!: returns_mono split: option.splits)
qed

end

section \<open>How the parts of the invariant change\<close>

lemma timed_upd:
  assumes "finite (dom m)"
  shows "card (timed (m(k \<mapsto> (v, e, u)))) = card (timed (m(k := None))) + of_bool (e \<noteq> None)"
proof -
  have fin: "finite (timed (m(k := None)))"
    by (rule finite_subset [OF timed_subset]) (use assms in simp)
  have "timed (m(k \<mapsto> (v, e, u))) = (if e = None then {} else {k}) \<union> timed (m(k := None))"
    by (auto simp: timed_def split: if_splits)
  moreover have "k \<notin> timed (m(k := None))" by (simp add: timed_def)
  ultimately show ?thesis using fin by auto
qed

lemma timed_delete:
  assumes "finite (dom m)" "m k = Some (v, e, u)"
  shows "card (timed m) = card (timed (m(k := None))) + of_bool (e \<noteq> None)"
proof -
  have "m(k \<mapsto> (v, e, u)) = m" using assms(2) by auto
  then show ?thesis using timed_upd [OF assms(1), of k v e u] by simp
qed

lemma retime_eq:
  assumes "tb_timed T = n + of_bool was"
  shows "retime T was now = Some (T\<lparr> tb_timed := n + of_bool now \<rparr>)"
  using assms by (cases was; cases now) (auto simp: retime_def usub_def)

lemma contents_erase:
  assumes "contents E m" "E at = Some (k, x)" "\<And>i y. E i = Some (k, y) \<Longrightarrow> i = at"
  shows "contents (E(at := None)) (m(k := None))"
proof (rule contentsI)
  show "(m(k := None)) k' = Some y \<longleftrightarrow> (\<exists>i. (E(at := None)) i = Some (k', y))" for k' y
  proof (cases "k' = k")
    case True
    then show ?thesis using assms(3) [of _ y] by auto
  next
    case False
    have "(E(at := None)) i = Some (k', y) \<longleftrightarrow> E i = Some (k', y)" for i
      using assms(2) False by auto
    then show ?thesis using contents_iff [OF assms(1), of k' y] False by simp
  qed
qed

lemma contents_put:
  assumes "contents E m" "\<And>i y. E i = Some (k, y) \<Longrightarrow> i = at" "\<And>k' y. E at = Some (k', y) \<Longrightarrow> k' = k"
  shows "contents (E(at \<mapsto> (k, x))) (m(k \<mapsto> x))"
proof (rule contentsI)
  show "(m(k \<mapsto> x)) k' = Some y \<longleftrightarrow> (\<exists>i. (E(at \<mapsto> (k, x))) i = Some (k', y))" for k' y
  proof (cases "k' = k")
    case True
    then show ?thesis using assms(2) [of _ y] by (auto split: if_splits)
  next
    case False
    have "(E(at \<mapsto> (k, x))) i = Some (k', y) \<longleftrightarrow> E i = Some (k', y)" for i
      using assms(3) [of k' y] False by auto
    then show ?thesis using contents_iff [OF assms(1), of k' y] False by simp
  qed
qed

lemma backedI:
  assumes "\<And>i k v e u. E i = Some (k, v, e, u) \<Longrightarrow>
      fits (length k) \<and> fits (length v) \<and> i < length slots \<and> M (slots ! i) = Some (entry_bytes k v e u)"
    "\<And>i j x y. E i = Some x \<Longrightarrow> E j = Some y \<Longrightarrow> slots ! i = slots ! j \<Longrightarrow> i = j"
    "dom M = (\<lambda>i. slots ! i) ` dom E"
  shows "backed M slots E"
  unfolding backed_def using assms by blast

lemma backed_ref_eq:
  assumes "backed M slots E" "E at = Some x" "E i = Some y"
  shows "slots ! i = slots ! at \<longleftrightarrow> i = at"
  using backedD(5) [OF assms(1,3,2)] by auto

lemma backed_erase:
  assumes B: "backed M slots E" and at: "E at = Some kx"
  shows "backed (M(slots ! at := None)) (slots[at := r]) (E(at := None))"
proof (rule backedI)
  fix i k v e u assume i: "(E(at := None)) i = Some (k, v, e, u)"
  then have E: "i \<noteq> at" "E i = Some (k, v, e, u)" by (auto split: if_splits)
  show "fits (length k) \<and> fits (length v) \<and> i < length (slots[at := r]) \<and>
      (M(slots ! at := None)) (slots[at := r] ! i) = Some (entry_bytes k v e u)"
    using backedD(1-4) [OF B E(2)] backed_ref_eq [OF B at E(2)] E(1) by simp
next
  fix i j x y assume "(E(at := None)) i = Some x" "(E(at := None)) j = Some y" "slots[at := r] ! i = slots[at := r] ! j"
  then show "i = j" using backedD(5) [OF B, of i x j y] by (auto split: if_splits)
next
  have "(\<lambda>i. slots[at := r] ! i) ` dom (E(at := None)) = (\<lambda>i. slots ! i) ` (dom E - {at})"
    by (rule image_cong) auto
  also have "\<dots> = (\<lambda>i. slots ! i) ` dom E - {slots ! at}"
    using backedD(5) [OF B] at by fastforce
  finally show "dom (M(slots ! at := None)) = (\<lambda>i. slots[at := r] ! i) ` dom (E(at := None))"
    using backedD(6) [OF B] by simp
qed

lemma backed_insert:
  assumes B: "backed M slots E" and at: "E at = None" "at < length slots" and r: "M r = None"
    and fits: "fits (length k)" "fits (length v)"
  shows "backed (M(r \<mapsto> entry_bytes k v e u)) (slots[at := r]) (E(at \<mapsto> (k, v, e, u)))"
proof (rule backedI)
  have old: "slots ! i \<noteq> r" if "E i = Some x" for i x
    using backedD(4) [OF B, of i] that r by (cases x) auto
  fix i k' v' e' u' assume i: "(E(at \<mapsto> (k, v, e, u))) i = Some (k', v', e', u')"
  show "fits (length k') \<and> fits (length v') \<and> i < length (slots[at := r]) \<and>
      (M(r \<mapsto> entry_bytes k v e u)) (slots[at := r] ! i) = Some (entry_bytes k' v' e' u')"
    using i at fits backedD(1,2,4) [OF B, of i k' v' e' u'] backedD(3) [OF B, of i] old [of i] by (auto split: if_splits)
next
  have old: "slots ! i \<noteq> r" if "E i = Some x" for i x
    using backedD(4) [OF B, of i] that r by (cases x) auto
  fix i j x y assume "(E(at \<mapsto> (k, v, e, u))) i = Some x" "(E(at \<mapsto> (k, v, e, u))) j = Some y"
    "slots[at := r] ! i = slots[at := r] ! j"
  then show "i = j" using backedD(5) [OF B, of i x j y] at(2) old [of i x] old [of j y] by (auto split: if_splits)
next
  have "(\<lambda>i. slots[at := r] ! i) ` dom E = (\<lambda>i. slots ! i) ` dom E" using at(1) by (intro image_cong) (auto, metis nth_list_update_neq option.distinct(1))
  then show "dom (M(r \<mapsto> entry_bytes k v e u)) = (\<lambda>i. slots[at := r] ! i) ` dom (E(at \<mapsto> (k, v, e, u)))"
    using backedD(6) [OF B] at(2) by simp
qed

lemma backed_move:
  assumes B: "backed M slots E" and at: "E at = Some kx" and r: "M r = None" and fits: "fits (length k)" "fits (length v)"
  shows "backed (M(slots ! at := None, r \<mapsto> entry_bytes k v e u)) (slots[at := r]) (E(at \<mapsto> (k, v, e, u)))"
proof -
  have "at < length slots" by (rule backedD(3) [OF B at])
  then show ?thesis
    using backed_insert [OF backed_erase [OF B at, of r], of at r k v e u] r fits by simp
qed

lemma backed_write:
  assumes B: "backed M slots E" and at: "E at = Some kx" and fits: "fits (length k)" "fits (length v)"
  shows "backed (M(slots ! at \<mapsto> entry_bytes k v e u)) slots (E(at \<mapsto> (k, v, e, u)))"
proof -
  have "at < length slots" by (rule backedD(3) [OF B at])
  then show ?thesis
    using backed_insert [OF backed_erase [OF B at, of "slots ! at"], of at "slots ! at" k v e u] fits by simp
qed

section \<open>Erasing\<close>

context probe_target
begin

lemma erase_spec:
  assumes A: "arena_holds p (tb_arena T) M" and rep: "table_rep t T M E m" and at: "E at = Some (k, v, e, u)"
  shows "returns (erase t T at) (\<lambda>T'. (\<exists>M'. arena_holds p (tb_arena T') M' \<and> table_rep t T' M' (E(at := None)) (m(k := None))) \<and>
    tb_seed T' = tb_seed T \<and> length (tb_ctrl T') = length (tb_ctrl T))"
proof -
  note R = table_repD [OF rep] and C = countedD [OF table_repD(5) [OF rep]]
  note read = read_entry [OF ar.holds_readable [OF A] R(3) at]
  have full: "at < length (tb_ctrl T)" "is_full (tb_ctrl T ! at)" using layoutD(7) [OF R(1) at] by auto
  then have ne: "tb_slots T \<noteq> []" "tb_ctrl T \<noteq> []" "tb_ctrl T ! at \<noteq> DELETED" using R(2) markers(2) by auto
  note cap = rep_has_empty(2) [OF rep ne(1)] and L = lane_of [OF rep_has_empty(2) [OF rep ne(1)] full(1)]
  let ?g = "grp t (tb_ctrl T) (at div WIDTH t)"
  have base: "at - at mod WIDTH t = at div WIDTH t * WIDTH t" by (metis minus_mod_eq_div_mult)
  have any: "mask_any (match_empty t ?g) \<longleftrightarrow> EMPTY \<in> set ?g"
    by (rule any_empty [OF group_at_grp(2) [OF cap L(1)] grp_ctrl_ok [OF layoutD(1) [OF R(1)]]])
  have Mat: "M (tb_slots T ! at) = Some (entry_bytes k v e u)" by (rule backedD(4) [OF R(3) at])
  obtain A' where A': "arena_free (tb_arena T) (tb_slots T ! at) (head_size (entry_head k v e u)) = Some A'"
      "arena_holds p A' (M(tb_slots T ! at := None))"
    using ar.free_law [OF A Mat] read(5) by (auto elim!: returnsE)
  have mk: "m k = Some (v, e, u)" by (rule contentsD [OF R(4) at])
  have fin: "finite (dom m)" by (rule card_contents(1) [OF R(1,4)])
  then have pos: "0 < tb_len T" using C(1) mk by (auto simp: card_gt_0_iff)
  define b where "b = (if EMPTY \<in> set ?g then EMPTY else DELETED)"
  define T' where "T' = T\<lparr> tb_ctrl := (tb_ctrl T)[at := b],
      tb_growth_left := tb_growth_left T + of_bool (b = EMPTY), tb_tombstones := tb_tombstones T + of_bool (b = DELETED),
      tb_slots := (tb_slots T)[at := NONE], tb_arena := A', tb_len := tb_len T - 1, tb_timed := card (timed (m(k := None))) \<rparr>"
  have b: "b = DELETED \<or> b = EMPTY \<and> EMPTY \<in> set ?g" "b = EMPTY \<longleftrightarrow> b \<noteq> DELETED" "b = EMPTY \<longleftrightarrow> EMPTY \<in> set ?g"
    using markers(3) by (auto simp: b_def)
  have timed: "tb_timed T = card (timed (m(k := None))) + of_bool (e \<noteq> None)"
    using C(2) timed_delete [OF fin mk] by simp
  have "erase t T at = Some T'"
  proof -
    have *: "retime (T\<lparr> tb_ctrl := (tb_ctrl T)[at := b],
      tb_growth_left := tb_growth_left T + of_bool (b = EMPTY), tb_tombstones := tb_tombstones T + of_bool (b = DELETED),
      tb_slots := (tb_slots T)[at := NONE], tb_arena := A', tb_len := tb_len T - 1 \<rparr>) (e \<noteq> None) False = Some T'"
      by (subst retime_eq [where n = "card (timed (m(k := None)))"]) (simp_all add: timed T'_def)
    show ?thesis
      using full(1) R(2) read(1) A'(1) base any group_at_grp(1) [OF cap L(1)] pos b *
      by (simp add: erase_def idx_def set_idx_def usub_def b_def split: if_splits)
  qed
  moreover have "table_rep t T' (M(tb_slots T ! at := None)) (E(at := None)) (m(k := None))"
    unfolding table_rep_def
  proof (intro conjI)
    show "layout t (tb_seed T') (tb_ctrl T') (E(at := None))"
      using layout_erase [OF R(1) full(1) b(1)] by (simp add: T'_def)
    show "length (tb_slots T') = length (tb_ctrl T')" using R(2) by (simp add: T'_def)
    show "backed (M(tb_slots T ! at := None)) (tb_slots T') (E(at := None))"
      using backed_erase [OF R(3) at] by (simp add: T'_def)
    show "contents (E(at := None)) (m(k := None))"
      by (rule contents_erase [OF R(4) at layoutD(6) [OF R(1) _ at]])
    have "length (filter (\<lambda>b. b = DELETED) ((tb_ctrl T)[at := b])) = tb_tombstones T + of_bool (b = DELETED)"
      using count_update [OF full(1), of "\<lambda>b. b = DELETED" b] C(3) ne(3) by simp
    moreover have "card (dom (m(k := None))) = tb_len T - 1" using C(1) mk fin by (simp add: card_Diff_singleton domI)
    ultimately show "counted T' (m(k := None))"
      using C pos b(2) by (simp add: counted_def T'_def)
  qed
  ultimately show ?thesis using A'(2) by (auto simp: T'_def)
qed

end

section \<open>Looking up\<close>

definition expired :: "u32 option \<Rightarrow> u32 \<Rightarrow> bool" where
  "expired e now \<longleftrightarrow> (case e of Some when \<Rightarrow> when \<le> now | None \<Rightarrow> False)"

text \<open>Reading a key drops it if its time has come.\<close>

definition purge :: "u32 \<Rightarrow> bytes \<Rightarrow> cache \<Rightarrow> cache" where
  "purge now key m =
     (case m key of
        Some (v, e, u) \<Rightarrow> if expired e now then m(key := None) else m
      | None \<Rightarrow> m)"

definition rep_holds :: "Platform \<Rightarrow> target \<Rightarrow> Table \<Rightarrow> blocks \<Rightarrow> placed \<Rightarrow> cache \<Rightarrow> bool" where
  "rep_holds p t T M E m \<longleftrightarrow> arena_holds p (tb_arena T) M \<and> table_rep t T M E m"

lemma table_inv_alt: "table_inv p t T m \<longleftrightarrow> (\<exists>M E. rep_holds p t T M E m)"
  by (simp add: table_inv_def rep_holds_def)

lemma rep_holdsD:
  assumes "rep_holds p t T M E m"
  shows "arena_holds p (tb_arena T) M" "arena_readable (tb_arena T) M" "table_rep t T M E m"
  using assms ar.holds_readable by (auto simp: rep_holds_def)

lemma expired_when: "(case e of Some when \<Rightarrow> if when \<le> now then a else b | None \<Rightarrow> b) = (if expired e now then a else b)"
  by (simp add: expired_def split: option.splits)

definition live_post :: "Platform \<Rightarrow> target \<Rightarrow> u64 \<Rightarrow> bytes \<Rightarrow> cache \<Rightarrow> (nat \<times> Head \<times> Ref) option \<times> Table \<Rightarrow> bool" where
  "live_post p t seed key m' = (\<lambda>(r, T'). tb_seed T' = seed \<and> (\<exists>M E. rep_holds p t T' M E m' \<and>
     (case r of
        None \<Rightarrow> m' key = None
      | Some (at, h, entry) \<Rightarrow> \<exists>v e u. E at = Some (key, v, e, u) \<and> h = entry_head key v e u \<and> entry = tb_slots T' ! at)))"

context probe_target
begin

lemma live_slot_spec:
  assumes inv: "rep_holds p t T M E m"
  shows "returns (live_slot t T key (hash_of (tb_seed T) key) now) (live_post p t (tb_seed T) key (purge now key m))"
proof -
  note H = rep_holdsD [OF inv]
  note R = table_repD [OF H(3)]
  have "live_post p t (tb_seed T) key (purge now key m) (None, T)" if "m key = None"
    using that inv by (auto simp: live_post_def purge_def)
  moreover have "returns (do {
        entry \<leftarrow> idx (tb_slots T) at;
        e \<leftarrow> expiry_of T entry h;
        (case e of
           Some when \<Rightarrow> if when \<le> now then do { T \<leftarrow> erase t T at; Some (None, T) } else Some (Some (at, h, entry), T)
         | None \<Rightarrow> Some (Some (at, h, entry), T)) }) (live_post p t (tb_seed T) key (purge now key m))"
    if found: "found_at E key (at, h)" for at h
  proof -
    obtain v e u where E: "E at = Some (key, v, e, u)" and h: "h = entry_head key v e u"
      using found by (auto simp: found_at_def)
    have mk: "m key = Some (v, e, u)" by (rule contentsD [OF R(4) E])
    have less: "at < length (tb_slots T)" by (rule backedD(3) [OF R(3) E])
    have "returns (erase t T at) (\<lambda>T'. live_post p t (tb_seed T) key (purge now key m) (None, T'))" if "expired e now"
      using erase_spec [OF H(1,3) E] mk that
      by (auto elim!: returns_mono simp: live_post_def purge_def rep_holds_def)
    moreover have "live_post p t (tb_seed T) key (purge now key m) (Some (at, h, tb_slots T ! at), T)" if "\<not> expired e now"
      using inv E h mk that by (simp add: live_post_def purge_def) blast
    ultimately show ?thesis
      using less read_entry(3) [OF H(2) R(3) E] by (simp add: idx_def h expired_when)
  qed
  moreover obtain r where r: "find t T key (hash_of (tb_seed T) key) = Some r"
      "case r of Some f \<Rightarrow> found_at E key f | None \<Rightarrow> m key = None"
    using find_spec [OF H(2,3), of key] by (auto elim: returnsE)
  ultimately show ?thesis
    unfolding live_slot_def r(1) by (cases r) (simp_all add: case_prod_beta)
qed

lemma get_spec:
  assumes inv: "rep_holds p t T M E m"
  shows "returns (table_get t T key (hash_of (tb_seed T) key) now) (\<lambda>(r, T').
    table_inv p t T' (purge now key m) \<and> tb_seed T' = tb_seed T \<and> r = map_option fst (purge now key m key))"
proof -
  let ?m = "purge now key m"
  have "returns (case r of None \<Rightarrow> Some (None, T')
      | Some (at, h, entry) \<Rightarrow> do {
          bs \<leftarrow> arena_get (tb_arena T') entry (head_size h);
          v \<leftarrow> head_value h bs;
          Some (Some v, T') }) (\<lambda>(r, T'). table_inv p t T' ?m \<and> tb_seed T' = tb_seed T \<and> r = map_option fst (?m key))"
    if post: "live_post p t (tb_seed T) key ?m (r, T')" for r T'
  proof (cases r)
    case None
    then show ?thesis using post by (auto simp: live_post_def table_inv_alt)
  next
    case (Some ahe)
    obtain at h entry where ahe: "ahe = (at, h, entry)" by (cases ahe)
    with post Some obtain M' E' v e u where r: "rep_holds p t T' M' E' ?m" "E' at = Some (key, v, e, u)"
        "h = entry_head key v e u" "entry = tb_slots T' ! at" "tb_seed T' = tb_seed T"
      by (auto simp: live_post_def)
    note H = rep_holdsD [OF r(1)] and R = table_repD [OF rep_holdsD(3) [OF r(1)]]
    show ?thesis
      using Some ahe r read_entry(4) [OF H(2) R(3) r(2)] read_fields(2) [OF R(3) r(2)] contentsD [OF R(4) r(2)]
      by (auto simp: table_inv_alt)
  qed
  then show ?thesis
    unfolding table_get_def using live_slot_spec [OF inv, of key now] by (auto elim!: returns_mono)
qed

lemma view_spec:
  assumes inv: "rep_holds p t T M E m"
  shows "returns (table_view t T key (hash_of (tb_seed T) key) now) (\<lambda>(r, T').
    table_inv p t T' (purge now key m) \<and> tb_seed T' = tb_seed T \<and>
    r = map_option (\<lambda>(v, e, u). \<lparr> view_key = key, view_value = v, view_expiry = e, view_user_flags = u \<rparr>) (purge now key m key))"
proof -
  let ?m = "purge now key m"
  have "returns (case r of None \<Rightarrow> Some (None, T')
      | Some (at, h, entry) \<Rightarrow> do {
          bs \<leftarrow> arena_get (tb_arena T') entry (head_size h);
          v \<leftarrow> head_view h bs;
          Some (Some v, T') }) (\<lambda>(r, T'). table_inv p t T' ?m \<and> tb_seed T' = tb_seed T \<and>
      r = map_option (\<lambda>(v, e, u). \<lparr> view_key = key, view_value = v, view_expiry = e, view_user_flags = u \<rparr>) (?m key))"
    if post: "live_post p t (tb_seed T) key ?m (r, T')" for r T'
  proof (cases r)
    case None
    then show ?thesis using post by (auto simp: live_post_def table_inv_alt)
  next
    case (Some ahe)
    obtain at h entry where ahe: "ahe = (at, h, entry)" by (cases ahe)
    with post Some obtain M' E' v e u where r: "rep_holds p t T' M' E' ?m" "E' at = Some (key, v, e, u)"
        "h = entry_head key v e u" "entry = tb_slots T' ! at" "tb_seed T' = tb_seed T"
      by (auto simp: live_post_def)
    note H = rep_holdsD [OF r(1)] and R = table_repD [OF rep_holdsD(3) [OF r(1)]]
    show ?thesis
      using Some ahe r read_entry(4) [OF H(2) R(3) r(2)] read_fields [OF R(3) r(2)] contentsD [OF R(4) r(2)]
      by (auto simp: table_inv_alt head_view_def)
  qed
  then show ?thesis
    unfolding table_view_def using live_slot_spec [OF inv, of key now] by (auto elim!: returns_mono)
qed

lemma contains_spec:
  assumes inv: "rep_holds p t T M E m"
  shows "returns (table_contains t T key (hash_of (tb_seed T) key) now) (\<lambda>(r, T').
    table_inv p t T' (purge now key m) \<and> tb_seed T' = tb_seed T \<and> r = (purge now key m key \<noteq> None))"
proof -
  have "table_inv p t T' (purge now key m) \<and> tb_seed T' = tb_seed T \<and> (r \<noteq> None) = (purge now key m key \<noteq> None)"
    if "live_post p t (tb_seed T) key (purge now key m) (r, T')" for r T'
    using that contentsD [OF table_repD(4) [OF rep_holdsD(3)]]
    by (cases r) (fastforce simp: live_post_def table_inv_alt)+
  then show ?thesis
    unfolding table_contains_def using live_slot_spec [OF inv, of key now] by (auto elim!: returns_mono)
qed

lemma remove_spec:
  assumes inv: "rep_holds p t T M E m"
  shows "returns (table_remove t T key (hash_of (tb_seed T) key)) (\<lambda>(r, T').
    table_inv p t T' (m(key := None)) \<and> tb_seed T' = tb_seed T \<and> r = (m key \<noteq> None))"
proof -
  note H = rep_holdsD [OF inv]
  have "returns (erase t T at) (\<lambda>T'. table_inv p t T' (m(key := None)) \<and> tb_seed T' = tb_seed T \<and> m key \<noteq> None)"
    if found: "found_at E key (at, h)" for at h
  proof -
    obtain v e u where E: "E at = Some (key, v, e, u)" using found by (auto simp: found_at_def)
    show ?thesis
      using erase_spec [OF H(1,3) E] contentsD [OF table_repD(4) [OF H(3)] E]
      by (auto elim!: returns_mono simp: table_inv_def)
  qed
  moreover have "m(key := None) = m" if "m key = None" using that by auto
  moreover obtain r where r: "find t T key (hash_of (tb_seed T) key) = Some r"
      "case r of Some f \<Rightarrow> found_at E key f | None \<Rightarrow> m key = None"
    using find_spec [OF H(2,3), of key] by (auto elim: returnsE)
  ultimately show ?thesis
    unfolding table_remove_def r(1) using inv
    by (cases r) (auto simp: table_inv_alt elim!: returns_mono)
qed

end

section \<open>Rebuilding the index\<close>

text \<open>The arrays under construction hold the entries of the slots in \<open>D\<close>, each under its old reference.\<close>

definition rebuilt :: "target \<Rightarrow> Table \<Rightarrow> placed \<Rightarrow> nat \<Rightarrow> nat set \<Rightarrow> bytes \<Rightarrow> u32 list \<Rightarrow> placed \<Rightarrow> bool" where
  "rebuilt t T E n D ctrl slots E' \<longleftrightarrow>
     layout t (tb_seed T) ctrl E' \<and> length ctrl = n \<and> length slots = n \<and> DELETED \<notin> set ctrl \<and>
     (\<forall>j k x. E' j = Some (k, x) \<longrightarrow> (\<exists>i\<in>D. E i = Some (k, x) \<and> slots ! j = tb_slots T ! i)) \<and>
     (\<forall>i\<in>D. \<forall>k x. E i = Some (k, x) \<longrightarrow> (\<exists>j. E' j = Some (k, x)))"

lemma rebuiltD:
  assumes "rebuilt t T E n D ctrl slots E'"
  shows "layout t (tb_seed T) ctrl E'" "length ctrl = n" "length slots = n" "DELETED \<notin> set ctrl"
    "E' j = Some (k, x) \<Longrightarrow> \<exists>i\<in>D. E i = Some (k, x) \<and> slots ! j = tb_slots T ! i"
    "i \<in> D \<Longrightarrow> E i = Some (k, x) \<Longrightarrow> \<exists>j. E' j = Some (k, x)"
  using assms unfolding rebuilt_def by blast+

lemma card_placed_le:
  assumes "layout t seed ctrl E'" "finite (dom m)" "\<And>i k x. E' i = Some (k, x) \<Longrightarrow> m k = Some x"
  shows "card (dom E') \<le> card (dom m)"
proof (rule card_inj_on_le)
  show "inj_on (\<lambda>i. fst (the (E' i))) (dom E')"
  proof (rule inj_onI)
    fix i j assume "i \<in> dom E'" "j \<in> dom E'" "fst (the (E' i)) = fst (the (E' j))"
    then obtain k x y where "E' i = Some (k, x)" "E' j = Some (k, y)" by (cases "the (E' i)"; cases "the (E' j)") auto
    then show "i = j" by (rule layoutD(6) [OF assms(1)])
  qed
  show "(\<lambda>i. fst (the (E' i))) ` dom E' \<subseteq> dom m" using assms(3) by force
qed (rule assms(2))

context probe_target
begin

lemma rehash_loop_spec:
  assumes read: "arena_readable (tb_arena T) M" and rep: "table_rep t T M E m"
    and cap: "cap_ok n" and room: "card (dom m) < n"
  shows "rebuilt t T E n D ctrl slots E' \<Longrightarrow> distinct ats \<Longrightarrow> set ats \<inter> D = {} \<Longrightarrow> set ats \<subseteq> {..<length (tb_ctrl T)} \<Longrightarrow>
    returns (rehash_loop t T (n div WIDTH t - 1) ats ctrl slots)
      (\<lambda>(ctrl', slots'). \<exists>E''. rebuilt t T E n (D \<union> set ats) ctrl' slots' E'')"
proof (induction ats arbitrary: D ctrl slots E')
  case Nil
  then show ?case by auto
next
  case (Cons at ats)
  note R = table_repD [OF rep] and B = rebuiltD [OF Cons.prems(1)]
  have at: "at < length (tb_ctrl T)" "at < length (tb_slots T)" "at \<notin> D" using Cons.prems R(2) by auto
  have D: "insert at D \<union> set ats = D \<union> set (at # ats)" by auto
  have next_ats: "distinct ats" "set ats \<inter> insert at D = {}" "set ats \<subseteq> {..<length (tb_ctrl T)}" using Cons.prems by auto
  show ?case
  proof (cases "is_full (tb_ctrl T ! at)")
    case False
    then have "\<not> (E at \<noteq> None)" unfolding layoutD(3) [OF R(1)] by simp
    then have "rebuilt t T E n (insert at D) ctrl slots E'"
      using Cons.prems(1) unfolding rebuilt_def by auto
    from Cons.IH [OF this next_ats] show ?thesis
      using False at by (simp add: idx_def D [symmetric])
  next
    case True
    then have "E at \<noteq> None" using layoutD(3) [OF R(1), of at] at by simp
    then obtain k v e u where E: "E at = Some (k, v, e, u)" by auto
    have new: "E' i \<noteq> Some (k, x)" for i x
    proof
      assume "E' i = Some (k, x)"
      then obtain j where "j \<in> D" "E j = Some (k, x)" using B(5) by blast
      then show False using layoutD(6) [OF R(1), of j k x at] E at(3) by auto
    qed
    have "m k' = Some x" if "E' i = Some (k', x)" for i k' x using B(5) [OF that] contentsD [OF R(4)] by blast
    then have "card (dom E') < length ctrl"
      using card_placed_le [OF B(1) card_contents(1) [OF R(1,4)]] room B(2) by (meson le_less_trans)
    moreover have "filter (\<lambda>b. b = DELETED) ctrl = []" using B(4) by (auto simp: filter_empty_conv)
    ultimately have empty: "EMPTY \<in> set ctrl"
      using layout_card [OF B(1)] by (intro some_empty [OF layoutD(1) [OF B(1)]]) simp
    have capc: "cap_ok (length ctrl)" using cap B(2) by simp
    let ?g = "home t (tb_seed T) (length ctrl) k"
    have g: "group_of (hash_of (tb_seed T) k) (n div WIDTH t - 1) = ?g" "ngroups t ctrl = n div WIDTH t"
      using B(2) by (simp_all add: home_def ngroups_def)
    obtain put where put: "put_loop t ctrl (n div WIDTH t - 1) ?g 1 = Some put" "put < length ctrl" "ctrl ! put = EMPTY" "reach t ctrl ?g put"
      using put_loop_spec [OF capc layoutD(1) [OF B(1)] home_less [OF capc] empty] g(2) by (auto elim!: returnsE)
    let ?tag = "tag_of (hash_of (tb_seed T) k)"
    have lay: "layout t (tb_seed T) (ctrl[put := ?tag]) (E'(put \<mapsto> (k, v, e, u)))"
      using put markers(1) new by (intro layout_insert [OF B(1)]) auto
    have "DELETED \<notin> set (ctrl[put := ?tag])"
      using B(4) is_full_tag_of markers(2) by (metis insertE set_update_subset_insert subsetD)
    moreover have "\<not> (E' put \<noteq> None)" unfolding layoutD(3) [OF B(1)] using put(3) markers(1) by simp
    then have none: "E' put = None" by blast
    have old: "(E'(put \<mapsto> (k, v, e, u))) j = Some y" "slots[put := r] ! j = slots ! j" if "E' j = Some y" for j y r
    proof -
      have "j \<noteq> put" using that none by auto
      then show "(E'(put \<mapsto> (k, v, e, u))) j = Some y" "slots[put := r] ! j = slots ! j" using that by simp_all
    qed
    have "\<exists>i\<in>insert at D. E i = Some (k', x) \<and> slots[put := tb_slots T ! at] ! j = tb_slots T ! i"
      if "(E'(put \<mapsto> (k, v, e, u))) j = Some (k', x)" for j k' x
      using that B(5) [of j k' x] old(2) [of j "(k', x)"] E put(2) B(2,3) by (cases "j = put") auto
    moreover have "\<exists>j. (E'(put \<mapsto> (k, v, e, u))) j = Some (k', x)" if "i \<in> insert at D" "E i = Some (k', x)" for i k' x
    proof (cases "i = at")
      case True
      then show ?thesis using that(2) E by (intro exI [of _ put]) simp
    next
      case False
      then show ?thesis using that B(6) [of i k' x] old(1) by blast
    qed
    ultimately have "rebuilt t T E n (insert at D) (ctrl[put := ?tag]) (slots[put := tb_slots T ! at]) (E'(put \<mapsto> (k, v, e, u)))"
      unfolding rebuilt_def using lay B(2,3) by (simp only: length_list_update) blast
    from Cons.IH [OF this next_ats] show ?thesis
      using True at E put B(2,3) read_entry(2) [OF read R(3) E] read_fields(1) [OF R(3) E] g(1)
      by (simp add: idx_def set_idx_def D [symmetric])
  qed
qed

end

lemma rebuilt_done:
  assumes rep: "table_rep t T M E m" and B: "rebuilt t T E n D ctrl slots E'" and D: "{..<length (tb_ctrl T)} \<subseteq> D"
  shows "contents E' m" "backed M slots E'"
proof -
  note R = table_repD [OF rep] and B = rebuiltD [OF B]
  have all: "i \<in> D" if "E i = Some kx" for i kx using layoutD(7) [OF R(1) that] D by auto
  show "contents E' m"
  proof (rule contentsI)
    show "m k = Some x \<longleftrightarrow> (\<exists>j. E' j = Some (k, x))" for k x
      using contents_iff [OF R(4), of k x] B(5,6) all by blast
  qed
  have link: "\<exists>i. E i = Some kx \<and> slots ! j = tb_slots T ! i" if "E' j = Some kx" for j kx
    using B(5) [of j "fst kx" "snd kx"] that by auto
  have kept: "\<exists>j. E' j = Some kx \<and> slots ! j = tb_slots T ! i" if h: "E i = Some kx" for i kx
  proof -
    obtain j where j: "E' j = Some (fst kx, snd kx)" using B(6) [of i "fst kx" "snd kx"] all [OF h] h by auto
    then obtain i' where i': "E i' = Some (fst kx, snd kx)" "slots ! j = tb_slots T ! i'" using link by blast
    then have "i' = i" using layoutD(6) [OF R(1), of i' "fst kx" "snd kx" i "snd kx"] h by simp
    then show ?thesis using j i' by (intro exI [of _ j]) simp
  qed
  show "backed M slots E'"
  proof (rule backedI)
    fix j k v e u assume j: "E' j = Some (k, v, e, u)"
    then obtain i where "E i = Some (k, v, e, u)" "slots ! j = tb_slots T ! i" using link by blast
    then show "fits (length k) \<and> fits (length v) \<and> j < length slots \<and> M (slots ! j) = Some (entry_bytes k v e u)"
      using backedD [OF R(3)] layoutD(7) [OF B(1) j] B(2,3) by auto
  next
    fix j j' x y assume j: "E' j = Some x" "E' j' = Some y" "slots ! j = slots ! j'"
    obtain i where i: "E i = Some x" "slots ! j = tb_slots T ! i" using link [OF j(1)] by blast
    obtain i' where i': "E i' = Some y" "slots ! j' = tb_slots T ! i'" using link [OF j(2)] by blast
    have "i = i'" using backedD(5) [OF R(3) i(1) i'(1)] i(2) i'(2) j(3) by simp
    then have "x = y" using i(1) i'(1) by simp
    then show "j = j'" using layoutD(6) [OF B(1), of j "fst x" "snd x" j' "snd x"] j by simp
  next
    show "dom M = (\<lambda>i. slots ! i) ` dom E'"
    proof (intro set_eqI iffI)
      fix r assume "r \<in> dom M"
      then obtain i kx where i: "E i = Some kx" "r = tb_slots T ! i" using backedD(6) [OF R(3)] by (auto simp del: split_paired_Ex)
      obtain j where "E' j = Some kx" "slots ! j = tb_slots T ! i" using kept [OF i(1)] by blast
      then show "r \<in> (\<lambda>i. slots ! i) ` dom E'" using i(2) by (intro image_eqI [of _ _ j] domI) simp_all
    next
      fix r assume "r \<in> (\<lambda>i. slots ! i) ` dom E'"
      then obtain j kx where j: "E' j = Some kx" "r = slots ! j" by (auto simp del: split_paired_Ex)
      obtain i where "E i = Some kx" "slots ! j = tb_slots T ! i" using link [OF j(1)] by blast
      then show "r \<in> dom M" using j(2) unfolding backedD(6) [OF R(3)] by (intro image_eqI [of _ _ i] domI) simp_all
    qed
  qed
qed

lemma next_power_from: "\<exists>k\<ge>j. next_power_from (2 ^ j) n = 2 ^ k \<and> n \<le> 2 ^ k"
proof (induction "2 ^ j :: nat" n arbitrary: j rule: next_power_from.induct)
  case (1 n)
  show ?case
  proof (cases "n \<le> 2 ^ j")
    case True
    then show ?thesis by (subst next_power_from.simps) auto
  next
    case False
    have "\<exists>k\<ge>Suc j. next_power_from (2 ^ Suc j) n = 2 ^ k \<and> n \<le> 2 ^ k"
      using 1 [of "Suc j"] False by simp
    then show ?thesis using False by (subst next_power_from.simps) (auto intro: Suc_leD)
  qed
qed

lemma shrink_capacity:
  "cap_ok (max (next_power_of_two n) MIN_CAPACITY)" "n \<le> max (next_power_of_two n) MIN_CAPACITY"
proof -
  obtain k where k: "next_power_of_two n = 2 ^ k" "n \<le> 2 ^ k"
    using next_power_from [of 0 n] by (auto simp: next_power_of_two_def)
  show "n \<le> max (next_power_of_two n) MIN_CAPACITY" using k by simp
  show "cap_ok (max (next_power_of_two n) MIN_CAPACITY)"
  proof (cases "4 \<le> k")
    case True
    then have "(16 :: nat) \<le> 2 ^ k" using power_increasing [of 4 k "2 :: nat"] by simp
    then show ?thesis using True k(1) by (auto simp: cap_ok_def MIN_CAPACITY_def max_def)
  next
    case False
    then have "(2 :: nat) ^ k \<le> 16" using power_increasing [of k 4 "2 :: nat"] by simp
    then show ?thesis using cap_ok_16 k(1) by (simp add: MIN_CAPACITY_def max_def)
  qed
qed

definition rehashed :: "target \<Rightarrow> Table \<Rightarrow> blocks \<Rightarrow> cache \<Rightarrow> nat \<Rightarrow> Table \<Rightarrow> bool" where
  "rehashed t T M m n T' \<longleftrightarrow> (\<exists>E. table_rep t T' M E m) \<and> tb_arena T' = tb_arena T \<and> tb_seed T' = tb_seed T \<and>
     length (tb_slots T') = n \<and> tb_growth_left T' = n * 7 div 8 - card (dom m)"

context probe_target
begin

lemma rehash_spec:
  assumes read: "arena_readable (tb_arena T) M" and rep: "table_rep t T M E m"
    and cap: "cap_ok n" and room: "card (dom m) \<le> n * 7 div 8"
  shows "returns (rehash t T n) (rehashed t T M m n)"
proof -
  note R = table_repD [OF rep] and C = countedD [OF table_repD(5) [OF rep]]
  have n: "16 \<le> n" by (rule cap_ok_pos [OF cap])
  then have less: "card (dom m) < n" using room by linarith
  have pos: "0 < n div WIDTH t" by (rule cap_ok_groups(3) [OF cap width])
  have start: "rebuilt t T E n {} (replicate n EMPTY) (replicate n NONE) Map.empty"
    using layout_empty [OF cap] markers(3) by (simp add: rebuilt_def)
  have all: "set [0..<length (tb_slots T)] \<subseteq> {..<length (tb_ctrl T)}" using R(2) by auto
  obtain ctrl slots E' where loop: "rehash_loop t T (n div WIDTH t - 1) [0..<length (tb_slots T)] (replicate n EMPTY) (replicate n NONE) = Some (ctrl, slots)"
      and B: "rebuilt t T E n ({} \<union> set [0..<length (tb_slots T)]) ctrl slots E'"
    using rehash_loop_spec [OF read rep cap less start _ _ all] by (auto elim!: returnsE)
  have D: "{..<length (tb_ctrl T)} \<subseteq> {} \<union> set [0..<length (tb_slots T)]" using R(2) by auto
  define T' where "T' = T\<lparr> tb_ctrl := ctrl, tb_slots := slots, tb_tombstones := 0, tb_growth_left := n * 7 div 8 - tb_len T \<rparr>"
  have "rehash t T n = Some T'"
    using loop pos room C(1) by (simp add: rehash_def usub_def LOAD_NUM_def LOAD_DEN_def T'_def)
  moreover have "table_rep t T' M E' m"
  proof -
    have "filter (\<lambda>b. b = DELETED) ctrl = []" using rebuiltD(4) [OF B] by (auto simp: filter_empty_conv)
    then show ?thesis
      using rebuiltD(1-3) [OF B] rebuilt_done [OF rep B D] C(1,2) room
      by (simp add: table_rep_def counted_def T'_def)
  qed
  ultimately show ?thesis using rebuiltD(3) [OF B] C(1) by (auto simp: rehashed_def T'_def)
qed

lemma reserve_spec:
  assumes read: "arena_readable (tb_arena T) M" and rep: "table_rep t T M E m" and full: "tb_growth_left T = 0"
  shows "returns (reserve t T) (\<lambda>T'. (\<exists>E. table_rep t T' M E m) \<and> tb_arena T' = tb_arena T \<and> tb_seed T' = tb_seed T \<and> 0 < tb_growth_left T')"
proof -
  note R = table_repD [OF rep] and C = countedD [OF table_repD(5) [OF rep]]
  define n where "n = (if tb_slots T = [] then 16 else if tb_len T \<le> tb_tombstones T then length (tb_slots T) else length (tb_slots T) * 2)"
  have "cap_ok n \<and> card (dom m) < n * 7 div 8"
  proof (cases "tb_slots T = []")
    case True
    then have "tb_ctrl T = []" using R(2) by auto
    then show ?thesis using True C(1,4) cap_ok_16 by (simp add: n_def)
  next
    case False
    have cap: "cap_ok (length (tb_slots T))" using rep_has_empty(2) [OF rep False] R(2) by simp
    then have "16 \<le> length (tb_slots T)" by (rule cap_ok_pos)
    moreover have "tb_len T + tb_tombstones T = length (tb_slots T) * 7 div 8" using C(4) full R(2) by simp
    ultimately show ?thesis using cap cap_ok_double [OF cap] C(1) False by (auto simp: n_def)
  qed
  then have "returns (rehash t T n) (rehashed t T M m n)" "card (dom m) < n * 7 div 8"
    using rehash_spec [OF read rep] by auto
  then show ?thesis
    by (auto simp: reserve_def n_def MIN_CAPACITY_def rehashed_def elim!: returns_mono split: if_splits)
qed

lemma shrink_spec:
  assumes inv: "rep_holds p t T M E m"
  shows "returns (shrink t T) (\<lambda>(gave, T'). table_inv p t T' m \<and> tb_seed T' = tb_seed T \<and>
    charged_bytes T' \<le> charged_bytes T \<and>
    (gave \<longrightarrow> length (tb_slots T') < length (tb_slots T)) \<and> (\<not> gave \<longrightarrow> T' = T))"
proof -
  note H = rep_holdsD [OF inv]
  let ?n = "max (next_power_of_two (tb_len T * 2)) MIN_CAPACITY"
  have "card (dom m) \<le> ?n * 7 div 8"
    using shrink_capacity(2) [of "tb_len T * 2"] countedD(1) [OF table_repD(5) [OF H(3)]] by linarith
  then have "returns (rehash t T ?n) (rehashed t T M m ?n)" by (rule rehash_spec [OF H(2,3) shrink_capacity(1)])
  moreover have "charged_bytes T' \<le> charged_bytes T" if h: "rehashed t T M m ?n T'" "?n < length (tb_slots T)" for T'
  proof -
    obtain E' where "table_rep t T' M E' m" "tb_arena T' = tb_arena T" "length (tb_slots T') = ?n"
      using h(1) by (auto simp: rehashed_def)
    then show ?thesis
      using h(2) table_repD(2) [of t T' M E' m] table_repD(2) [OF H(3)] by (simp add: charged_bytes_def index_bytes_def)
  qed
  ultimately show ?thesis
    using inv H(1)
    by (auto simp: shrink_def Let_def rehashed_def table_inv_alt rep_holds_def elim!: returns_mono)
qed

end

end
