(* ===== verification/Rugo_Cache.thy ===== *)
theory Rugo_Cache
  imports Rugo_Shard
begin

text \<open>
  The operations of the table that write: \<^verbatim>\<open>set\<close>, \<^verbatim>\<open>expire\<close>, \<^verbatim>\<open>clear\<close>, \<^verbatim>\<open>sweep\<close> and \<^verbatim>\<open>evict_one\<close>, and the
  walk over every entry, each shown to do on the map a table stands for what it promises.
\<close>

section \<open>Replacing an entry\<close>

lemma layout_overwrite:
  assumes lay: "layout t seed ctrl E" and at: "E at = Some (k, x)"
  shows "layout t seed ctrl (E(at \<mapsto> (k, y)))"
  unfolding layout_def
proof (intro conjI allI impI)
  show "list_all ctrl_ok ctrl" "ctrl = [] \<or> cap_ok (length ctrl)" using layoutD(1,2) [OF lay] by auto
  show "((E(at \<mapsto> (k, y))) i \<noteq> None) = (i < length ctrl \<and> is_full (ctrl ! i))" for i
    using layoutD(3) [OF lay, of i] layoutD(3) [OF lay, of at] at by (cases "i = at") auto
  have old: "\<exists>z. E i = Some (k', z)" if "(E(at \<mapsto> (k, y))) i = Some (k', x')" for i k' x'
    using that at by (auto simp del: split_paired_Ex split: if_splits)
  show "ctrl ! i = tag_of (hash_of seed k')" "reach t ctrl (home t seed (length ctrl) k') i"
    if "(E(at \<mapsto> (k, y))) i = Some (k', x')" for i k' x'
    using old [OF that] layoutD(4,5) [OF lay] by blast+
  show "i = j" if "(E(at \<mapsto> (k, y))) i = Some (k', x')" "(E(at \<mapsto> (k, y))) j = Some (k', z)" for i j k' x' z
    using old [OF that(1)] old [OF that(2)] layoutD(6) [OF lay] by blast
qed

lemma rep_overwrite:
  assumes rep: "table_rep t T M E m" and at: "E at = Some (k, v0, e0, u0)"
    and same: "tb_seed T1 = tb_seed T" "tb_ctrl T1 = tb_ctrl T" "length (tb_slots T1) = length (tb_slots T)"
      "tb_len T1 = tb_len T" "tb_tombstones T1 = tb_tombstones T" "tb_growth_left T1 = tb_growth_left T" "tb_timed T1 = tb_timed T"
    and backed: "backed M' (tb_slots T1) (E(at \<mapsto> (k, v, e, u)))"
  shows "returns (retime T1 (e0 \<noteq> None) (e \<noteq> None)) (\<lambda>T'. tb_arena T' = tb_arena T1 \<and> tb_seed T' = tb_seed T \<and>
    table_rep t T' M' (E(at \<mapsto> (k, v, e, u))) (m(k \<mapsto> (v, e, u))))"
proof -
  note R = table_repD [OF rep] and C = countedD [OF table_repD(5) [OF rep]]
  have mk: "m k = Some (v0, e0, u0)" by (rule contentsD [OF R(4) at])
  have fin: "finite (dom m)" by (rule card_contents(1) [OF R(1,4)])
  have timed: "tb_timed T1 = card (timed (m(k := None))) + of_bool (e0 \<noteq> None)"
    using C(2) timed_delete [OF fin mk] same(7) by simp
  have "contents (E(at \<mapsto> (k, v, e, u))) (m(k \<mapsto> (v, e, u)))"
    using layoutD(6) [OF R(1) _ at] at by (intro contents_put [OF R(4)]) auto
  moreover have "insert k (dom m) = dom m" using mk by auto
  ultimately show ?thesis
    unfolding retime_eq [OF timed]
    using backed same R(2) C timed_upd [OF fin, of k v e u] layout_overwrite [OF R(1) at, of "(v, e, u)"]
    by (simp add: table_rep_def counted_def)
qed

text \<open>The new block is written, the old one given back, and the slot points at the new one.\<close>

lemma move_spec:
  assumes A: "arena_holds p (tb_arena T) M" and rep: "table_rep t T M E m" and at: "E at = Some (k, v0, e0, u0)"
    and fits: "fits (length v)" and len: "len = size_of_entry (length k) (length v) (e \<noteq> None) (u \<noteq> None)"
  shows "returns (do {
      (r, A) \<leftarrow> alloc p os (tb_arena T) len;
      (case r of
         Inl e \<Rightarrow> Some (Inl e, T\<lparr> tb_arena := A \<rparr>)
       | Inr new \<Rightarrow> do {
           A \<leftarrow> arena_get_mut A new len (\<lambda>into. entry_write into k v e u);
           A \<leftarrow> arena_free A (tb_slots T ! at) (head_size (entry_head k v0 e0 u0));
           slots \<leftarrow> set_idx (tb_slots T) at new;
           T \<leftarrow> retime (T\<lparr> tb_arena := A, tb_slots := slots \<rparr>) (e0 \<noteq> None) (e \<noteq> None);
           Some (Inr w, T) }) })
    (\<lambda>(r, T'). tb_seed T' = tb_seed T \<and>
       (case r of Inl _ \<Rightarrow> table_readable t T' m | Inr w' \<Rightarrow> w' = w \<and> table_inv p t T' (m(k \<mapsto> (v, e, u)))))"
proof -
  note R = table_repD [OF rep]
  note f = backedD(1) [OF R(3) at] fits
  have bs: "length (entry_bytes k v e u) = len" unfolding len by (rule length_entry_bytes [OF f])
  have less: "at < length (tb_slots T)" by (rule backedD(3) [OF R(3) at])
  have old: "M (tb_slots T ! at) = Some (entry_bytes k v0 e0 u0)" by (rule backedD(4) [OF R(3) at])
  have size: "head_size (entry_head k v0 e0 u0) = length (entry_bytes k v0 e0 u0)"
    by (rule read_entry(5) [OF ar.holds_readable [OF A] R(3) at])
  have "entry_write into k v e u = Some (entry_bytes k v e u)" if "length into = length (entry_bytes k v e u)" for into
    using that bs len by (intro entry_write_eq [OF f]) simp
  note W = ar.alloc_write_free [OF A old, of "entry_bytes k v e u" "\<lambda>into. entry_write into k v e u" os, OF this, unfolded bs, folded size]
  have refused: "table_readable t (T\<lparr> tb_arena := A' \<rparr>) m" if "arena_readable A' M" for A'
    using that rep by (auto simp: table_readable_def table_rep_def counted_def)
  have moved: "returns (retime (T\<lparr> tb_arena := A3, tb_slots := (tb_slots T)[at := new] \<rparr>) (e0 \<noteq> None) (e \<noteq> None))
      (\<lambda>T'. tb_seed T' = tb_seed T \<and> table_inv p t T' (m(k \<mapsto> (v, e, u))))"
    if "M new = None" "arena_holds p A3 (M(tb_slots T ! at := None, new \<mapsto> entry_bytes k v e u))" for new A3
  proof -
    have B: "backed (M(tb_slots T ! at := None, new \<mapsto> entry_bytes k v e u))
        (tb_slots (T\<lparr> tb_arena := A3, tb_slots := (tb_slots T)[at := new] \<rparr>)) (E(at \<mapsto> (k, v, e, u)))"
      using backed_move [OF R(3) at that(1) f] by simp
    show ?thesis
      by (rule returns_mono [OF rep_overwrite [OF rep at _ _ _ _ _ _ _ B]]) (use that in \<open>auto simp: table_inv_def\<close>)
  qed
  show ?thesis
    using W less refused moved
    by (auto simp: set_idx_def case_prod_beta elim!: returns_mono split: sum.splits)
qed

text \<open>A value of the same size is written over the old one.\<close>

lemma in_place_spec:
  assumes A: "arena_holds p (tb_arena T) M" and rep: "table_rep t T M E m" and at: "E at = Some (k, v0, e0, u0)"
    and fits: "fits (length v)" and len: "head_size (entry_head k v0 e0 u0) = size_of_entry (length k) (length v) (e \<noteq> None) (u \<noteq> None)"
  shows "returns (do {
      A \<leftarrow> arena_get_mut (tb_arena T) (tb_slots T ! at) (head_size (entry_head k v0 e0 u0)) (\<lambda>into. entry_write into k v e u);
      retime (T\<lparr> tb_arena := A \<rparr>) (e0 \<noteq> None) (e \<noteq> None) })
    (\<lambda>T'. tb_seed T' = tb_seed T \<and> table_inv p t T' (m(k \<mapsto> (v, e, u))))"
proof -
  note R = table_repD [OF rep]
  note f = backedD(1) [OF R(3) at] fits
  have bs: "length (entry_bytes k v e u) = head_size (entry_head k v0 e0 u0)"
    unfolding len by (rule length_entry_bytes [OF f])
  have old: "M (tb_slots T ! at) = Some (entry_bytes k v0 e0 u0)" by (rule backedD(4) [OF R(3) at])
  have size: "head_size (entry_head k v0 e0 u0) = length (entry_bytes k v0 e0 u0)"
    by (rule read_entry(5) [OF ar.holds_readable [OF A] R(3) at])
  have "entry_write (entry_bytes k v0 e0 u0) k v e u = Some (entry_bytes k v e u)"
    using size len by (intro entry_write_eq [OF f]) simp
  then obtain A' where A': "arena_get_mut (tb_arena T) (tb_slots T ! at) (head_size (entry_head k v0 e0 u0))
        (\<lambda>into. entry_write into k v e u) = Some A'" "arena_holds p A' (M(tb_slots T ! at \<mapsto> entry_bytes k v e u))"
    using ar.get_mut_law [OF A old, of "\<lambda>into. entry_write into k v e u" "entry_bytes k v e u"] bs size
    by (auto elim!: returnsE)
  have B: "backed (M(tb_slots T ! at \<mapsto> entry_bytes k v e u)) (tb_slots (T\<lparr> tb_arena := A' \<rparr>)) (E(at \<mapsto> (k, v, e, u)))"
    using backed_write [OF R(3) at f] by simp
  have "returns (retime (T\<lparr> tb_arena := A' \<rparr>) (e0 \<noteq> None) (e \<noteq> None))
      (\<lambda>T'. tb_seed T' = tb_seed T \<and> table_inv p t T' (m(k \<mapsto> (v, e, u))))"
    by (rule returns_mono [OF rep_overwrite [OF rep at _ _ _ _ _ _ _ B]]) (use A'(2) in \<open>auto simp: table_inv_def\<close>)
  then show ?thesis using A'(1) by simp
qed

section \<open>Inserting an entry\<close>

context probe_target
begin

lemma free_slot_spec:
  assumes rep: "table_rep t T M E m" and ne: "tb_slots T \<noteq> []"
  shows "returns (free_slot t T (hash_of (tb_seed T) key)) (\<lambda>at. at < length (tb_ctrl T) \<and>
    \<not> is_full (tb_ctrl T ! at) \<and> reach t (tb_ctrl T) (home t (tb_seed T) (length (tb_ctrl T)) key) at)"
proof -
  note R = table_repD [OF rep] and cap = rep_has_empty(2) [OF rep ne]
  let ?n = "ngroups t (tb_ctrl T)" and ?hash = "hash_of (tb_seed T) key"
  have n: "groups t T = ?n" "0 < ?n" using R(2) ngroups_facts(3) [OF cap] by (simp_all add: groups_def ngroups_def)
  have g: "group_of ?hash (?n - 1) < ?n" "group_of ?hash (?n - 1) = home t (tb_seed T) (length (tb_ctrl T)) key"
    using group_of_le [of ?hash "?n - 1"] n(2) by (simp_all add: home_def ngroups_def)
  show ?thesis
    using free_slot_loop_spec [OF cap layoutD(1) [OF R(1)] g(1) rep_has_empty(1) [OF rep ne] markers(1)] n g(2)
    by (simp add: free_slot_def usub_def)
qed

lemma insert_at_spec:
  assumes A: "arena_holds p (tb_arena T) (M(new \<mapsto> entry_bytes k v e u))" and rep: "table_rep t T M E m"
    and new: "M new = None" "m k = None" and fits: "fits (length k)" "fits (length v)" and room: "0 < tb_growth_left T"
    and hsh: "hsh = hash_of (tb_seed T) k"
  shows "returns (do {
      at \<leftarrow> free_slot t T hsh;
      c \<leftarrow> idx (tb_ctrl T) at;
      T \<leftarrow> (if c = DELETED
        then do { n \<leftarrow> usub (tb_tombstones T) 1; Some (T\<lparr> tb_tombstones := n \<rparr>) }
        else do { n \<leftarrow> usub (tb_growth_left T) 1; Some (T\<lparr> tb_growth_left := n \<rparr>) });
      ctrl \<leftarrow> set_idx (tb_ctrl T) at (tag_of hsh);
      slots \<leftarrow> set_idx (tb_slots T) at new;
      T \<leftarrow> retime (T\<lparr> tb_ctrl := ctrl, tb_slots := slots, tb_len := tb_len T + 1 \<rparr>) False (e \<noteq> None);
      Some (Inr Inserted, T) })
    (\<lambda>(r, T'). tb_seed T' = tb_seed T \<and> r = Inr Inserted \<and> table_inv p t T' (m(k \<mapsto> (v, e, u))))"
proof -
  note R = table_repD [OF rep] and C = countedD [OF table_repD(5) [OF rep]]
  have ne: "tb_slots T \<noteq> []" using C(4) room R(2) by auto
  obtain at where free: "free_slot t T hsh = Some at" and at: "at < length (tb_ctrl T)" "\<not> is_full (tb_ctrl T ! at)"
      "reach t (tb_ctrl T) (home t (tb_seed T) (length (tb_ctrl T)) k) at"
    using free_slot_spec [OF rep ne, of k] unfolding hsh by (auto elim: returnsE)
  let ?tag = "tag_of hsh" and ?was = "tb_ctrl T ! at"
  have fresh: "E i \<noteq> Some (k, x)" for i x using contents_None [OF R(4)] new(2) by blast
  have gone: "E at = None" using layoutD(3) [OF R(1), of at] at(2) by blast
  have fin: "finite (dom m)" by (rule card_contents(1) [OF R(1,4)])
  define T' where "T' = T\<lparr> tb_tombstones := tb_tombstones T - of_bool (?was = DELETED),
      tb_growth_left := tb_growth_left T - of_bool (?was \<noteq> DELETED), tb_ctrl := (tb_ctrl T)[at := ?tag],
      tb_slots := (tb_slots T)[at := new], tb_len := tb_len T + 1, tb_timed := card (timed m) + of_bool (e \<noteq> None) \<rparr>"
  have tag: "?tag \<noteq> DELETED" using is_full_tag_of markers(2) by metis
  have dels: "length (filter (\<lambda>b. b = DELETED) ((tb_ctrl T)[at := ?tag])) + of_bool (?was = DELETED) = tb_tombstones T"
    using count_update [OF at(1), of "\<lambda>b. b = DELETED" ?tag] C(3) tag by simp
  have m: "m(k := None) = m" using new(2) by auto
  have code: "do {
      c \<leftarrow> idx (tb_ctrl T) at;
      T \<leftarrow> (if c = DELETED
        then do { n \<leftarrow> usub (tb_tombstones T) 1; Some (T\<lparr> tb_tombstones := n \<rparr>) }
        else do { n \<leftarrow> usub (tb_growth_left T) 1; Some (T\<lparr> tb_growth_left := n \<rparr>) });
      ctrl \<leftarrow> set_idx (tb_ctrl T) at ?tag;
      slots \<leftarrow> set_idx (tb_slots T) at new;
      T \<leftarrow> retime (T\<lparr> tb_ctrl := ctrl, tb_slots := slots, tb_len := tb_len T + 1 \<rparr>) False (e \<noteq> None);
      Some (Inr Inserted, T) } = Some (Inr Inserted, T')"
    using at(1) R(2) dels room C(2)
    by (cases "?was = DELETED"; cases T) (auto simp: T'_def idx_def set_idx_def usub_def retime_def)
  have "table_rep t T' (M(new \<mapsto> entry_bytes k v e u)) (E(at \<mapsto> (k, v, e, u))) (m(k \<mapsto> (v, e, u)))"
    unfolding table_rep_def
  proof (intro conjI)
    show "layout t (tb_seed T') (tb_ctrl T') (E(at \<mapsto> (k, v, e, u)))"
      using layout_insert [OF R(1) at fresh] by (simp add: T'_def hsh)
    show "length (tb_slots T') = length (tb_ctrl T')" using R(2) by (simp add: T'_def)
    show "backed (M(new \<mapsto> entry_bytes k v e u)) (tb_slots T') (E(at \<mapsto> (k, v, e, u)))"
      using backed_insert [OF R(3) gone _ new(1) fits] at(1) R(2) by (simp add: T'_def)
    show "contents (E(at \<mapsto> (k, v, e, u))) (m(k \<mapsto> (v, e, u)))"
      using fresh gone by (intro contents_put [OF R(4)]) auto
    have "card (dom (m(k \<mapsto> (v, e, u)))) = tb_len T + 1" using fin new(2) C(1) by (simp add: card_insert_if domIff)
    then show "counted T' (m(k \<mapsto> (v, e, u)))"
      using C dels room timed_upd [OF fin, of k v e u] unfolding m by (auto simp: counted_def T'_def)
  qed
  moreover have "arena_holds p (tb_arena T') (M(new \<mapsto> entry_bytes k v e u))" using A by (simp add: T'_def)
  ultimately have "table_inv p t T' (m(k \<mapsto> (v, e, u)))" unfolding table_inv_def by blast
  moreover have "tb_seed T' = tb_seed T" by (simp add: T'_def)
  ultimately show ?thesis unfolding free bind.bind_lunit code by simp
qed

end

section \<open>Setting a key\<close>

definition set_post :: "target \<Rightarrow> Platform \<Rightarrow> u64 \<Rightarrow> cache \<Rightarrow> bytes \<Rightarrow> stored \<Rightarrow> (Full + Wrote) \<times> Table \<Rightarrow> bool" where
  "set_post t p seed m key x = (\<lambda>(r, T'). tb_seed T' = seed \<and>
     (case r of
        Inl _ \<Rightarrow> table_readable t T' m
      | Inr w \<Rightarrow> table_inv p t T' (m(key \<mapsto> x)) \<and> w = (if m key = None then Inserted else Replaced)))"

context probe_target
begin

lemma set_found:
  assumes inv: "rep_holds p t T M E m" and at: "E at = Some (key, v0, e0, u0)" and fits: "fits (length key)" "fits (length val)"
    and found: "find t T key (hash_of (tb_seed T) key) = Some (Some (at, entry_head key v0 e0 u0))"
  shows "returns (table_set t p os T key val (hash_of (tb_seed T) key) e u) (set_post t p (tb_seed T) m key (val, e, u))"
proof -
  note H = rep_holdsD [OF inv] and R = table_repD [OF rep_holdsD(3) [OF inv]]
  have less: "at < length (tb_slots T)" by (rule backedD(3) [OF R(3) at])
  have mk: "m key = Some (v0, e0, u0)" by (rule contentsD [OF R(4) at])
  show ?thesis
  proof (cases "head_size (entry_head key v0 e0 u0) = size_of_entry (length key) (length val) (e \<noteq> None) (u \<noteq> None)")
    case True
    show ?thesis
      using in_place_spec [OF H(1,3) at fits(2) True] less mk True
      unfolding table_set_def found Let_def
      by (auto simp: idx_def set_post_def elim!: returns_mono)
  next
    case False
    show ?thesis
      using move_spec [OF H(1,3) at fits(2) refl, of os e u Replaced] less mk False
      unfolding table_set_def found Let_def
      by (auto simp: idx_def set_post_def elim!: returns_mono split: sum.splits)
  qed
qed

lemma set_missing:
  assumes inv: "rep_holds p t T M E m" and none: "m key = None" and fits: "fits (length key)" "fits (length val)"
    and found: "find t T key (hash_of (tb_seed T) key) = Some None"
  shows "returns (table_set t p os T key val (hash_of (tb_seed T) key) e u) (set_post t p (tb_seed T) m key (val, e, u))"
proof -
  note H = rep_holdsD [OF inv]
  let ?bs = "entry_bytes key val e u"
  have bs: "length ?bs = size_of_entry (length key) (length val) (e \<noteq> None) (u \<noteq> None)" by (rule length_entry_bytes [OF fits])
  obtain T1 E1 where T1: "(if tb_growth_left T = 0 then reserve t T else Some T) = Some T1"
      "table_rep t T1 M E1 m" "tb_arena T1 = tb_arena T" "tb_seed T1 = tb_seed T" "0 < tb_growth_left T1"
    using reserve_spec [OF H(2,3)] H(3) by (cases "tb_growth_left T = 0") (auto elim: returnsE)
  have A: "arena_holds p (tb_arena T1) M" using H(1) T1(3) by simp
  have "entry_write into key val e u = Some ?bs" if "length into = length ?bs" for into
    using that bs by (intro entry_write_eq [OF fits]) simp
  note W = ar.alloc_write [OF A, of ?bs "\<lambda>into. entry_write into key val e u" os, OF this, unfolded bs]
  have rep: "table_rep t (T1\<lparr> tb_arena := A' \<rparr>) M E1 m" for A'
    using T1(2) by (simp add: table_rep_def counted_def)
  have refused: "table_readable t (T1\<lparr> tb_arena := A' \<rparr>) m" if "arena_readable A' M" for A'
    using that rep unfolding table_readable_def by auto
  note put = insert_at_spec [OF _ rep _ none fits _ refl, simplified, unfolded T1(4)]
  show ?thesis
    using W refused put none T1(4,5)
    unfolding table_set_def found Let_def
    by (fastforce simp: T1(1) set_post_def elim!: returns_mono split: sum.splits)
qed

lemma set_spec:
  assumes inv: "rep_holds p t T M E m" and fits: "fits (length key)" "fits (length val)"
  shows "returns (table_set t p os T key val (hash_of (tb_seed T) key) e u) (set_post t p (tb_seed T) m key (val, e, u))"
proof -
  obtain r where r: "find t T key (hash_of (tb_seed T) key) = Some r"
      "case r of Some f \<Rightarrow> found_at E key f | None \<Rightarrow> m key = None"
    using find_spec [OF rep_holdsD(2,3) [OF inv], of key] by (auto elim: returnsE)
  show ?thesis
  proof (cases r)
    case None
    then show ?thesis using r set_missing [OF inv _ fits] by simp
  next
    case (Some f)
    then obtain at v0 e0 u0 where "E at = Some (key, v0, e0, u0)" "f = (at, entry_head key v0 e0 u0)"
      using r(2) by (cases f) (auto simp: found_at_def)
    then show ?thesis using r(1) Some set_found [OF inv _ fits] by simp
  qed
qed

end

section \<open>Changing an expiry\<close>

lemma rewrite_expiry:
  assumes "fits (length k)" "fits (length v)"
  shows "copy_into (entry_bytes k v (Some d) u) (header (entry_head k v (Some d) u) + length k + length v)
      (header (entry_head k v (Some d) u) + length k + length v + 4) (u32_to_le_bytes w) = Some (entry_bytes k v (Some w) u)"
proof -
  let ?h = "header_bytes (length k) (length v) True (u \<noteq> None)"
  have "entry_bytes k v (Some d) u = (?h @ k @ v) @ u32_to_le_bytes d @ opt_bytes u"
    "entry_bytes k v (Some w) u = (?h @ k @ v) @ u32_to_le_bytes w @ opt_bytes u"
    by (simp_all add: entry_bytes_def opt_bytes_def)
  moreover have "header (entry_head k v (Some d) u) = length ?h" using header_entry_head [OF assms, of "Some d" u] by simp
  ultimately show ?thesis by (simp add: copy_into_def splice_def)
qed

definition expire_post :: "target \<Rightarrow> Platform \<Rightarrow> u64 \<Rightarrow> cache \<Rightarrow> bytes \<Rightarrow> u32 option \<Rightarrow> (Full + bool) \<times> Table \<Rightarrow> bool" where
  "expire_post t p seed m key expiry = (\<lambda>(r, T'). tb_seed T' = seed \<and>
     (case r of
        Inl _ \<Rightarrow> table_readable t T' m
      | Inr b \<Rightarrow> b = (m key \<noteq> None) \<and>
          table_inv p t T' (case m key of Some (v, _, u) \<Rightarrow> m(key \<mapsto> (v, expiry, u)) | None \<Rightarrow> m)))"

lemma restamp_spec:
  assumes A: "arena_holds p (tb_arena T) M" and rep: "table_rep t T M E m" and at: "E at = Some (k, v, Some d, u)"
  shows "returns (arena_get_mut (tb_arena T) (tb_slots T ! at) (head_size (entry_head k v (Some d) u))
      (\<lambda>bs. copy_into bs (header (entry_head k v (Some d) u) + length k + length v)
        (header (entry_head k v (Some d) u) + length k + length v + 4) (u32_to_le_bytes w)))
    (\<lambda>A. table_inv p t (T\<lparr> tb_arena := A \<rparr>) (m(k \<mapsto> (v, Some w, u))))"
proof -
  note R = table_repD [OF rep]
  note f = backedD(1,2) [OF R(3) at]
  note old = backedD(4) [OF R(3) at] and size = read_entry(5) [OF ar.holds_readable [OF A] R(3) at]
  let ?f = "\<lambda>bs. copy_into bs (header (entry_head k v (Some d) u) + length k + length v)
    (header (entry_head k v (Some d) u) + length k + length v + 4) (u32_to_le_bytes w)"
  have len: "length (entry_bytes k v (Some w) u) = length (entry_bytes k v (Some d) u)"
    by (simp add: length_entry_bytes [OF f])
  have inv: "table_inv p t (T\<lparr> tb_arena := A' \<rparr>) (m(k \<mapsto> (v, Some w, u)))"
    if A': "arena_holds p A' (M(tb_slots T ! at \<mapsto> entry_bytes k v (Some w) u))" for A'
  proof -
    have B: "backed (M(tb_slots T ! at \<mapsto> entry_bytes k v (Some w) u)) (tb_slots (T\<lparr> tb_arena := A' \<rparr>)) (E(at \<mapsto> (k, v, Some w, u)))"
      using backed_write [OF R(3) at f] by simp
    have "retime (T\<lparr> tb_arena := A' \<rparr>) (Some d \<noteq> None) (Some w \<noteq> None) = Some (T\<lparr> tb_arena := A' \<rparr>)"
      by (simp add: retime_def)
    then have "table_rep t (T\<lparr> tb_arena := A' \<rparr>) (M(tb_slots T ! at \<mapsto> entry_bytes k v (Some w) u))
        (E(at \<mapsto> (k, v, Some w, u))) (m(k \<mapsto> (v, Some w, u)))"
      using rep_overwrite [OF rep at _ _ _ _ _ _ _ B] by (auto elim!: returnsE)
    then show ?thesis using A' unfolding table_inv_def by auto
  qed
  show ?thesis
    unfolding size using ar.get_mut_law [OF A old, of ?f, OF rewrite_expiry [OF f] len] inv by (rule returns_mono)
qed

context probe_target
begin

lemma expire_live:
  assumes inv: "rep_holds p t T M E m" and at: "E at = Some (key, v, e, u)" and live: "live_slot t T0 key hsh now = Some (Some (at, entry_head key v e u, tb_slots T ! at), T)"
  shows "returns (table_expire t p os T0 key hsh expiry now) (expire_post t p (tb_seed T) m key expiry)"
proof -
  note H = rep_holdsD [OF inv] and R = table_repD [OF rep_holdsD(3) [OF inv]]
  have mk: "m key = Some (v, e, u)" by (rule contentsD [OF R(4) at])
  note read = read_entry(4) [OF H(2) R(3) at] and fields = read_fields [OF R(3) at]
  note move = move_spec [OF H(1,3) at backedD(2) [OF R(3) at] refl, of os expiry u True]
  show ?thesis
  proof (cases e; cases expiry)
    fix d w assume e: "e = Some d" "expiry = Some w"
    show ?thesis
      using restamp_spec [OF H(1,3) at [unfolded e(1)], of w] mk e
      by (auto simp: table_expire_def live expire_post_def Let_def elim!: returns_mono)
  next
    assume e: "e = None" "expiry = None"
    have "m(key \<mapsto> (v, None, u)) = m" using mk e(1) by auto
    then show ?thesis
      using inv mk e by (auto simp: table_expire_def live expire_post_def Let_def table_inv_alt)
  next
    fix d assume e: "e = Some d" "expiry = None"
    show ?thesis
      using move mk e read fields
      by (auto simp: table_expire_def live expire_post_def Let_def elim!: returns_mono split: sum.splits)
  next
    fix w assume e: "e = None" "expiry = Some w"
    show ?thesis
      using move mk e read fields
      by (auto simp: table_expire_def live expire_post_def Let_def elim!: returns_mono split: sum.splits)
  qed
qed

lemma expire_spec:
  assumes inv: "rep_holds p t T M E m"
  shows "returns (table_expire t p os T key (hash_of (tb_seed T) key) expiry now)
    (expire_post t p (tb_seed T) (purge now key m) key expiry)"
proof -
  obtain r T' where live: "live_slot t T key (hash_of (tb_seed T) key) now = Some (r, T')"
      "live_post p t (tb_seed T) key (purge now key m) (r, T')"
    using live_slot_spec [OF inv, of key now] by (auto elim!: returnsE)
  show ?thesis
  proof (cases r)
    case None
    then show ?thesis using live by (auto simp: table_expire_def live_post_def expire_post_def table_inv_alt)
  next
    case (Some ahe)
    obtain at h entry where ahe: "ahe = (at, h, entry)" by (cases ahe)
    with live(2) Some obtain M' E' v e u where r: "rep_holds p t T' M' E' (purge now key m)" "E' at = Some (key, v, e, u)"
        "h = entry_head key v e u" "entry = tb_slots T' ! at" "tb_seed T' = tb_seed T"
      by (auto simp: live_post_def)
    show ?thesis
      using expire_live [OF r(1,2), of T "hash_of (tb_seed T) key" now os expiry] live(1) Some ahe r(3-5) by simp
  qed
qed

end

section \<open>A new table\<close>

lemma table_new_inv: "platform_ok p \<Longrightarrow> table_inv p t (table_new s) Map.empty"
proof -
  assume "platform_ok p"
  then have "arena_holds p (tb_arena (table_new s)) Map.empty" by (simp add: table_new_def arena_new_holds)
  moreover have "table_rep t (table_new s) Map.empty Map.empty Map.empty"
    by (simp add: table_rep_def layout_def backed_def contents_def counted_def timed_def table_new_def)
  ultimately show ?thesis unfolding table_inv_def by blast
qed

section \<open>Clearing\<close>

lemma backed_blank:
  assumes B: "backed M slots E" and at: "E at = None"
  shows "backed M (slots[at := r]) E"
proof (rule backedI)
  have ne: "i \<noteq> at" if "E i = Some x" for i x using that at by auto
  show "fits (length k) \<and> fits (length v) \<and> i < length (slots[at := r]) \<and> M (slots[at := r] ! i) = Some (entry_bytes k v e u)"
    if "E i = Some (k, v, e, u)" for i k v e u
    using backedD(1-4) [OF B that] ne [OF that] by simp
  show "i = j" if "E i = Some x" "E j = Some y" "slots[at := r] ! i = slots[at := r] ! j" for i j x y
    using backedD(5) [OF B that(1,2)] that(3) ne [OF that(1)] ne [OF that(2)] by simp
  have "(\<lambda>i. slots[at := r] ! i) ` dom E = (\<lambda>i. slots ! i) ` dom E"
    by (rule image_cong [OF refl]) (metis at domIff nth_list_update_neq)
  then show "dom M = (\<lambda>i. slots[at := r] ! i) ` dom E" using backedD(6) [OF B] by simp
qed

text \<open>The slots in \<open>D\<close> have been emptied, and the rest still hold their entries.\<close>

definition clearing :: "Platform \<Rightarrow> nat \<Rightarrow> nat set \<Rightarrow> placed \<Rightarrow> Table \<Rightarrow> bool" where
  "clearing p n D E T \<longleftrightarrow> length (tb_ctrl T) = n \<and> length (tb_slots T) = n \<and> (\<forall>i\<in>D. tb_ctrl T ! i = EMPTY) \<and>
     (\<forall>i. E i \<noteq> None \<longleftrightarrow> i < n \<and> is_full (tb_ctrl T ! i)) \<and>
     (\<exists>M. arena_holds p (tb_arena T) M \<and> backed M (tb_slots T) E)"

lemma clear_step:
  assumes C: "clearing p n D E T" and at: "at < n"
  shows "returns (do {
     c \<leftarrow> idx (tb_ctrl T) at;
     A \<leftarrow> (if is_full c
       then do {
         entry \<leftarrow> idx (tb_slots T) at;
         h \<leftarrow> head_at T entry;
         arena_free (tb_arena T) entry (head_size h) }
       else Some (tb_arena T));
     ctrl \<leftarrow> set_idx (tb_ctrl T) at EMPTY;
     slots \<leftarrow> set_idx (tb_slots T) at NONE;
     Some (T\<lparr> tb_arena := A, tb_ctrl := ctrl, tb_slots := slots \<rparr>) })
   (\<lambda>T'. clearing p n (insert at D) (E(at := None)) T' \<and> tb_seed T' = tb_seed T)"
proof -
  obtain M where len: "length (tb_ctrl T) = n" "length (tb_slots T) = n" and E: "\<And>i. E i \<noteq> None \<longleftrightarrow> i < n \<and> is_full (tb_ctrl T ! i)"
      and D: "\<forall>i\<in>D. tb_ctrl T ! i = EMPTY" and A: "arena_holds p (tb_arena T) M" and B: "backed M (tb_slots T) E"
    using C by (auto simp: clearing_def simp del: split_paired_All split_paired_Ex)
  have D': "\<forall>i\<in>insert at D. (tb_ctrl T)[at := EMPTY] ! i = EMPTY" using D at len by (auto simp: nth_list_update)
  have E': "(E(at := None)) i \<noteq> None \<longleftrightarrow> i < n \<and> is_full ((tb_ctrl T)[at := EMPTY] ! i)" for i
    using E [of i] at len markers(1) by (cases "i = at") (simp_all del: split_paired_All split_paired_Ex)
  have emptied: "clearing p n (insert at D) (E(at := None)) (T\<lparr> tb_arena := A', tb_ctrl := (tb_ctrl T)[at := EMPTY], tb_slots := (tb_slots T)[at := NONE] \<rparr>)"
    if "arena_holds p A' M'" "backed M' ((tb_slots T)[at := NONE]) (E(at := None))" for A' M'
    using that len D' E' unfolding clearing_def by auto
  show ?thesis
  proof (cases "E at")
    case None
    then have "\<not> is_full (tb_ctrl T ! at)" "E(at := None) = E" using E [of at] at by auto
    then show ?thesis using emptied [OF A] backed_blank [OF B None, of NONE] at len by (simp add: idx_def set_idx_def)
  next
    case (Some kx)
    obtain k v e u where at_E: "E at = Some (k, v, e, u)" using Some by (cases kx) auto
    have full: "is_full (tb_ctrl T ! at)" using E [of at] at_E by auto
    note read = read_entry [OF ar.holds_readable [OF A] B at_E]
    show ?thesis
      using ar.free_law [OF A backedD(4) [OF B at_E]] full read(1,5) at len emptied [OF _ backed_erase [OF B at_E, of NONE]]
      by (auto simp: idx_def set_idx_def elim!: returns_mono)
  qed
qed

lemma clear_loop_spec:
  "clearing p n D E T \<Longrightarrow> set ats \<subseteq> {..<n} \<Longrightarrow>
   returns (clear_loop ats T) (\<lambda>T'. tb_seed T' = tb_seed T \<and> (\<exists>E'. clearing p n (D \<union> set ats) E' T'))"
proof (induction ats arbitrary: D E T)
  case Nil
  then show ?case by auto
next
  case (Cons at ats)
  let ?step = "do {
     c \<leftarrow> idx (tb_ctrl T) at;
     A \<leftarrow> (if is_full c
       then do {
         entry \<leftarrow> idx (tb_slots T) at;
         h \<leftarrow> head_at T entry;
         arena_free (tb_arena T) entry (head_size h) }
       else Some (tb_arena T));
     ctrl \<leftarrow> set_idx (tb_ctrl T) at EMPTY;
     slots \<leftarrow> set_idx (tb_slots T) at NONE;
     Some (T\<lparr> tb_arena := A, tb_ctrl := ctrl, tb_slots := slots \<rparr>) }"
  have split: "clear_loop (at # ats) T = do { T \<leftarrow> ?step; clear_loop ats T }" by simp
  obtain T1 where T1: "?step = Some T1" "clearing p n (insert at D) (E(at := None)) T1" "tb_seed T1 = tb_seed T"
    by (rule returnsE [OF clear_step [OF Cons.prems(1), of at]]) (use Cons.prems(2) in auto)
  show ?case
    unfolding split T1(1) using Cons.IH [OF T1(2)] Cons.prems(2) T1(3) by (auto elim!: returns_mono)
qed

context probe_target
begin

lemma clear_spec:
  assumes inv: "rep_holds p t T M E m"
  shows "returns (table_clear T) (\<lambda>T'. table_inv p t T' Map.empty \<and> tb_seed T' = tb_seed T \<and> length (tb_slots T') = length (tb_slots T))"
proof -
  note H = rep_holdsD [OF inv] and R = table_repD [OF rep_holdsD(3) [OF inv]]
  let ?n = "length (tb_slots T)"
  have start: "clearing p ?n {} E T"
    using H(1) R(3) layoutD(3) [OF R(1)] R(2) by (auto simp: clearing_def simp del: split_paired_All split_paired_Ex)
  obtain T1 E1 where T1: "clear_loop [0..<?n] T = Some T1" "tb_seed T1 = tb_seed T" "clearing p ?n ({} \<union> set [0..<?n]) E1 T1"
    by (rule returnsE [OF clear_loop_spec [OF start, of "[0..<?n]"]]) auto
  then obtain M1 where len: "length (tb_ctrl T1) = ?n" "length (tb_slots T1) = ?n" and D: "\<forall>i<?n. tb_ctrl T1 ! i = EMPTY"
      and E1: "\<And>i. E1 i \<noteq> None \<longleftrightarrow> i < ?n \<and> is_full (tb_ctrl T1 ! i)" and A: "arena_holds p (tb_arena T1) M1" and B: "backed M1 (tb_slots T1) E1"
    by (auto simp: clearing_def simp del: split_paired_All split_paired_Ex)
  have "E1 i = None" for i using E1 [of i] D markers(1) by (metis)
  then have empty: "E1 = Map.empty" by auto
  then have M1: "M1 = Map.empty" using backedD(6) [OF B] by (simp add: dom_eq_empty_conv)
  have ctrl: "tb_ctrl T1 = replicate ?n EMPTY" using D len(1) by (intro nth_equalityI) auto
  have "layout t s (replicate ?n EMPTY) Map.empty" for s
    using layoutD(2) [OF R(1)] R(2) layout_empty by (cases "?n = 0") (auto simp: layout_def)
  then have "table_rep t (T1\<lparr> tb_len := 0, tb_tombstones := 0, tb_timed := 0, tb_growth_left := ?n * LOAD_NUM div LOAD_DEN \<rparr>) M1 E1 Map.empty"
    using B len ctrl markers(3) unfolding empty
    by (simp add: table_rep_def counted_def contents_def timed_def LOAD_NUM_def LOAD_DEN_def)
  then show ?thesis
    using T1(1,2) A len(2) unfolding table_clear_def table_inv_def by auto
qed

end

section \<open>Sweeping\<close>

text \<open>A walk round a ring of \<open>n\<close> slots passes every slot.\<close>

lemma ring_reaches:
  assumes "i < (n :: nat)"
  shows "\<exists>j<n. i = (a + j) mod n"
proof -
  have pos: "0 < n" using assms by simp
  let ?j = "(i + (n - a mod n)) mod n"
  have "(a + ?j) mod n = (a mod n + (i + (n - a mod n))) mod n" by (simp add: mod_simps)
  also have "a mod n + (i + (n - a mod n)) = i + n" using mod_less_divisor [OF pos, of a] by linarith
  finally have "i = (a + ?j) mod n" using assms by simp
  then show ?thesis using mod_less_divisor [OF pos] by blast
qed

definition due :: "u32 \<Rightarrow> cache \<Rightarrow> bytes \<Rightarrow> bool" where
  "due now m k \<longleftrightarrow> (case m k of Some (v, e, u) \<Rightarrow> expired e now | None \<Rightarrow> False)"

lemma not_timed_not_due: "finite (dom m) \<Longrightarrow> card (timed m) = 0 \<Longrightarrow> \<not> due now m k"
  using finite_subset [OF timed_subset, of m]
  by (fastforce simp: due_def timed_def expired_def card_eq_0_iff split: option.splits)

lemma is_expired_eq:
  assumes "arena_readable (tb_arena T) M" "backed M (tb_slots T) E" "E at = Some (k, v, e, u)"
  shows "is_expired T at now = Some (expired e now)"
  using read_entry(1,3) [OF assms] backedD(3) [OF assms(2,3)]
  by (simp add: is_expired_def idx_def expired_def)

text \<open>The slots stay where they are, and only entries that are due have gone.\<close>

definition pruned :: "u32 \<Rightarrow> placed \<Rightarrow> placed \<Rightarrow> bool" where
  "pruned now E E' \<longleftrightarrow> (\<forall>i. E' i = E i \<or> (\<exists>k v e u. E i = Some (k, v, e, u) \<and> expired e now \<and> E' i = None))"

lemma pruned_refl: "pruned now E E"
  by (simp add: pruned_def)

lemma pruned_trans:
  assumes "pruned now E E1" "pruned now E1 E2"
  shows "pruned now E E2"
  unfolding pruned_def
proof
  fix i
  have 1: "E1 i = E i \<or> (\<exists>k v e u. E i = Some (k, v, e, u) \<and> expired e now \<and> E1 i = None)" using assms(1) unfolding pruned_def by (rule spec)
  have 2: "E2 i = E1 i \<or> (\<exists>k v e u. E1 i = Some (k, v, e, u) \<and> expired e now \<and> E2 i = None)" using assms(2) unfolding pruned_def by (rule spec)
  from 1 show "E2 i = E i \<or> (\<exists>k v e u. E i = Some (k, v, e, u) \<and> expired e now \<and> E2 i = None)"
  proof
    assume "E1 i = E i"
    then show ?thesis using 2 by simp
  next
    assume "\<exists>k v e u. E i = Some (k, v, e, u) \<and> expired e now \<and> E1 i = None"
    then show ?thesis using 2 by auto
  qed
qed

definition sweep_inv :: "Platform \<Rightarrow> target \<Rightarrow> u32 \<Rightarrow> Table \<Rightarrow> placed \<Rightarrow> cache \<Rightarrow> nat set \<Rightarrow> nat \<Rightarrow> Table \<Rightarrow> bool" where
  "sweep_inv p t now T E m V n T' \<longleftrightarrow> tb_seed T' = tb_seed T \<and> length (tb_ctrl T') = length (tb_ctrl T) \<and>
     (\<exists>M' E' m'. rep_holds p t T' M' E' m' \<and> pruned now E E' \<and> n + card (dom m') = card (dom m) \<and>
        (\<forall>i\<in>V. \<forall>k v e u. E' i = Some (k, v, e, u) \<longrightarrow> \<not> expired e now))"

context probe_target
begin

lemma sweep_step:
  assumes inv: "sweep_inv p t now T E m V n T'" and at: "at < length (tb_ctrl T)"
  shows "returns (do {
     c \<leftarrow> idx (tb_ctrl T') at;
     gone \<leftarrow> (if is_full c then is_expired T' at now else Some False);
     T' \<leftarrow> (if gone then erase t T' at else Some T');
     Some (gone, T') }) (\<lambda>(gone, T''). sweep_inv p t now T E m (insert at V) (if gone then n + 1 else n) T'')"
proof -
  obtain M1 E1 m1 where I: "rep_holds p t T' M1 E1 m1" "pruned now E E1" "n + card (dom m1) = card (dom m)"
      "\<forall>i\<in>V. \<forall>k v e u. E1 i = Some (k, v, e, u) \<longrightarrow> \<not> expired e now"
      "tb_seed T' = tb_seed T" "length (tb_ctrl T') = length (tb_ctrl T)"
    using inv unfolding sweep_inv_def by blast
  note H = rep_holdsD [OF I(1)] and R = table_repD [OF rep_holdsD(3) [OF I(1)]]
  have keep: "sweep_inv p t now T E m (insert at V) n T'"
    if "\<forall>k v e u. E1 at = Some (k, v, e, u) \<longrightarrow> \<not> expired e now"
    unfolding sweep_inv_def using I that by blast
  show ?thesis
  proof (cases "E1 at")
    case None
    then have "\<not> is_full (tb_ctrl T' ! at)" using layoutD(3) [OF R(1), of at] at I(6) by auto
    then show ?thesis using None keep at I(6) by (simp add: idx_def)
  next
    case (Some kx)
    obtain k v e u where E: "E1 at = Some (k, v, e, u)" using Some by (cases kx) auto
    have full: "is_full (tb_ctrl T' ! at)" using layoutD(7) [OF R(1) E] by auto
    have mk: "m1 k = Some (v, e, u)" by (rule contentsD [OF R(4) E])
    have "0 < card (dom m1)" using card_contents(1) [OF R(1,4)] mk by (auto simp: card_gt_0_iff)
    then have count: "n + 1 + card (dom (m1(k := None))) = card (dom m)"
      using I(3) card_contents(1) [OF R(1,4)] mk by (simp add: card_Diff_singleton domI)
    have gone: "sweep_inv p t now T E m (insert at V) (n + 1) T''"
      if "expired e now" "rep_holds p t T'' M2 (E1(at := None)) (m1(k := None))"
        "tb_seed T'' = tb_seed T'" "length (tb_ctrl T'') = length (tb_ctrl T')" for T'' M2
    proof -
      have "pruned now E1 (E1(at := None))" using E that(1) by (auto simp: pruned_def)
      then have "pruned now E (E1(at := None))" by (rule pruned_trans [OF I(2)])
      moreover have "\<forall>i\<in>insert at V. \<forall>k v e u. (E1(at := None)) i = Some (k, v, e, u) \<longrightarrow> \<not> expired e now"
        using I(4) by (auto split: if_splits)
      moreover have "tb_seed T'' = tb_seed T" "length (tb_ctrl T'') = length (tb_ctrl T)" using that(3,4) I(5,6) by simp_all
      ultimately show ?thesis unfolding sweep_inv_def using that(2) count by blast
    qed
    show ?thesis
    proof (cases "expired e now")
      case True
      have "returns (erase t T' at) (sweep_inv p t now T E m (insert at V) (n + 1))"
        using erase_spec [OF H(1,3) E] gone [OF True] by (auto simp: rep_holds_def elim!: returns_mono)
      then show ?thesis using full at I(6) is_expired_eq [OF H(2) R(3) E] True by (simp add: idx_def)
    next
      case False
      then show ?thesis using full at I(6) is_expired_eq [OF H(2) R(3) E] keep E by (simp add: idx_def)
    qed
  qed
qed

lemma sweep_loop_spec:
  assumes "0 < cap" "length (tb_ctrl T) = cap"
  shows "sweep_inv p t now T E m V n T' \<Longrightarrow> at < cap \<Longrightarrow>
    returns (sweep_loop t now cap b at n T') (\<lambda>((at', n'), T'').
      at' = (at + b) mod cap \<and> sweep_inv p t now T E m (V \<union> (\<lambda>j. (at + j) mod cap) ` {..<b}) n' T'')"
proof (induction b arbitrary: V n T' at)
  case 0
  then show ?case by simp
next
  case (Suc b)
  let ?step = "do {
     c \<leftarrow> idx (tb_ctrl T') at;
     gone \<leftarrow> (if is_full c then is_expired T' at now else Some False);
     T' \<leftarrow> (if gone then erase t T' at else Some T');
     Some (gone, T') }"
  have split: "sweep_loop t now cap (Suc b) at n T' =
      do { (gone, T') \<leftarrow> ?step; sweep_loop t now cap b ((at + 1) mod cap) (if gone then n + 1 else n) T' }"
    by simp
  obtain gone T1 where T1: "?step = Some (gone, T1)" "sweep_inv p t now T E m (insert at V) (if gone then n + 1 else n) T1"
    by (rule returnsE [OF sweep_step [OF Suc.prems(1), of at]]) (use Suc.prems(2) assms in auto)
  have V: "insert at V \<union> (\<lambda>j. ((at + 1) mod cap + j) mod cap) ` {..<b} = V \<union> (\<lambda>j. (at + j) mod cap) ` {..<Suc b}"
  proof -
    have "(\<lambda>j. (at + j) mod cap) ` {..<Suc b} = insert at ((\<lambda>j. (at + Suc j) mod cap) ` {..<b})"
      using Suc.prems(2) by (simp add: lessThan_Suc_eq_insert_0 image_image)
    then show ?thesis by (simp add: mod_simps)
  qed
  have "((at + 1) mod cap + b) mod cap = (at + Suc b) mod cap" by (simp add: mod_simps)
  then show ?case
    unfolding split T1(1) using Suc.IH [OF T1(2), of "(at + 1) mod cap"] assms(1) V by simp
qed

end

definition sweep_post :: "target \<Rightarrow> Platform \<Rightarrow> Table \<Rightarrow> cache \<Rightarrow> nat \<Rightarrow> u32 \<Rightarrow> (nat \<times> nat) \<times> Table \<Rightarrow> bool" where
  "sweep_post t p T m budget now = (\<lambda>((at, removed), T'). tb_seed T' = tb_seed T \<and>
     (\<exists>m'. table_inv p t T' m' \<and> m' \<subseteq>\<^sub>m m \<and> (\<forall>k. m' k = None \<longrightarrow> m k = None \<or> due now m k) \<and>
        removed + card (dom m') = card (dom m) \<and>
        (length (tb_slots T) \<le> budget \<longrightarrow> (\<forall>k. \<not> due now m' k))))"

text \<open>A sweep erases at most one entry for each slot of its budget.\<close>

lemma sweep_loop_removed: "sweep_loop t now cap b at n T = Some ((at', n'), T') \<Longrightarrow> n' \<le> n + b"
proof (induction b arbitrary: at n T)
  case (Suc b)
  then show ?case by (fastforce split: bind_splits if_splits)
qed simp

lemma table_sweep_removed: "table_sweep t T start budget now = Some ((at, removed), T') \<Longrightarrow> removed \<le> budget"
  by (auto simp: table_sweep_def Let_def split: if_splits dest!: sweep_loop_removed)

lemma pruned_contents:
  assumes "contents E m" "contents E' m'" "pruned now E E'"
  shows "m' \<subseteq>\<^sub>m m" "m' k = None \<Longrightarrow> m k = None \<or> due now m k"
proof -
  have sub: "E i = Some kx" if "E' i = Some kx" for i kx
    using assms(3) that unfolding pruned_def by (metis option.distinct(1))
  have "m k = Some x" if k: "m' k = Some x" for k x
  proof -
    obtain i where "E' i = Some (k, x)" using contents_iff [OF assms(2)] k by blast
    then show ?thesis using contents_iff [OF assms(1)] sub by blast
  qed
  then show "m' \<subseteq>\<^sub>m m" unfolding map_le_def by (metis domD)
  assume none: "m' k = None"
  show "m k = None \<or> due now m k"
  proof (cases "m k")
    case (Some x)
    then obtain i where i: "E i = Some (k, x)" using contents_iff [OF assms(1)] by blast
    then have "E' i \<noteq> Some (k, x)" using contents_None [OF assms(2)] none by blast
    then have "E' i \<noteq> E i" using i by simp
    then obtain k' v e u where "E i = Some (k', v, e, u)" "expired e now" using assms(3) unfolding pruned_def by blast
    then show ?thesis using i Some by (simp add: due_def)
  qed simp
qed

context probe_target
begin

lemma sweep_spec:
  assumes inv: "rep_holds p t T M E m"
  shows "returns (table_sweep t T start budget now) (sweep_post t p T m budget now)"
proof -
  note H = rep_holdsD [OF inv] and R = table_repD [OF rep_holdsD(3) [OF inv]]
  note C = countedD [OF R(5)]
  have fin: "finite (dom m)" by (rule card_contents(1) [OF R(1,4)])
  have idle: "sweep_post t p T m budget now ((at, 0), T)" if "\<forall>k. \<not> due now m k" for at
    unfolding sweep_post_def prod.case using inv that by (intro conjI exI [of _ m]) (auto simp: table_inv_alt)
  let ?cap = "length (tb_slots T)"
  show ?thesis
  proof (cases "tb_timed T = 0 \<or> tb_slots T = []")
    case True
    then have "\<forall>k. \<not> due now m k"
    proof
      assume "tb_timed T = 0"
      then show ?thesis using not_timed_not_due [OF fin] C(2) by simp
    next
      assume "tb_slots T = []"
      then have "card (dom m) = 0" using C(1,4) R(2) by simp
      then have "m k = None" for k using fin by (auto simp: domIff)
      then show ?thesis by (simp add: due_def)
    qed
    then show ?thesis using idle True by (auto simp: table_sweep_def)
  next
    case False
    have start: "sweep_inv p t now T E m {} 0 T"
      using inv pruned_refl unfolding sweep_inv_def by fastforce
    have pos: "0 < ?cap" using False by auto
    note cap = pos R(2) [symmetric] mod_less_divisor [OF pos, of start]
    have post: "sweep_post t p T m budget now ((at', n'), T'')"
      if swept: "sweep_inv p t now T E m ({} \<union> (\<lambda>j. (start mod ?cap + j) mod ?cap) ` {..<min budget ?cap}) n' T''" for at' n' T''
    proof -
      obtain M' E' m' where I: "rep_holds p t T'' M' E' m'" "pruned now E E'" "n' + card (dom m') = card (dom m)"
          and V: "\<forall>i\<in>(\<lambda>j. (start mod ?cap + j) mod ?cap) ` {..<min budget ?cap}. \<forall>k v e u. E' i = Some (k, v, e, u) \<longrightarrow> \<not> expired e now"
          and seed: "tb_seed T'' = tb_seed T" and len: "length (tb_ctrl T'') = length (tb_ctrl T)"
        using swept unfolding sweep_inv_def Un_empty_left by blast
      note R' = table_repD [OF rep_holdsD(3) [OF I(1)]]
      have "\<not> due now m' k" if b: "?cap \<le> budget" for k
      proof
        assume "due now m' k"
        then obtain v e u where mk: "m' k = Some (v, e, u)" "expired e now" by (auto simp: due_def split: option.splits)
        then obtain i where i: "E' i = Some (k, v, e, u)" using contents_iff [OF R'(4)] by blast
        have "i < ?cap" using layoutD(7) [OF R'(1) i] len R(2) by auto
        then obtain j where "j < ?cap" "i = (start mod ?cap + j) mod ?cap" using ring_reaches by blast
        then have "i \<in> (\<lambda>j. (start mod ?cap + j) mod ?cap) ` {..<min budget ?cap}" using b by auto
        then show False using V i mk(2) by blast
      qed
      then show ?thesis
        using I(1,3) seed pruned_contents [OF R(4) R'(4) I(2)] unfolding sweep_post_def table_inv_alt by auto
    qed
    have "table_sweep t T start budget now = sweep_loop t now ?cap (min budget ?cap) (start mod ?cap) 0 T"
      using False by (simp add: table_sweep_def Let_def)
    then show ?thesis
      using sweep_loop_spec [OF cap(1,2) start cap(3), of "min budget ?cap"] post by (auto elim!: returns_mono)
  qed
qed

end

section \<open>Evicting\<close>

lemma nearest_full_None:
  assumes rep: "table_rep t T M E m" and none: "nearest_full T start spare = None" and E: "E i = Some kx"
  shows "spare = Some i"
proof -
  note R = table_repD [OF rep]
  let ?cap = "length (tb_slots T)"
  have i: "i < ?cap" "is_full (tb_ctrl T ! i)" using layoutD(7) [OF R(1)] R(2) E by (cases kx; auto)+
  obtain j where "j < ?cap" "i = (start + j) mod ?cap" using ring_reaches [OF i(1)] by blast
  then have "i \<in> set (map (\<lambda>step. (start + step) mod ?cap) [0..<?cap])" by auto
  then show ?thesis using none i(2) unfolding nearest_full_def Let_def find_None_iff by auto
qed

lemma nearest_full_Some:
  assumes rep: "table_rep t T M E m" and some: "nearest_full T start spare = Some at"
  shows "\<exists>k v e u. E at = Some (k, v, e, u)" "Some at \<noteq> spare"
proof -
  note R = table_repD [OF rep]
  obtain i where i: "i < length (tb_slots T)" "at = (start + i) mod length (tb_slots T)"
      and at: "is_full (tb_ctrl T ! at)" "Some at \<noteq> spare"
    using some unfolding nearest_full_def Let_def find_Some_iff by auto
  have "at < length (tb_slots T)" unfolding i(2) by (rule mod_less_divisor [OF le_less_trans [OF le0 i(1)]])
  then have "E at \<noteq> None" using layoutD(3) [OF R(1), of at] R(2) at(1) by simp
  then show "\<exists>k v e u. E at = Some (k, v, e, u)" "Some at \<noteq> spare" using at(2) by auto
qed

definition evict_post :: "target \<Rightarrow> Platform \<Rightarrow> Table \<Rightarrow> placed \<Rightarrow> cache \<Rightarrow> nat option \<Rightarrow> bool \<times> Table \<Rightarrow> bool" where
  "evict_post t p T E m spare = (\<lambda>(gone, T'). tb_seed T' = tb_seed T \<and>
     (if gone then \<exists>at k x M'. E at = Some (k, x) \<and> spare \<noteq> Some at \<and> rep_holds p t T' M' (E(at := None)) (m(k := None))
      else T' = T \<and> (\<forall>at kx. E at = Some kx \<longrightarrow> spare = Some at)))"

lemma deadline_spec:
  assumes "arena_readable (tb_arena T) M" "backed M (tb_slots T) E" "E at = Some (k, v, e, u)"
  shows "deadline T at = Some (case e of Some when \<Rightarrow> when | None \<Rightarrow> - 1)"
  using read_entry(1,3) [OF assms] backedD(3) [OF assms(2,3)] by (simp add: deadline_def idx_def)

context probe_target
begin

lemma evict_spec:
  assumes inv: "rep_holds p t T M E m"
  shows "returns (evict_one t T roll spare) (evict_post t p T E m spare)"
proof -
  note H = rep_holdsD [OF inv] and R = table_repD [OF rep_holdsD(3) [OF inv]]
  note C = countedD [OF R(5)]
  show ?thesis
  proof (cases "tb_len T = 0")
    case True
    then have "E at \<noteq> Some kx" for at kx
      using C(1) card_contents [OF R(1,4)] layout_finite [OF R(1)] by (auto simp: card_eq_0_iff)
    then show ?thesis using True by (simp add: evict_one_def evict_post_def)
  next
    case False
    then have "tb_slots T \<noteq> []" using C(4) R(2) by auto
    then obtain a b where ab: "spot (mix roll) (length (tb_slots T)) = Some a" "spot (mix (mix roll)) (length (tb_slots T)) = Some b"
      by (cases "tb_slots T") (auto simp: spot_def usub_def)
    have stay: "evict_post t p T E m spare (False, T)" if "nearest_full T c spare = None" for c
      using nearest_full_None [OF H(3) that] by (simp add: evict_post_def del: split_paired_All)
    have go: "returns (erase t T at) (\<lambda>T'. evict_post t p T E m spare (True, T'))"
      if at: "E at = Some (k, v, e, u)" "Some at \<noteq> spare" for at k v e u
    proof (rule returns_mono [OF erase_spec [OF H(1,3) at(1)]])
      fix T' assume "(\<exists>M'. arena_holds p (tb_arena T') M' \<and> table_rep t T' M' (E(at := None)) (m(k := None))) \<and>
        tb_seed T' = tb_seed T \<and> length (tb_ctrl T') = length (tb_ctrl T)"
      then obtain M' where "rep_holds p t T' M' (E(at := None)) (m(k := None))" "tb_seed T' = tb_seed T"
        by (auto simp: rep_holds_def)
      then show "evict_post t p T E m spare (True, T')" unfolding evict_post_def using at by (auto simp del: split_paired_Ex split_paired_All)
    qed
    show ?thesis
    proof (cases "nearest_full T a spare"; cases "nearest_full T b spare")
      fix f s assume fs: "nearest_full T a spare = Some f" "nearest_full T b spare = Some s"
      obtain k v e u where f: "E f = Some (k, v, e, u)" "Some f \<noteq> spare" using nearest_full_Some [OF H(3) fs(1)] by blast
      obtain k' v' e' u' where s: "E s = Some (k', v', e', u')" "Some s \<noteq> spare" using nearest_full_Some [OF H(3) fs(2)] by blast
      show ?thesis
        using False ab fs go [OF f] go [OF s] deadline_spec [OF H(2) R(3) f(1)] deadline_spec [OF H(2) R(3) s(1)]
        by (simp add: evict_one_def Let_def)
    qed (use False ab stay in \<open>auto simp: evict_one_def Let_def\<close>)
  qed
qed

lemma slot_of_spec:
  assumes inv: "rep_holds p t T M E m"
  shows "returns (slot_of t T key (hash_of (tb_seed T) key)) (\<lambda>r.
    case r of Some at \<Rightarrow> \<exists>x. E at = Some (key, x) | None \<Rightarrow> m key = None)"
proof -
  obtain r where "find t T key (hash_of (tb_seed T) key) = Some r" "case r of Some f \<Rightarrow> found_at E key f | None \<Rightarrow> m key = None"
    using find_spec [OF rep_holdsD(2,3) [OF inv], of key] by (auto elim: returnsE)
  then show ?thesis by (cases r) (auto simp: slot_of_def found_at_def)
qed

end

section \<open>Walking every entry\<close>

definition view_of :: "bytes \<Rightarrow> stored \<Rightarrow> View" where
  "view_of k x = (case x of (v, e, u) \<Rightarrow> \<lparr> view_key = k, view_value = v, view_expiry = e, view_user_flags = u \<rparr>)"

lemma for_each_loop_spec:
  assumes read: "arena_readable (tb_arena T) M" and rep: "table_rep t T M E m"
  shows "set ats \<subseteq> {..<length (tb_slots T)} \<Longrightarrow>
    for_each_loop T ats = Some (map (\<lambda>i. case the (E i) of (k, x) \<Rightarrow> view_of k x) (filter (\<lambda>i. E i \<noteq> None) ats))"
proof (induction ats)
  case (Cons i ats)
  note R = table_repD [OF rep]
  have i: "i < length (tb_slots T)" "E i \<noteq> None \<longleftrightarrow> is_full (tb_ctrl T ! i)"
    using Cons.prems layoutD(3) [OF R(1), of i] R(2) by (auto simp del: split_paired_All split_paired_Ex not_None_eq)
  show ?case
  proof (cases "E i")
    case None
    then show ?thesis using Cons i R(2) by (simp add: idx_def)
  next
    case (Some kx)
    obtain k v e u where E: "E i = Some (k, v, e, u)" using Some by (cases kx) auto
    have "is_full (tb_ctrl T ! i)" using i(2) E by simp
    then show ?thesis
      using Cons i(1) R(2) E read_entry(2) [OF read R(3) E] read_fields [OF R(3) E]
      by (simp add: idx_def head_view_def view_of_def)
  qed
qed simp

lemma for_each_spec:
  assumes read: "arena_readable (tb_arena T) M" and rep: "table_rep t T M E m"
  shows "returns (table_for_each T) (\<lambda>vs. length vs = card (dom m) \<and> set vs = {view_of k x | k x. m k = Some x})"
proof -
  note R = table_repD [OF rep]
  let ?ats = "filter (\<lambda>i. E i \<noteq> None) [0..<length (tb_slots T)]"
  have dom: "set ?ats = dom E" using layout_dom [OF R(1)] layoutD(3) [OF R(1)] R(2) by auto
  have "distinct ?ats" by simp
  then have "length ?ats = card (dom m)" using distinct_card [of ?ats] card_contents(2) [OF R(1,4)] unfolding dom by simp
  moreover have "(\<lambda>i. case the (E i) of (k, x) \<Rightarrow> view_of k x) ` dom E = {view_of k x | k x. m k = Some x}"
  proof (intro set_eqI iffI)
    fix w assume "w \<in> (\<lambda>i. case the (E i) of (k, x) \<Rightarrow> view_of k x) ` dom E"
    then obtain i k x where "E i = Some (k, x)" "w = view_of k x" by auto
    then show "w \<in> {view_of k x | k x. m k = Some x}" using contentsD [OF R(4)] by blast
  next
    fix w assume "w \<in> {view_of k x | k x. m k = Some x}"
    then obtain k x i where "E i = Some (k, x)" "w = view_of k x" using contents_iff [OF R(4)] by blast
    then show "w \<in> (\<lambda>i. case the (E i) of (k, x) \<Rightarrow> view_of k x) ` dom E" by (intro image_eqI [of _ _ i]) auto
  qed
  ultimately show ?thesis
    using for_each_loop_spec [OF read rep, of "[0..<length (tb_slots T)]"] dom
    by (simp add: table_for_each_def atLeast0LessThan)
qed

end
