(* ===== verification/Rugo_Clock.thy ===== *)
theory Rugo_Clock
  imports Rugo_Prelude
begin

text \<open>
  The clock, \<^verbatim>\<open>crates/rugo-map/src/clock.rs\<close>: one word of seconds, refreshed by a tick. What the
  operating system answers is an argument, \<open>since\<close>: the whole seconds since the Unix epoch, or
  \<open>None\<close> when the system clock stands before it.
\<close>

definition unix_now :: "nat option \<Rightarrow> u32" where
  "unix_now since = (case since of None \<Rightarrow> 0 | Some s \<Rightarrow> if s < 2 ^ 32 then of_nat s else - 1)"

record Clock =
  secs :: u32

definition clock_new :: "nat option \<Rightarrow> Clock" where
  "clock_new since = \<lparr> secs = unix_now since \<rparr>"

definition clock_fixed :: "u32 \<Rightarrow> Clock" where
  "clock_fixed s = \<lparr> secs = s \<rparr>"

definition clock_now :: "Clock \<Rightarrow> u32" where
  "clock_now c = secs c"

definition clock_tick :: "nat option \<Rightarrow> Clock \<Rightarrow> u32 \<times> Clock" where
  "clock_tick since c = (let now = unix_now since in (now, c\<lparr> secs := now \<rparr>))"

definition clock_advance :: "u32 \<Rightarrow> Clock \<Rightarrow> Clock" where
  "clock_advance s c = c\<lparr> secs := secs c + s \<rparr>"

lemma unat_unix_now: "unat (unix_now (Some s)) = min s (2 ^ 32 - 1)"
  by (simp add: unix_now_def unat_of_nat take_bit_nat_eq_self unsigned_minus_1_eq_mask mask_eq_exp_minus_1)

text \<open>
  The clock saturates and never runs backwards: a later answer of the operating system reads
  as a second that is no earlier, up to and past the last second four bytes hold.
\<close>

theorem clock_saturates:
  "s \<le> s' \<Longrightarrow> clock_now (snd (clock_tick (Some s) c)) \<le> clock_now (snd (clock_tick (Some s') c)) \<and>
     unat (clock_now (snd (clock_tick (Some s) c))) = min s (2 ^ 32 - 1)"
  by (simp add: clock_tick_def Let_def clock_now_def word_le_nat_alt unat_unix_now min_def)

theorem clock_saturates_witness:
  "clock_now (snd (clock_tick (Some 5) (clock_fixed 7))) \<le> clock_now (snd (clock_tick (Some (2 ^ 40)) (clock_fixed 7))) \<and>
   unat (clock_now (snd (clock_tick (Some 5) (clock_fixed 7)))) = min 5 (2 ^ 32 - 1)"
  by (rule clock_saturates) simp

end
