(* ===== verification/Rugo_Resp.thy ===== *)
theory Rugo_Resp
  imports Rugo_Swar
begin

text \<open>
  The wire protocol, \<^verbatim>\<open>crates/rugo-resp/src/lib.rs\<close>: the request parser (array and inline form),
  the look-ahead \<^verbatim>\<open>peek\<close>, the two newline searches, the decimal reader and the reply encoder.

  An \<open>i64\<close> is an \<open>int\<close> with the checked operations written out. A \<open>Result<T, Bad>\<close> is \<open>Bad + 'a\<close>,
  and an operation that may panic returns an option around its result, as everywhere in this
  development. \<open>parse\<close> takes and returns the \<open>Command\<close> it writes into.
\<close>

section \<open>Limits, commands and errors\<close>

definition MAX_ARGS :: nat where "MAX_ARGS = 1024 * 1024"
definition MAX_BULK :: nat where "MAX_BULK = 512 * 1024 * 1024"
definition MAX_INLINE :: nat where "MAX_INLINE = 64 * 1024"

record Span =
  span_at :: u32
  span_len :: u32

record Command =
  args :: "Span list"

datatype Bad = NotANumber | TooLong | TooManyArguments | ExpectedBulk | NoNewline

datatype Parsed = Done nat | More

definition command_new :: Command where
  "command_new = \<lparr> args = [] \<rparr>"

definition command_len :: "Command \<Rightarrow> nat" where
  "command_len c = length (args c)"

definition command_is_empty :: "Command \<Rightarrow> bool" where
  "command_is_empty c \<longleftrightarrow> args c = []"

text \<open>\<open>buf.get(a..b)\<close> is \<open>None\<close> where the range does not fit, and does not panic.\<close>

definition arg :: "Command \<Rightarrow> nat \<Rightarrow> bytes \<Rightarrow> bytes option" where
  "arg c n buf = do {
     span \<leftarrow> idx (args c) n;
     let at = unat (span_at span);
     slice buf at (at + unat (span_len span)) }"

definition command_clear :: "Command \<Rightarrow> Command" where
  "command_clear c = c\<lparr> args := [] \<rparr>"

definition u32_try_from :: "nat \<Rightarrow> u32 option" where
  "u32_try_from n = (if n < 2 ^ 32 then Some (of_nat n) else None)"

definition push :: "Command \<Rightarrow> nat \<Rightarrow> nat \<Rightarrow> Bad + Command" where
  "push c at len =
     (if MAX_ARGS \<le> length (args c) then Inl TooManyArguments
      else case (u32_try_from at, u32_try_from len) of
        (Some at, Some len) \<Rightarrow> Inr (c\<lparr> args := args c @ [\<lparr> span_at = at, span_len = len \<rparr>] \<rparr>)
      | _ \<Rightarrow> Inl TooLong)"

definition message :: "Bad \<Rightarrow> string" where
  "message bad = (case bad of
     NotANumber \<Rightarrow> ''Protocol error: invalid multibulk length''
   | TooLong \<Rightarrow> ''Protocol error: invalid bulk length''
   | TooManyArguments \<Rightarrow> ''Protocol error: too many arguments''
   | ExpectedBulk \<Rightarrow> ''Protocol error: expected '' @ [CHR 0x27, CHR ''$'', CHR 0x27] @ '', got something else''
   | NoNewline \<Rightarrow> ''Protocol error: too big inline request'')"

section \<open>Lines and numbers\<close>

definition NL :: u8 where "NL = 10"
definition CR :: u8 where "CR = 13"

fun position :: "('a \<Rightarrow> bool) \<Rightarrow> 'a list \<Rightarrow> nat option" where
  "position P [] = None"
| "position P (x # xs) = (if P x then Some 0 else map_option Suc (position P xs))"

definition newline :: "bytes \<Rightarrow> nat option" where
  "newline from = position (\<lambda>byte. byte = NL) from"

text \<open>The outer option is the panic of an index, the inner one the line that is not there yet.\<close>

definition line :: "bytes \<Rightarrow> nat \<Rightarrow> (bytes \<times> nat) option option" where
  "line buf at = do {
     from \<leftarrow> slice_from buf (min at (length buf));
     (case newline from of
        None \<Rightarrow> Some None
      | Some end_at \<Rightarrow> do {
          returned \<leftarrow> (if 0 < end_at
            then do { before \<leftarrow> usub end_at 1; byte \<leftarrow> idx from before; Some (byte = CR) }
            else Some False);
          text \<leftarrow> (if returned
            then do { before \<leftarrow> usub end_at 1; slice from 0 before }
            else slice from 0 end_at);
          Some (Some (text, at + end_at + 1)) }) }"

definition is_ascii_digit :: "u8 \<Rightarrow> bool" where
  "is_ascii_digit b \<longleftrightarrow> 48 \<le> b \<and> b \<le> 57"

definition is_ascii_whitespace :: "u8 \<Rightarrow> bool" where
  "is_ascii_whitespace b \<longleftrightarrow> b = 9 \<or> b = 10 \<or> b = 12 \<or> b = 13 \<or> b = 32"

definition i64_MAX :: int where "i64_MAX = 2 ^ 63 - 1"
definition i64_MIN :: int where "i64_MIN = - (2 ^ 63)"

definition i64_checked :: "int \<Rightarrow> int option" where
  "i64_checked v = (if i64_MIN \<le> v \<and> v \<le> i64_MAX then Some v else None)"

fun number_loop :: "bytes \<Rightarrow> int \<Rightarrow> Bad + int" where
  "number_loop [] value = Inr value"
| "number_loop (byte # digits) value =
     (if \<not> is_ascii_digit byte then Inl NotANumber
      else case Option.bind (i64_checked (value * 10))
                  (\<lambda>v. i64_checked (v + int (unat (byte - 48)))) of
        None \<Rightarrow> Inl NotANumber
      | Some value \<Rightarrow> number_loop digits value)"

definition number :: "bytes \<Rightarrow> Bad + int" where
  "number text =
     (let (negative, digits) =
        (case text of
           [] \<Rightarrow> (False, text)
         | b # rest \<Rightarrow> if b = 45 then (True, rest) else if b = 43 then (False, rest) else (False, text))
      in if digits = [] then Inl NotANumber
         else case number_loop digits 0 of
           Inl e \<Rightarrow> Inl e
         | Inr value \<Rightarrow> Inr (if negative then - value else value))"

definition integer :: "bytes \<Rightarrow> Bad + int" where
  "integer text = number text"

definition usize_try_from :: "int \<Rightarrow> nat option" where
  "usize_try_from v = (if 0 \<le> v then Some (nat v) else None)"

section \<open>The parser\<close>

fun array_loop :: "bytes \<Rightarrow> nat \<Rightarrow> nat \<Rightarrow> Command \<Rightarrow> ((Bad + Parsed) \<times> Command) option" where
  "array_loop buf 0 at into = Some (Inr (Done at), into)"
| "array_loop buf (Suc n) at into = do {
     l \<leftarrow> line buf at;
     (case l of
        None \<Rightarrow> Some (Inr More, into)
      | Some (header, next) \<Rightarrow>
          (case header of
             [] \<Rightarrow> Some (Inl ExpectedBulk, into)
           | b # digits \<Rightarrow>
               if b \<noteq> 36 then Some (Inl ExpectedBulk, into)
               else case number digits of
                 Inl e \<Rightarrow> Some (Inl e, into)
               | Inr v \<Rightarrow>
                   (case usize_try_from v of
                      None \<Rightarrow> Some (Inl TooLong, into)
                    | Some len \<Rightarrow>
                        if MAX_BULK < len then Some (Inl TooLong, into)
                        else if length buf < next + len + 2 then Some (Inr More, into)
                        else case push into next len of
                          Inl e \<Rightarrow> Some (Inl e, into)
                        | Inr into \<Rightarrow> array_loop buf n (next + len + 2) into))) }"

definition parse_array :: "bytes \<Rightarrow> Command \<Rightarrow> ((Bad + Parsed) \<times> Command) option" where
  "parse_array buf into = do {
     l \<leftarrow> line buf 0;
     (case l of
        None \<Rightarrow> Some (Inr More, into)
      | Some (header, at) \<Rightarrow> do {
          digits \<leftarrow> slice_from header 1;
          (case number digits of
             Inl e \<Rightarrow> Some (Inl e, into)
           | Inr v \<Rightarrow>
               (case usize_try_from v of
                  None \<Rightarrow> Some (Inr (Done at), into)
                | Some count \<Rightarrow>
                    if MAX_ARGS < count then Some (Inl TooManyArguments, into)
                    else array_loop buf count at into)) }) }"

function word_end :: "bytes \<Rightarrow> nat \<Rightarrow> nat" where
  "word_end chars cursor =
     (if cursor < length chars \<and> \<not> is_ascii_whitespace (chars ! cursor)
      then word_end chars (cursor + 1) else cursor)"
  by pat_completeness auto
termination by (relation "measure (\<lambda>(chars, cursor). length chars - cursor)") auto

declare word_end.simps [simp del]

lemma word_end_ge: "cursor \<le> word_end chars cursor"
proof (induction chars cursor rule: word_end.induct)
  case (1 chars cursor)
  then show ?case by (subst word_end.simps) auto
qed

lemma word_end_gt:
  "cursor < length chars \<Longrightarrow> \<not> is_ascii_whitespace (chars ! cursor) \<Longrightarrow> cursor < word_end chars cursor"
  using word_end_ge [of "cursor + 1" chars] by (subst word_end.simps) auto

function (sequential) inline_loop :: "bytes \<Rightarrow> nat \<Rightarrow> Command \<Rightarrow> (Bad + unit) \<times> Command" where
  "inline_loop chars cursor into =
     (if cursor < length chars then
        if is_ascii_whitespace (chars ! cursor) then inline_loop chars (cursor + 1) into
        else let start = cursor; cursor = word_end chars cursor in
          case push into start (cursor - start) of
            Inl e \<Rightarrow> (Inl e, into)
          | Inr into \<Rightarrow> inline_loop chars cursor into
      else (Inr (), into))"
  by pat_completeness auto
termination
  by (relation "measure (\<lambda>(chars, cursor, into). length chars - cursor)")
     (auto dest: word_end_gt intro: diff_less_mono2)

declare inline_loop.simps [simp del]

definition parse_inline :: "bytes \<Rightarrow> Command \<Rightarrow> ((Bad + Parsed) \<times> Command) option" where
  "parse_inline buf into = do {
     l \<leftarrow> line buf 0;
     Some (case l of
        None \<Rightarrow> if MAX_INLINE < length buf then (Inl NoNewline, into) else (Inr More, into)
      | Some (text, at) \<Rightarrow>
          (case inline_loop text 0 into of
             (Inl e, into) \<Rightarrow> (Inl e, into)
           | (Inr _, into) \<Rightarrow> (Inr (Done at), into))) }"

definition parse :: "bytes \<Rightarrow> Command \<Rightarrow> ((Bad + Parsed) \<times> Command) option" where
  "parse buf into =
     (let into = command_clear into
      in case buf of
        [] \<Rightarrow> Some (Inr More, into)
      | first # _ \<Rightarrow> if first = 42 then parse_array buf into else parse_inline buf into)"

text \<open>The look-ahead. Here the inner option is the function's own \<^verbatim>\<open>None\<close>.\<close>

fun peek_loop :: "bytes \<Rightarrow> nat \<Rightarrow> nat \<Rightarrow> nat \<Rightarrow> (nat \<times> nat) option \<Rightarrow>
    (nat \<times> (nat \<times> nat) option) option option" where
  "peek_loop buf 0 n at key = Some (Some (at, key))"
| "peek_loop buf (Suc left) n at key = do {
     l \<leftarrow> line buf at;
     (case l of
        None \<Rightarrow> Some None
      | Some (header, next) \<Rightarrow>
          (case header of
             [] \<Rightarrow> Some None
           | b # digits \<Rightarrow>
               if b \<noteq> 36 then Some None
               else case number digits of
                 Inl _ \<Rightarrow> Some None
               | Inr v \<Rightarrow>
                   (case usize_try_from v of
                      None \<Rightarrow> Some None
                    | Some len \<Rightarrow>
                        if MAX_BULK < len \<or> length buf < next + len + 2 then Some None
                        else peek_loop buf left (n + 1) (next + len + 2)
                               (if n = 1 then Some (next, len) else key)))) }"

definition peek :: "bytes \<Rightarrow> (nat \<times> (nat \<times> nat) option) option option" where
  "peek buf =
     (case buf of
        [] \<Rightarrow> Some None
      | first # _ \<Rightarrow>
          if first \<noteq> 42 then Some None
          else do {
            l \<leftarrow> line buf 0;
            (case l of
               None \<Rightarrow> Some None
             | Some (header, at) \<Rightarrow> do {
                 digits \<leftarrow> slice_from header 1;
                 (case number digits of
                    Inl _ \<Rightarrow> Some None
                  | Inr v \<Rightarrow>
                      (case usize_try_from v of
                         None \<Rightarrow> Some None
                       | Some count \<Rightarrow>
                           if MAX_ARGS < count then Some None
                           else peek_loop buf count 0 at None)) }) })"

section \<open>The wide scan\<close>

definition scan_word :: "bytes \<Rightarrow> u64" where
  "scan_word chunk =
     (let word = foldl (\<lambda>word (n, byte). word OR push_bit (n * 8) (ucast byte)) 0 (enumerate 0 chunk);
          hit = word XOR (ONES * ucast NL)
      in (hit - ONES) AND NOT hit AND HIGHS)"

function scan_from :: "bytes \<Rightarrow> nat \<Rightarrow> nat option" where
  "scan_from from at =
     (if at + 8 \<le> length from then
        let found = scan_word (take 8 (drop at from))
        in if found \<noteq> 0 then Some (at + trailing_zeros found div 8) else scan_from from (at + 8)
      else map_option (\<lambda>n. at + n) (position (\<lambda>byte. byte = NL) (drop at from)))"
  by pat_completeness auto
termination by (relation "measure (\<lambda>(from, at). length from - at)") auto

declare scan_from.simps [simp del]

definition scan :: "bytes \<Rightarrow> nat option" where
  "scan from = scan_from from 0"

section \<open>The encoder\<close>

datatype Dialect = Resp2 | Resp3

record Encoder =
  out :: bytes
  dialect :: Dialect

definition encoder_new :: "bytes \<Rightarrow> Dialect \<Rightarrow> Encoder" where
  "encoder_new b d = \<lparr> out = b, dialect = d \<rparr>"

definition buffer :: "Encoder \<Rightarrow> bytes" where
  "buffer e = out e"

definition out_extend :: "bytes \<Rightarrow> Encoder \<Rightarrow> Encoder" where
  "out_extend bs e = e\<lparr> out := out e @ bs \<rparr>"

definition crlf :: "Encoder \<Rightarrow> Encoder" where
  "crlf e = out_extend [CR, NL] e"

function digits_loop :: "bytes \<Rightarrow> nat \<Rightarrow> nat \<Rightarrow> (bytes \<times> nat) option" where
  "digits_loop digits at left = do {
     at \<leftarrow> usub at 1;
     digits \<leftarrow> set_idx digits at (48 + of_nat (left mod 10));
     let left = left div 10;
     if left = 0 then Some (digits, at) else digits_loop digits at left }"
  by pat_completeness auto
termination by (relation "measure (\<lambda>(digits, at, left). left)") auto

declare digits_loop.simps [simp del]

definition put_number :: "int \<Rightarrow> Encoder \<Rightarrow> Encoder option" where
  "put_number value e = do {
     (digits, at) \<leftarrow> digits_loop (replicate 20 0) 20 (nat \<bar>value\<bar>);
     let e = (if value < 0 then out_extend [45] e else e);
     text \<leftarrow> slice_from digits at;
     Some (out_extend text e) }"

definition put_count :: "nat \<Rightarrow> Encoder \<Rightarrow> Encoder option" where
  "put_count len e = put_number (if int len \<le> i64_MAX then int len else i64_MAX) e"

definition put_simple :: "bytes \<Rightarrow> Encoder \<Rightarrow> Encoder" where
  "put_simple text e = crlf (out_extend text (out_extend [43] e))"

definition put_error :: "bytes \<Rightarrow> Encoder \<Rightarrow> Encoder" where
  "put_error text e = crlf (out_extend text (out_extend [45] e))"

definition put_integer :: "int \<Rightarrow> Encoder \<Rightarrow> Encoder option" where
  "put_integer value e = do {
     e \<leftarrow> put_number value (out_extend [58] e);
     Some (crlf e) }"

definition put_bulk :: "bytes \<Rightarrow> Encoder \<Rightarrow> Encoder option" where
  "put_bulk bs e = do {
     e \<leftarrow> put_count (length bs) (out_extend [36] e);
     Some (crlf (out_extend bs (crlf e))) }"

definition put_null :: "Encoder \<Rightarrow> Encoder" where
  "put_null e = (case dialect e of
     Resp2 \<Rightarrow> out_extend [36, 45, 49, CR, NL] e
   | Resp3 \<Rightarrow> out_extend [95, CR, NL] e)"

definition put_array :: "nat \<Rightarrow> Encoder \<Rightarrow> Encoder option" where
  "put_array len e = do {
     e \<leftarrow> put_count len (out_extend [42] e);
     Some (crlf e) }"

definition put_map :: "nat \<Rightarrow> Encoder \<Rightarrow> Encoder option" where
  "put_map len e = (case dialect e of
     Resp2 \<Rightarrow> put_array (len * 2) e
   | Resp3 \<Rightarrow> do {
       e \<leftarrow> put_count len (out_extend [37] e);
       Some (crlf e) })"

definition put_raw :: "bytes \<Rightarrow> Encoder \<Rightarrow> Encoder" where
  "put_raw bs e = out_extend bs e"

section \<open>Lines\<close>

lemma position_Some:
  "position P xs = Some i \<longleftrightarrow> i < length xs \<and> P (xs ! i) \<and> (\<forall>j<i. \<not> P (xs ! j))"
proof (induction xs arbitrary: i)
  case (Cons x xs)
  then show ?case by (cases i) (auto simp: All_less_Suc2)
qed simp

lemma position_None: "position P xs = None \<longleftrightarrow> (\<forall>x\<in>set xs. \<not> P x)"
  by (induction xs) auto

lemma position_append:
  "position P (xs @ ys) =
     (case position P xs of Some i \<Rightarrow> Some i | None \<Rightarrow> map_option (\<lambda>i. length xs + i) (position P ys))"
  by (induction xs) (auto simp: option.map_comp comp_def map_option_case split: option.splits)

definition strip_cr :: "bytes \<Rightarrow> bytes" where
  "strip_cr xs = (if xs \<noteq> [] \<and> last xs = CR then butlast xs else xs)"

definition line_of :: "bytes \<Rightarrow> nat \<Rightarrow> (bytes \<times> nat) option" where
  "line_of buf at = map_option (\<lambda>e. (strip_cr (take e (drop at buf)), at + e + 1)) (newline (drop at buf))"

lemma newline_less: "newline xs = Some e \<Longrightarrow> e < length xs"
  by (simp add: newline_def position_Some)

lemma last_take: "0 < e \<Longrightarrow> e \<le> length xs \<Longrightarrow> last (take e xs) = xs ! (e - 1)"
  by (subst last_conv_nth) auto

lemma line_eq [simp]: "line buf at = Some (line_of buf at)"
proof -
  have "drop (min at (length buf)) buf = drop at buf" by (simp add: min_def)
  moreover have "last (take e xs) = xs ! (e - 1)" "butlast (take e xs) = take (e - 1) xs"
    if "newline xs = Some e" "0 < e" for e and xs :: bytes
    using newline_less [OF that(1)] that(2) last_take [of e xs] by (simp_all add: butlast_take)
  ultimately show ?thesis
    by (auto simp: line_def line_of_def strip_cr_def panic_defs newline_less split: option.splits
        dest: newline_less)
qed

lemma line_of_extend: "line_of buf at = Some l \<Longrightarrow> line_of (buf @ extra) at = Some l"
  using newline_less [of "drop at buf"]
  by (auto simp: line_of_def newline_def position_append)

lemma line_of_bounds: "line_of buf at = Some (header, next) \<Longrightarrow> at < next \<and> next \<le> length buf"
  by (auto simp: line_of_def dest!: newline_less)

lemma line_of_crlf:
  assumes "NL \<notin> set xs"
  shows "line_of (pre @ xs @ [CR, NL] @ rest) (length pre) = Some (xs, length pre + length xs + 2)"
proof -
  have "position (\<lambda>byte. byte = NL) xs = None" using assms by (auto simp: position_None)
  then have "newline (xs @ [CR, NL] @ rest) = Some (length xs + 1)"
    by (simp add: newline_def position_append) (simp add: CR_def NL_def)
  then show ?thesis by (simp add: line_of_def strip_cr_def)
qed

lemma line_of_star:
  "buf = 42 # rest \<Longrightarrow> line_of buf 0 = Some (header, at) \<Longrightarrow> header \<noteq> []"
  by (auto simp: line_of_def newline_def strip_cr_def CR_def NL_def split: if_splits)

section \<open>Decimal numbers\<close>

fun dec :: "nat \<Rightarrow> bytes" where
  "dec n = (if n < 10 then [48 + of_nat n] else dec (n div 10) @ [48 + of_nat (n mod 10)])"

declare dec.simps [simp del]

definition dec_int :: "int \<Rightarrow> bytes" where
  "dec_int v = (if v < 0 then 45 # dec (nat (- v)) else dec (nat v))"

lemma dec_not_Nil [simp]: "dec n \<noteq> []"
  by (subst dec.simps) simp

lemma digit_byte:
  assumes "d < 10"
  shows "is_ascii_digit (48 + of_nat d)" "unat (48 + of_nat d - 48 :: u8) = d"
    "48 + of_nat d \<noteq> (10 :: u8)" "48 + of_nat d \<noteq> (45 :: u8)" "48 + of_nat d \<noteq> (43 :: u8)"
proof -
  have "d \<in> {0, 1, 2, 3, 4, 5, 6, 7, 8, 9}" using assms by auto
  then show "is_ascii_digit (48 + of_nat d)" "unat (48 + of_nat d - 48 :: u8) = d"
    "48 + of_nat d \<noteq> (10 :: u8)" "48 + of_nat d \<noteq> (45 :: u8)" "48 + of_nat d \<noteq> (43 :: u8)"
    by (auto simp: is_ascii_digit_def)
qed

lemma dec_digits: "b \<in> set (dec n) \<Longrightarrow> \<exists>d<10. b = 48 + of_nat d"
proof (induction n rule: dec.induct)
  case (1 n)
  show ?case
  proof (cases "n < 10")
    case True
    then show ?thesis using 1(2) by (subst (asm) dec.simps) auto
  next
    case False
    then have "b \<in> set (dec (n div 10)) \<or> b = 48 + of_nat (n mod 10)"
      using 1(2) by (subst (asm) dec.simps) auto
    then show ?thesis using 1(1) [OF False] by (metis mod_less_divisor zero_less_numeral)
  qed
qed

lemma dec_no_newline [simp]: "NL \<notin> set (dec n)"
  using dec_digits digit_byte(3) by (fastforce simp: NL_def)

lemma length_dec: "n < 10 ^ k \<Longrightarrow> 0 < k \<Longrightarrow> length (dec n) \<le> k"
proof (induction n arbitrary: k rule: dec.induct)
  case (1 n)
  show ?case
  proof (cases "n < 10")
    case True
    then show ?thesis using 1(3) by (subst dec.simps) simp
  next
    case False
    with 1(2) have "k \<noteq> 1" by (metis power_one_right)
    then obtain j where k: "k = Suc j" "0 < j" using 1(3) by (cases k) auto
    then have "n div 10 < 10 ^ j" using 1(2) by (simp add: less_mult_imp_div_less)
    then show ?thesis using 1(1) [OF False, of j] False k by (subst dec.simps) simp
  qed
qed

lemma number_loop_append:
  "number_loop (xs @ ys) v = (case number_loop xs v of Inl e \<Rightarrow> Inl e | Inr w \<Rightarrow> number_loop ys w)"
  by (induction xs v rule: number_loop.induct) (auto split: option.splits)

lemma number_loop_dec: "n < 2 ^ 63 \<Longrightarrow> number_loop (dec n) 0 = Inr (int n)"
proof (induction n rule: dec.induct)
  case (1 n)
  show ?case
  proof (cases "n < 10")
    case True
    then show ?thesis
      by (subst dec.simps)
         (simp only: if_True number_loop.simps digit_byte [OF True] i64_checked_def i64_MIN_def i64_MAX_def, simp)
  next
    case False
    have d: "n mod 10 < 10" by simp
    have eq: "int (n div 10) * 10 + int (n mod 10) = int n" by presburger
    then have le: "int (n div 10) * 10 \<le> int n" by linarith
    have n: "int n \<le> i64_MAX" using 1(2) by (simp add: i64_MAX_def)
    have "number_loop (dec (n div 10)) 0 = Inr (int (n div 10))"
      using 1(1) [OF False] 1(2) by (simp add: div_le_dividend less_le_trans)
    then show ?thesis using False le n
      by (subst dec.simps)
         (simp only: number_loop_append if_False sum.case number_loop.simps digit_byte [OF d] i64_checked_def,
          simp add: i64_MIN_def eq [simplified])
  qed
qed

lemma number_dec: "n < 2 ^ 63 \<Longrightarrow> number (dec n) = Inr (int n)"
proof -
  assume n: "n < 2 ^ 63"
  obtain b bs where bs: "dec n = b # bs" by (meson dec_not_Nil neq_Nil_conv)
  then obtain d where "d < 10" "b = 48 + of_nat d" using dec_digits [of b n] by auto
  then have "b \<noteq> 45" "b \<noteq> 43" using digit_byte by auto
  then show ?thesis using number_loop_dec [OF n] bs by (simp add: number_def)
qed

lemma number_dec_int: "i64_MIN < v \<Longrightarrow> v \<le> i64_MAX \<Longrightarrow> number (dec_int v) = Inr v"
proof (cases "v < 0")
  case True
  assume "i64_MIN < v"
  with True have "nat (- v) < 2 ^ 63" by (simp add: i64_MIN_def)
  then show ?thesis using True number_loop_dec by (simp add: dec_int_def number_def)
next
  case False
  assume "v \<le> i64_MAX"
  with False have "nat v < 2 ^ 63" by (simp add: i64_MAX_def)
  then show ?thesis using False number_dec by (simp add: dec_int_def)
qed

section \<open>What the encoder writes\<close>

lemma digits_loop_eq:
  assumes "length (dec n) \<le> at" "at \<le> length digits"
  shows "\<exists>digits'. digits_loop digits at n = Some (digits', at - length (dec n)) \<and>
    drop (at - length (dec n)) digits' = dec n @ drop at digits"
  using assms
proof (induction n arbitrary: at digits rule: dec.induct)
  case (1 n)
  define digits' where "digits' = digits[at - 1 := 48 + of_nat (n mod 10)]"
  have at: "0 < at" using 1(2) dec_not_Nil [of n] by (cases at) auto
  have loop: "digits_loop digits at n =
      (if n div 10 = 0 then Some (digits', at - 1) else digits_loop digits' (at - 1) (n div 10))"
    using at 1(3) by (subst digits_loop.simps) (simp add: panic_defs digits'_def)
  have d': "drop (at - 1) digits' = (48 + of_nat (n mod 10)) # drop at digits"
    using at 1(3) Cons_nth_drop_Suc [of "at - 1" digits'] by (simp add: digits'_def)
  show ?case
  proof (cases "n < 10")
    case True
    then have "dec n = [48 + of_nat (n mod 10)]" by (subst dec.simps) simp
    then show ?thesis using True loop d' by simp
  next
    case False
    have dec: "dec n = dec (n div 10) @ [48 + of_nat (n mod 10)]"
      using False by (subst dec.simps) simp
    have len: "length (dec (n div 10)) \<le> at - 1" "at - 1 \<le> length digits'"
      using 1(2,3) by (simp_all add: dec digits'_def)
    have "n div 10 \<noteq> 0" using False by auto
    then show ?thesis
      using 1(1) [OF False len] loop d' unfolding dec by auto
  qed
qed

lemma put_number_eq:
  assumes "i64_MIN \<le> v" "v \<le> i64_MAX"
  shows "put_number v e = Some (out_extend (dec_int v) e)"
proof -
  have "nat \<bar>v\<bar> < 10 ^ 20" using assms by (simp add: i64_MIN_def i64_MAX_def)
  then have "length (dec (nat \<bar>v\<bar>)) \<le> 20" by (rule length_dec) simp
  then obtain digits' where d:
      "digits_loop (replicate 20 0) 20 (nat \<bar>v\<bar>) = Some (digits', 20 - length (dec (nat \<bar>v\<bar>)))"
      "drop (20 - length (dec (nat \<bar>v\<bar>))) digits' = dec (nat \<bar>v\<bar>)"
    using digits_loop_eq [of "nat \<bar>v\<bar>" 20 "replicate 20 0"] by auto
  have "length digits' - (20 - length (dec (nat \<bar>v\<bar>))) = length (dec (nat \<bar>v\<bar>))"
    using arg_cong [OF d(2), of length] by simp
  moreover have "0 < length (dec (nat \<bar>v\<bar>))" by simp
  ultimately have "20 - length (dec (nat \<bar>v\<bar>)) \<le> length digits'" by linarith
  then show ?thesis using d
    by (simp add: put_number_def slice_from_def dec_int_def out_extend_def)
qed

lemma put_count_eq: "int n \<le> i64_MAX \<Longrightarrow> put_count n e = Some (out_extend (dec n) e)"
  using put_number_eq [of "int n" e] by (simp add: put_count_def dec_int_def i64_MIN_def)

definition bulk_bytes :: "bytes \<Rightarrow> bytes" where
  "bulk_bytes bs = 36 # dec (length bs) @ [CR, NL] @ bs @ [CR, NL]"

definition array_header :: "nat \<Rightarrow> bytes" where
  "array_header n = 42 # dec n @ [CR, NL]"

lemma put_array_eq: "int n \<le> i64_MAX \<Longrightarrow> put_array n e = Some (out_extend (array_header n) e)"
  by (simp add: put_array_def put_count_eq array_header_def crlf_def out_extend_def)

lemma put_bulk_eq:
  "int (length bs) \<le> i64_MAX \<Longrightarrow> put_bulk bs e = Some (out_extend (bulk_bytes bs) e)"
  by (simp add: put_bulk_def put_count_eq bulk_bytes_def crlf_def out_extend_def)

text \<open>A client's request: the array header, then each argument as a bulk string.\<close>

fun put_bulks :: "bytes list \<Rightarrow> Encoder \<Rightarrow> Encoder option" where
  "put_bulks [] e = Some e"
| "put_bulks (x # xs) e = Option.bind (put_bulk x e) (put_bulks xs)"

definition put_request :: "bytes list \<Rightarrow> Encoder \<Rightarrow> Encoder option" where
  "put_request xs e = Option.bind (put_array (length xs) e) (put_bulks xs)"

definition request_bytes :: "bytes list \<Rightarrow> bytes" where
  "request_bytes xs = array_header (length xs) @ concat (map bulk_bytes xs)"

lemma put_bulks_eq:
  "\<forall>x\<in>set xs. int (length x) \<le> i64_MAX \<Longrightarrow>
   put_bulks xs e = Some (out_extend (concat (map bulk_bytes xs)) e)"
  by (induction xs arbitrary: e) (simp_all add: put_bulk_eq, simp_all add: out_extend_def)

lemma put_request_eq:
  assumes "int (length xs) \<le> i64_MAX" "\<forall>x\<in>set xs. int (length x) \<le> i64_MAX"
  shows "put_request xs e = Some (out_extend (request_bytes xs) e)"
  using assms by (simp add: put_request_def put_array_eq put_bulks_eq request_bytes_def)
     (simp add: out_extend_def)

section \<open>Reading a request back\<close>

definition command_args :: "Command \<Rightarrow> bytes \<Rightarrow> bytes option list" where
  "command_args c buf = map (\<lambda>n. arg c n buf) [0..<command_len c]"

definition span_slice :: "bytes \<Rightarrow> Span \<Rightarrow> bytes option" where
  "span_slice buf s = slice buf (unat (span_at s)) (unat (span_at s) + unat (span_len s))"

lemma command_args_eq: "command_args c buf = map (span_slice buf) (args c)"
  by (rule nth_equalityI) (simp_all add: command_args_def command_len_def arg_def span_slice_def idx_def Let_def)

lemma push_ok:
  assumes "length (args c) < MAX_ARGS" "at < 2 ^ 32" "len < 2 ^ 32"
  shows "push c at len = Inr (c\<lparr> args := args c @ [\<lparr> span_at = of_nat at, span_len = of_nat len \<rparr>] \<rparr>)"
  using assms by (simp add: push_def u32_try_from_def)

lemma span_slice_of_nat:
  assumes "at + len \<le> length buf" "length buf < 2 ^ 32"
  shows "span_slice buf \<lparr> span_at = of_nat at, span_len = of_nat len \<rparr> = Some (take len (drop at buf))"
  using assms by (simp add: span_slice_def slice_def unat_of_nat take_bit_nat_eq_self)

text \<open>One step of the array loop, with its six ways out.\<close>

lemma array_loop_Suc:
  "array_loop buf (Suc n) at into =
     (case line_of buf at of
        None \<Rightarrow> Some (Inr More, into)
      | Some (header, next) \<Rightarrow>
          (case header of
             [] \<Rightarrow> Some (Inl ExpectedBulk, into)
           | b # digits \<Rightarrow>
               if b \<noteq> 36 then Some (Inl ExpectedBulk, into)
               else case number digits of
                 Inl e \<Rightarrow> Some (Inl e, into)
               | Inr v \<Rightarrow>
                   (case usize_try_from v of
                      None \<Rightarrow> Some (Inl TooLong, into)
                    | Some len \<Rightarrow>
                        if MAX_BULK < len then Some (Inl TooLong, into)
                        else if length buf < next + len + 2 then Some (Inr More, into)
                        else case push into next len of
                          Inl e \<Rightarrow> Some (Inl e, into)
                        | Inr into \<Rightarrow> array_loop buf n (next + len + 2) into)))"
  by simp

declare array_loop.simps(2) [simp del]

lemma array_loop_bulks:
  assumes "length (pre @ concat (map bulk_bytes xs) @ rest) < 2 ^ 32"
    and "length (args c) + length xs \<le> MAX_ARGS" "\<forall>x\<in>set xs. length x \<le> MAX_BULK"
  shows "\<exists>spans. array_loop (pre @ concat (map bulk_bytes xs) @ rest) (length xs) (length pre) c =
      Some (Inr (Done (length pre + length (concat (map bulk_bytes xs)))), c\<lparr> args := args c @ spans \<rparr>) \<and>
    map (span_slice (pre @ concat (map bulk_bytes xs) @ rest)) spans = map Some xs"
  using assms
proof (induction xs arbitrary: pre c)
  case Nil
  then show ?case by simp
next
  case (Cons x xs)
  define buf where "buf = pre @ concat (map bulk_bytes (x # xs)) @ rest"
  define body where "body = length pre + length (dec (length x)) + 3"
  let ?c = "c\<lparr> args := args c @ [\<lparr> span_at = of_nat body, span_len = of_nat (length x) \<rparr>] \<rparr>"
  have buf: "buf = pre @ (36 # dec (length x)) @ [CR, NL] @ x @ [CR, NL] @ concat (map bulk_bytes xs) @ rest"
    by (simp add: buf_def bulk_bytes_def)
  have line: "line_of buf (length pre) = Some (36 # dec (length x), body)"
    unfolding buf by (subst line_of_crlf) (auto simp: body_def NL_def dec_no_newline [unfolded NL_def])
  have short: "length x \<le> MAX_BULK" using Cons.prems(3) by simp
  then have num: "number (dec (length x)) = Inr (int (length x))"
    by (simp add: number_dec MAX_BULK_def)
  have len: "body + length x + 2 \<le> length buf" by (simp add: buf body_def)
  have small: "length buf < 2 ^ 32" using Cons.prems(1) by (simp only: buf_def)
  have push: "push c body (length x) = Inr ?c"
    using Cons.prems(2) small len by (intro push_ok) auto
  have eq: "buf = (pre @ bulk_bytes x) @ concat (map bulk_bytes xs) @ rest"
    by (simp add: buf_def)
  have body': "length (pre @ bulk_bytes x) = body + length x + 2"
    by (simp add: bulk_bytes_def body_def)
  obtain spans where IH: "array_loop buf (length xs) (body + length x + 2) ?c =
      Some (Inr (Done (body + length x + 2 + length (concat (map bulk_bytes xs)))), ?c\<lparr> args := args ?c @ spans \<rparr>)"
      "map (span_slice buf) spans = map Some xs"
    using Cons.IH [of "pre @ bulk_bytes x" ?c] Cons.prems(2,3) small unfolding eq [symmetric] body' by auto
  have slice: "span_slice buf \<lparr> span_at = of_nat body, span_len = of_nat (length x) \<rparr> = Some x"
  proof -
    define head where "head = pre @ (36 # dec (length x)) @ [CR, NL]"
    have "buf = head @ x @ [CR, NL] @ concat (map bulk_bytes xs) @ rest" "body = length head"
      by (simp_all add: buf head_def body_def)
    then show ?thesis using len small by (subst span_slice_of_nat) auto
  qed
  have total: "length pre + (length (bulk_bytes x) + length (concat (map bulk_bytes xs))) =
      Suc (Suc (body + length x + length (concat (map bulk_bytes xs))))"
    by (simp add: body_def bulk_bytes_def)
  have "array_loop buf (length (x # xs)) (length pre) c =
      array_loop buf (length xs) (body + length x + 2) ?c"
    using line num short len push by (simp add: array_loop_Suc usize_try_from_def)
  then show ?case
    unfolding buf_def [symmetric] using IH slice
    by (intro exI [of _ "\<lparr> span_at = of_nat body, span_len = of_nat (length x) \<rparr> # spans"])
       (simp add: total)
qed

lemma parse_star: "parse (42 # bs) into = parse_array (42 # bs) (command_clear into)"
  by (simp add: parse_def)

lemma parse_array_eq:
  "parse_array (42 # bs) into =
     (case line_of (42 # bs) 0 of
        None \<Rightarrow> Some (Inr More, into)
      | Some (header, at) \<Rightarrow>
          (case number (tl header) of
             Inl e \<Rightarrow> Some (Inl e, into)
           | Inr v \<Rightarrow>
               (case usize_try_from v of
                  None \<Rightarrow> Some (Inr (Done at), into)
                | Some count \<Rightarrow>
                    if MAX_ARGS < count then Some (Inl TooManyArguments, into)
                    else array_loop (42 # bs) count at into)))"
  using line_of_star [of "42 # bs" bs]
  by (auto simp: parse_array_def slice_from_def drop_Suc Suc_le_eq split: option.splits)

lemma parse_request:
  assumes "length xs \<le> MAX_ARGS" "\<forall>x\<in>set xs. length x \<le> MAX_BULK"
    and "length (request_bytes xs @ rest) < 2 ^ 32"
  shows "\<exists>c. parse (request_bytes xs @ rest) into = Some (Inr (Done (length (request_bytes xs))), c) \<and>
    command_args c (request_bytes xs @ rest) = map Some xs"
proof -
  define bs where "bs = dec (length xs) @ [CR, NL] @ concat (map bulk_bytes xs) @ rest"
  have buf: "request_bytes xs @ rest = 42 # bs"
    by (simp add: request_bytes_def array_header_def bs_def)
  have "line_of (([] :: bytes) @ (42 # dec (length xs)) @ [CR, NL] @ concat (map bulk_bytes xs) @ rest) (length ([] :: bytes)) =
      Some (42 # dec (length xs), length (array_header (length xs)))"
    by (subst line_of_crlf) (auto simp: array_header_def NL_def dec_no_newline [unfolded NL_def])
  then have line: "line_of (42 # bs) 0 = Some (42 # dec (length xs), length (array_header (length xs)))"
    by (simp add: bs_def)
  have num: "number (dec (length xs)) = Inr (int (length xs))"
    using assms(1) by (simp add: number_dec MAX_ARGS_def)
  have "request_bytes xs @ rest = array_header (length xs) @ concat (map bulk_bytes xs) @ rest"
    by (simp add: request_bytes_def)
  then obtain spans where "array_loop (42 # bs) (length xs) (length (array_header (length xs))) (command_clear into) =
      Some (Inr (Done (length (request_bytes xs))), command_clear into\<lparr> args := spans \<rparr>)"
      "map (span_slice (42 # bs)) spans = map Some xs"
    using array_loop_bulks [of "array_header (length xs)" xs rest "command_clear into"] assms buf
    by (auto simp: command_clear_def request_bytes_def)
  then show ?thesis unfolding buf
    using line num assms(1) by (simp add: parse_star parse_array_eq usize_try_from_def command_args_eq)
qed

section \<open>What a parse of any buffer finds\<close>

lemma push_Inr:
  "push c at len = Inr c' \<Longrightarrow> at < 2 ^ 32 \<and> len < 2 ^ 32 \<and>
     c' = c\<lparr> args := args c @ [\<lparr> span_at = of_nat at, span_len = of_nat len \<rparr>] \<rparr>"
  by (auto simp: push_def u32_try_from_def split: if_splits)

definition span_within :: "nat \<Rightarrow> Span \<Rightarrow> bool" where
  "span_within n s \<longleftrightarrow> unat (span_at s) + unat (span_len s) \<le> n"

lemma span_within_of_nat:
  "at < 2 ^ 32 \<Longrightarrow> len < 2 ^ 32 \<Longrightarrow>
   span_within n \<lparr> span_at = of_nat at, span_len = of_nat len \<rparr> \<longleftrightarrow> at + len \<le> n"
  by (simp add: span_within_def unat_of_nat take_bit_nat_eq_self)

lemma all_within_mono:
  "list_all (span_within m) ss \<Longrightarrow> m \<le> n \<Longrightarrow> list_all (span_within n) ss"
  by (auto simp: list_all_iff span_within_def)

lemma array_loop_total:
  assumes "at \<le> length buf" "list_all (span_within at) (args c)"
  shows "returns (array_loop buf n at c) (\<lambda>(r, c').
    list_all (span_within (length buf)) (args c') \<and>
    (\<forall>m. r = Inr (Done m) \<longrightarrow> at \<le> m \<and> m \<le> length buf \<and> length (args c') = length (args c) + n \<and>
       list_all (span_within m) (args c')))"
  using assms
proof (induction n arbitrary: at c)
  case 0
  then show ?case by (auto intro: all_within_mono)
next
  case (Suc n)
  have all: "list_all (span_within (length buf)) (args c)"
    using Suc.prems by (auto intro: all_within_mono)
  have step: "returns (array_loop buf n (next + len + 2) c') (\<lambda>(r, c').
    list_all (span_within (length buf)) (args c') \<and>
    (\<forall>m. r = Inr (Done m) \<longrightarrow> at \<le> m \<and> m \<le> length buf \<and> length (args c') = length (args c) + Suc n \<and>
       list_all (span_within m) (args c')))"
    if "line_of buf at = Some (header, next)" "\<not> length buf < next + len + 2" "push c next len = Inr c'"
    for header "next" len c'
  proof -
    have c': "next < 2 ^ 32" "len < 2 ^ 32"
        "c' = c\<lparr> args := args c @ [\<lparr> span_at = of_nat next, span_len = of_nat len \<rparr>] \<rparr>"
      using push_Inr [OF that(3)] by auto
    have "at < next" using line_of_bounds [OF that(1)] by simp
    then have "list_all (span_within (next + len + 2)) (args c')"
      using c' all_within_mono [OF Suc.prems(2), of "next + len + 2"] by (simp add: span_within_of_nat)
    then show ?thesis
      using Suc.IH [of "next + len + 2" c'] that(2) \<open>at < next\<close> c'(3)
      by (auto elim!: returns_mono simp: not_less)
  qed
  show ?case
    unfolding array_loop_Suc using all step
    by (auto split: option.splits prod.splits list.splits sum.splits)
qed

section \<open>The inline form\<close>

function tokens :: "bytes \<Rightarrow> bytes list" where
  "tokens chars =
     (case dropWhile is_ascii_whitespace chars of
        [] \<Rightarrow> []
      | b # bs \<Rightarrow> (b # takeWhile (\<lambda>x. \<not> is_ascii_whitespace x) bs) #
                tokens (dropWhile (\<lambda>x. \<not> is_ascii_whitespace x) bs))"
  by pat_completeness auto
termination
proof (relation "measure length")
  fix chars b bs assume "dropWhile is_ascii_whitespace chars = b # bs"
  then have "length (b # bs) \<le> length chars" by (metis length_dropWhile_le)
  then show "(dropWhile (\<lambda>x. \<not> is_ascii_whitespace x) bs, chars) \<in> measure length"
    using length_dropWhile_le [of "\<lambda>x. \<not> is_ascii_whitespace x" bs] by simp
qed simp

declare tokens.simps [simp del]

lemma tokens_space: "is_ascii_whitespace b \<Longrightarrow> tokens (b # bs) = tokens bs"
  by (subst (1 2) tokens.simps) simp

lemma tokens_word:
  "\<not> is_ascii_whitespace b \<Longrightarrow>
   tokens (b # bs) = takeWhile (\<lambda>x. \<not> is_ascii_whitespace x) (b # bs) #
     tokens (dropWhile (\<lambda>x. \<not> is_ascii_whitespace x) (b # bs))"
  by (subst tokens.simps) simp

lemma tokens_Nil [simp]: "tokens [] = []"
  by (subst tokens.simps) simp

lemma word_end_eq:
  "word_end chars cursor = cursor + length (takeWhile (\<lambda>x. \<not> is_ascii_whitespace x) (drop cursor chars))"
proof (induction chars cursor rule: word_end.induct)
  case (1 chars cursor)
  show ?case
  proof (cases "cursor < length chars")
    case True
    then have "drop cursor chars = chars ! cursor # drop (cursor + 1) chars"
      by (simp add: Cons_nth_drop_Suc)
    then show ?thesis using 1 True by (subst word_end.simps) auto
  qed (subst word_end.simps, simp)
qed

lemma word_end_le: "cursor \<le> length chars \<Longrightarrow> word_end chars cursor \<le> length chars"
  using length_takeWhile_le [of "\<lambda>x. \<not> is_ascii_whitespace x" "drop cursor chars"]
  by (simp add: word_end_eq)

lemma inline_loop_within:
  assumes "list_all (span_within (length chars)) (args c)"
  shows "list_all (span_within (length chars)) (args (snd (inline_loop chars cursor c)))"
  using assms
proof (induction chars cursor c rule: inline_loop.induct)
  case (1 chars cursor c)
  show ?case
  proof (cases "cursor < length chars \<and> \<not> is_ascii_whitespace (chars ! cursor)")
    case False
    then show ?thesis using 1 by (subst inline_loop.simps) auto
  next
    case True
    let ?stop = "word_end chars cursor"
    have loop: "inline_loop chars cursor c = (case push c cursor (?stop - cursor) of
        Inl e \<Rightarrow> (Inl e, c) | Inr c \<Rightarrow> inline_loop chars ?stop c)"
      using True by (subst inline_loop.simps) (simp add: Let_def)
    show ?thesis
    proof (cases "push c cursor (?stop - cursor)")
      case (Inl e)
      then show ?thesis using 1(3) loop by simp
    next
      case (Inr c')
      have "list_all (span_within (length chars)) (args c')"
        using push_Inr [OF Inr] 1(3) word_end_ge [of cursor chars] word_end_le [of cursor chars] True
        by (auto simp: span_within_of_nat simp del: of_nat_diff)
      then show ?thesis using 1(2) [OF _ _ refl refl Inr] True loop Inr by simp
    qed
  qed
qed

lemma inline_loop_tokens:
  assumes "length (chars @ rest) < 2 ^ 32" "length (args c) + length (tokens (drop cursor chars)) \<le> MAX_ARGS"
  shows "\<exists>spans. inline_loop chars cursor c = (Inr (), c\<lparr> args := args c @ spans \<rparr>) \<and>
    map (span_slice (chars @ rest)) spans = map Some (tokens (drop cursor chars))"
  using assms
proof (induction chars cursor c rule: inline_loop.induct)
  case (1 chars cursor c)
  consider "\<not> cursor < length chars"
    | "cursor < length chars" "is_ascii_whitespace (chars ! cursor)"
    | "cursor < length chars" "\<not> is_ascii_whitespace (chars ! cursor)" by blast
  then show ?case
  proof cases
    case 1
    then show ?thesis by (subst inline_loop.simps) simp
  next
    case 2
    have drop: "drop cursor chars = chars ! cursor # drop (cursor + 1) chars"
      using 2 by (simp add: Cons_nth_drop_Suc)
    have "inline_loop chars cursor c = inline_loop chars (cursor + 1) c"
      using 2 by (subst inline_loop.simps) simp
    then show ?thesis using 1(1) [OF 2 1(3)] 1(4) tokens_space [OF 2(2)] unfolding drop by simp
  next
    case 3
    let ?stop = "word_end chars cursor"
    let ?span = "\<lparr> span_at = of_nat cursor, span_len = of_nat (?stop - cursor) \<rparr> :: Span"
    have drop: "drop cursor chars = chars ! cursor # drop (cursor + 1) chars"
      using 3 by (simp add: Cons_nth_drop_Suc)
    have word: "take (?stop - cursor) (drop cursor chars) = takeWhile (\<lambda>x. \<not> is_ascii_whitespace x) (drop cursor chars)"
      "drop ?stop chars = dropWhile (\<lambda>x. \<not> is_ascii_whitespace x) (drop cursor chars)"
      unfolding word_end_eq
      by (simp_all add: takeWhile_eq_take [symmetric] dropWhile_eq_drop add.commute)
    have tok: "tokens (drop cursor chars) = take (?stop - cursor) (drop cursor chars) # tokens (drop ?stop chars)"
      unfolding word using tokens_word [OF 3(2)] drop by simp
    have le: "?stop \<le> length chars" "cursor \<le> ?stop"
      using 3 by (simp_all add: word_end_le word_end_ge)
    have push: "push c cursor (?stop - cursor) = Inr (c\<lparr> args := args c @ [?span] \<rparr>)"
      using 3 1(3,4) le by (intro push_ok) (simp_all add: tok)
    have slice: "span_slice (chars @ rest) ?span = Some (take (?stop - cursor) (drop cursor chars))"
      using le 1(3) by (subst span_slice_of_nat) simp_all
    have loop: "inline_loop chars cursor c = inline_loop chars ?stop (c\<lparr> args := args c @ [?span] \<rparr>)"
      using 3 push by (subst inline_loop.simps) (simp add: Let_def)
    obtain spans where IH:
      "inline_loop chars ?stop (c\<lparr> args := args c @ [?span] \<rparr>) = (Inr (), c\<lparr> args := (args c @ [?span]) @ spans \<rparr>)"
      "map (span_slice (chars @ rest)) spans = map Some (tokens (drop ?stop chars))"
      using 1(2) [OF 3 refl refl push 1(3)] 1(4) by (auto simp: tok)
    then show ?thesis
      using slice loop by (intro exI [of _ "?span # spans"]) (simp add: tok)
  qed
qed

lemma parse_inline_eq:
  "parse_inline buf into = Some (case line_of buf 0 of
        None \<Rightarrow> if MAX_INLINE < length buf then (Inl NoNewline, into) else (Inr More, into)
      | Some (chars, at) \<Rightarrow>
          (case inline_loop chars 0 into of
             (Inl e, into) \<Rightarrow> (Inl e, into)
           | (Inr _, into) \<Rightarrow> (Inr (Done at), into)))"
  by (simp add: parse_inline_def)

lemma line_of_prefix: "line_of buf 0 = Some (chars, at) \<Longrightarrow> \<exists>rest. buf = chars @ rest \<and> length chars < at"
proof -
  assume "line_of buf 0 = Some (chars, at)"
  then obtain e where e: "chars = strip_cr (take e buf)" "at = e + 1" "e < length buf"
    by (auto simp: line_of_def dest!: newline_less)
  have "\<exists>k\<le>e. chars = take k buf"
    using e by (auto simp: strip_cr_def butlast_take intro: exI [of _ "e - 1"])
  then obtain k where "k \<le> e" "chars = take k buf" by blast
  then show ?thesis using e append_take_drop_id [of k buf] by (metis add.commute length_take less_Suc_eq_le min.coboundedI2 plus_1_eq_Suc)
qed

lemma parse_total:
  "returns (parse buf into) (\<lambda>(r, c).
     list_all (span_within (length buf)) (args c) \<and>
     (\<forall>n. r = Inr (Done n) \<longrightarrow> 0 < n \<and> n \<le> length buf \<and> list_all (span_within n) (args c)))"
proof (cases buf)
  case Nil
  then show ?thesis by (simp add: parse_def command_clear_def)
next
  case (Cons b bs)
  have clear: "list_all (span_within n) (args (command_clear into))" for n
    by (simp add: command_clear_def)
  show ?thesis
  proof (cases "b = 42")
    case True
    have "returns (array_loop buf k at (command_clear into)) (\<lambda>(r, c).
       list_all (span_within (length buf)) (args c) \<and>
       (\<forall>n. r = Inr (Done n) \<longrightarrow> 0 < n \<and> n \<le> length buf \<and> list_all (span_within n) (args c)))"
      if "line_of buf 0 = Some (header, at)" for header at k
      using array_loop_total [OF _ clear, of at buf k] line_of_bounds [OF that]
      by (auto elim!: returns_mono)
    then show ?thesis using Cons True clear line_of_bounds [of buf 0]
      by (auto simp: parse_star parse_array_eq split: option.splits sum.splits)
  next
    case False
    then have parse: "parse buf into = parse_inline buf (command_clear into)"
      using Cons by (simp add: parse_def)
    show ?thesis
    proof (cases "line_of buf 0")
      case None
      then show ?thesis using clear by (simp add: parse parse_inline_eq)
    next
      case (Some l)
      obtain chars at r c where l: "l = (chars, at)" "inline_loop chars 0 (command_clear into) = (r, c)"
        by (metis surj_pair)
      have at: "0 < at" "at \<le> length buf" "length chars < at"
        using line_of_bounds line_of_prefix Some l(1) by blast+
      have "list_all (span_within (length chars)) (args c)"
        using inline_loop_within [OF clear, of chars 0] l(2) by simp
      then have "list_all (span_within at) (args c)" "list_all (span_within (length buf)) (args c)"
        using at by (auto elim: all_within_mono)
      then show ?thesis
        using at Some l by (auto simp: parse parse_inline_eq split: sum.splits)
    qed
  qed
qed

section \<open>A stream that arrives in pieces\<close>

lemma array_loop_extend:
  "array_loop buf n at c = Some (r, c') \<Longrightarrow> r \<noteq> Inr More \<Longrightarrow>
   array_loop (buf @ extra) n at c = Some (r, c')"
proof (induction n arbitrary: at c)
  case 0
  then show ?case by simp
next
  case (Suc n)
  have "line_of buf at \<noteq> None" by (rule notI) (use Suc.prems in \<open>simp add: array_loop_Suc\<close>)
  then obtain header l where line: "line_of buf at = Some (header, l)" by fast
  have ext: "line_of (buf @ extra) at = Some (header, l)" by (rule line_of_extend [OF line])
  show ?case
    using Suc.prems Suc.IH line ext unfolding array_loop_Suc
    by (auto split: list.splits if_splits sum.splits option.splits)
qed

lemma parse_extend_array:
  assumes "buf \<noteq> []" "hd buf = 42" "parse buf into = Some (r, c)" "r \<noteq> Inr More"
  shows "parse (buf @ extra) into = Some (r, c)"
proof -
  obtain bs where buf: "buf = 42 # bs" using assms(1,2) by (cases buf) auto
  have "line_of buf 0 \<noteq> None" by (rule notI) (use assms(3,4) buf in \<open>simp add: parse_star parse_array_eq\<close>)
  then obtain header at where line: "line_of buf 0 = Some (header, at)" by fast
  have "line_of (buf @ extra) 0 = Some (header, at)" by (rule line_of_extend [OF line])
  then show ?thesis
    using assms(3,4) line array_loop_extend [of buf _ at "command_clear into" r c extra] unfolding buf
    by (auto simp: parse_star parse_array_eq split: sum.splits option.splits if_splits)
qed

lemma parse_extend_inline:
  assumes "buf \<noteq> []" "hd buf \<noteq> 42" "line_of buf 0 = Some l"
  shows "parse (buf @ extra) into = parse buf into"
  using assms line_of_extend [OF assms(3), of extra]
  by (cases buf) (simp_all add: parse_def parse_inline_eq)

lemma parse_inline_no_line:
  assumes "buf \<noteq> []" "hd buf \<noteq> 42" "line_of buf 0 = None"
  shows "parse buf into = Some (if MAX_INLINE < length buf then Inl NoNewline else Inr More, command_clear into)"
  using assms by (cases buf) (simp_all add: parse_def parse_inline_eq)

lemma parse_extend:
  assumes "parse buf into = Some (Inr (Done n), c)"
  shows "parse (buf @ extra) into = Some (Inr (Done n), c)"
proof -
  have buf: "buf \<noteq> []" using assms by (auto simp: parse_def)
  show ?thesis
  proof (cases "hd buf = 42")
    case True
    then show ?thesis using parse_extend_array [OF buf True assms] by simp
  next
    case False
    then obtain l where "line_of buf 0 = Some l"
      using assms parse_inline_no_line [OF buf False, of into] by (cases "line_of buf 0") (auto split: if_splits)
    then show ?thesis using parse_extend_inline [OF buf False] assms by simp
  qed
qed

lemma parse_prefix:
  assumes parse: "parse buf into = Some (Inr (Done n), c)" and k: "k < n" "hd buf = 42 \<or> k \<le> MAX_INLINE"
  shows "\<exists>c'. parse (take k buf) into = Some (Inr More, c')"
proof (cases "k = 0")
  case True
  then show ?thesis by (simp add: parse_def)
next
  case False
  let ?b = "take k buf"
  have "buf \<noteq> []" using parse by (auto simp: parse_def)
  then have b: "?b \<noteq> []" "hd ?b = hd buf" "?b @ drop k buf = buf" "length ?b \<le> k" using False by auto
  obtain r c' where r: "parse ?b into = Some (r, c')"
      and m: "\<And>m. r = Inr (Done m) \<Longrightarrow> m \<le> length ?b"
    using parse_total [of ?b into] by (fastforce elim!: returnsE)
  show ?thesis
  proof (cases "hd buf = 42")
    case True
    then show ?thesis
      using parse_extend_array [OF b(1) _ r, of "drop k buf"] b parse r m k(1) by (cases "r = Inr More") auto
  next
    case False
    have "line_of ?b 0 = None"
      using parse_extend_inline [OF b(1), of _ "drop k buf" into] False b parse r m k(1)
      by (cases "line_of ?b 0") auto
    then show ?thesis
      using parse_inline_no_line [OF b(1), of into] False b k(2) by auto
  qed
qed

section \<open>The look-ahead\<close>

definition key_of :: "Command \<Rightarrow> (nat \<times> nat) option" where
  "key_of c = map_option (\<lambda>s. (unat (span_at s), unat (span_len s))) (idx (args c) 1)"

definition done_with :: "((Bad + Parsed) \<times> Command) option \<Rightarrow> (nat \<times> (nat \<times> nat) option) option" where
  "done_with r = (case r of Some (Inr (Done m), c) \<Rightarrow> Some (m, key_of c) | _ \<Rightarrow> None)"

lemma done_with_simps [simp]:
  "done_with (Some (Inl e, c)) = None" "done_with (Some (Inr More, c)) = None"
  "done_with (Some (Inr (Done m), c)) = Some (m, key_of c)"
  by (simp_all add: done_with_def)

lemma peek_loop_Suc:
  "peek_loop buf (Suc left) n at key =
     (case line_of buf at of
        None \<Rightarrow> Some None
      | Some (header, next) \<Rightarrow>
          (case header of
             [] \<Rightarrow> Some None
           | b # digits \<Rightarrow>
               if b \<noteq> 36 then Some None
               else case number digits of
                 Inl _ \<Rightarrow> Some None
               | Inr v \<Rightarrow>
                   (case usize_try_from v of
                      None \<Rightarrow> Some None
                    | Some len \<Rightarrow>
                        if MAX_BULK < len \<or> length buf < next + len + 2 then Some None
                        else peek_loop buf left (n + 1) (next + len + 2)
                               (if n = 1 then Some (next, len) else key))))"
  by simp

declare peek_loop.simps(2) [simp del]

lemma key_of_push:
  assumes "at < 2 ^ 32" "len < 2 ^ 32"
  shows "key_of (c\<lparr> args := args c @ [\<lparr> span_at = of_nat at, span_len = of_nat len \<rparr>] \<rparr>) =
    (if length (args c) = 1 then Some (at, len) else key_of c)"
  using assms
  by (auto simp: key_of_def idx_def nth_append unat_of_nat take_bit_nat_eq_self not_less Suc_le_eq
      intro: le_antisym)

lemma peek_loop_eq:
  assumes "length buf < 2 ^ 32" "length (args c) + k \<le> MAX_ARGS"
  shows "peek_loop buf k (length (args c)) at (key_of c) = Some (done_with (array_loop buf k at c))"
  using assms(2)
proof (induction k arbitrary: at c)
  case 0
  then show ?case by simp
next
  case (Suc k)
  have step: "peek_loop buf k (Suc (length (args c))) (next + len + 2) (if length (args c) = 1 then Some (next, len) else key_of c) =
      Some (done_with (case push c next len of Inl e \<Rightarrow> Some (Inl e, c) | Inr c \<Rightarrow> array_loop buf k (next + len + 2) c))"
    if "\<not> length buf < next + len + 2" for "next" len
  proof -
    have small: "next < 2 ^ 32" "len < 2 ^ 32" using that assms(1) by linarith+
    then have "push c next len = Inr (c\<lparr> args := args c @ [\<lparr> span_at = of_nat next, span_len = of_nat len \<rparr>] \<rparr>)"
      using Suc.prems by (intro push_ok) auto
    then show ?thesis
      using Suc.IH [of "c\<lparr> args := args c @ [\<lparr> span_at = of_nat next, span_len = of_nat len \<rparr>] \<rparr>"]
        key_of_push [OF small, of c] Suc.prems by simp
  qed
  then show ?case
    unfolding array_loop_Suc peek_loop_Suc
    by (auto split: option.splits list.splits sum.splits)
qed

lemma peek_star:
  assumes "length (42 # bs) < 2 ^ 32" "line_of (42 # bs) 0 = Some (header, at)" "number (tl header) = Inr v"
  shows "peek (42 # bs) = Some (if v < 0 then None else done_with (parse (42 # bs) into))"
proof -
  have header: "header \<noteq> []" using line_of_star assms(2) by blast
  have "peek_loop (42 # bs) k 0 at None = Some (done_with (array_loop (42 # bs) k at (command_clear into)))"
    if "\<not> MAX_ARGS < k" for k
    using peek_loop_eq [OF assms(1), of "command_clear into" k at] that
    by (simp add: command_clear_def key_of_def idx_def)
  then show ?thesis
    using assms header
    by (auto simp: peek_def parse_star parse_array_eq slice_from_def drop_Suc Suc_le_eq usize_try_from_def)
qed

lemma peek_None:
  "buf = [] \<or> hd buf \<noteq> 42 \<Longrightarrow> peek buf = Some None"
  "line_of (42 # bs) 0 = None \<Longrightarrow> peek (42 # bs) = Some None"
  "line_of (42 # bs) 0 = Some (header, at) \<Longrightarrow> number (tl header) = Inl e \<Longrightarrow> peek (42 # bs) = Some None"
  using line_of_star [of "42 # bs" bs header at]
  by (auto simp: peek_def slice_from_def drop_Suc Suc_le_eq split: list.splits)

section \<open>The wide scan finds what the narrow one does\<close>

lemma scan_word_fold:
  "foldl (\<lambda>word (n, byte). word OR push_bit (n * 8) (ucast byte)) w (enumerate k chunk) =
   (w OR push_bit (k * 8) (le_word chunk) :: u64)"
proof (induction chunk arbitrary: w k)
  case Nil
  then show ?case by simp
next
  case (Cons b bs)
  then show ?case by (simp add: push_bit_or or.assoc add.commute)
qed

lemma scan_word_eq: "length chunk = 8 \<Longrightarrow> scan_word chunk = zero_lanes (le_word (map (\<lambda>x. x XOR NL) chunk))"
  using scan_word_fold [of 0 0 chunk] le_word_xor_broadcast [of chunk NL]
  by (simp add: scan_word_def zero_lanes_def Let_def)

lemma scan_word_first:
  assumes "length chunk = 8"
  shows "(if scan_word chunk = 0 then None else Some (trailing_zeros (scan_word chunk) div 8)) =
    position (\<lambda>byte. byte = NL) chunk"
proof -
  let ?bs = "map (\<lambda>x. x XOR NL) chunk" and ?w = "scan_word chunk"
  have bits: "bit ?w n \<longleftrightarrow> n < 64 \<and> n mod 8 = 7 \<and> lit False ?bs (n div 8)" for n
    using assms by (simp add: scan_word_eq bit_zero_lanes)
  have zero: "?bs ! i = 0 \<longleftrightarrow> chunk ! i = NL" if "i < 8" for i
    using that assms by (simp add: xor_zero_iff)
  show ?thesis
  proof (cases "?w = 0")
    case True
    have "chunk ! i \<noteq> NL" if i: "i < 8" for i
    proof
      assume "chunk ! i = NL"
      then have "lit False ?bs i" using i zero assms by (intro lit_zero) auto
      then have "bit ?w (8 * i + 7)" using i unfolding bits by simp
      then show False using True by simp
    qed
    then have "position (\<lambda>byte. byte = NL) chunk = None"
      using assms by (auto simp: position_None in_set_conv_nth)
    then show ?thesis using True by simp
  next
    case False
    define i where "i = trailing_zeros ?w div 8"
    have i: "lit False ?bs i" "i < 8"
      using trailing_zeros_first(1,2) [OF False] by (auto simp: bits i_def)
    have less: "\<not> lit False ?bs j" if "j < i" for j
    proof
      assume "lit False ?bs j"
      then have "bit ?w (8 * j + 7)" using that i(2) unfolding bits by simp
      then show False using trailing_zeros_first(3) [OF False, of "8 * j + 7"] that unfolding i_def by linarith
    qed
    have "chunk ! i = NL" using lit_least_zero [OF i(1)] less i(2) zero by blast
    moreover have "chunk ! j \<noteq> NL" if "j < i" for j
      using less [OF that] lit_zero [of j ?bs False] zero [of j] that i(2) assms by auto
    ultimately have "position (\<lambda>byte. byte = NL) chunk = Some i"
      using i(2) assms by (simp add: position_Some)
    then show ?thesis using False by (simp add: i_def)
  qed
qed

lemma scan_from_eq:
  "at \<le> length from \<Longrightarrow> scan_from from at = map_option (\<lambda>n. at + n) (newline (drop at from))"
proof (induction "from" at rule: scan_from.induct)
  case (1 "from" at)
  show ?case
  proof (cases "at + 8 \<le> length from")
    case False
    then show ?thesis by (subst scan_from.simps) (simp add: newline_def)
  next
    case True
    let ?chunk = "take 8 (drop at from)"
    have len: "length ?chunk = 8" using True by simp
    have "drop at from = ?chunk @ drop (at + 8) from" by (metis add.commute append_take_drop_id drop_drop)
    then have nl: "newline (drop at from) = (case position (\<lambda>byte. byte = NL) ?chunk of
        Some i \<Rightarrow> Some i | None \<Rightarrow> map_option (\<lambda>i. 8 + i) (newline (drop (at + 8) from)))"
      using len by (metis newline_def position_append)
    show ?thesis
    proof (cases "scan_word ?chunk = 0")
      case z: True
      then show ?thesis
        using 1(1) [OF True refl] True scan_word_first [OF len] nl
        by (subst scan_from.simps) (simp add: Let_def option.map_comp comp_def add.assoc)
    next
      case False
      then show ?thesis
        using True scan_word_first [OF len] nl
        by (subst scan_from.simps) (simp add: Let_def, metis option.simps(5,9))
    qed
  qed
qed

section \<open>Properties\<close>

text \<open>What the simplifier needs to run the parser on a concrete buffer.\<close>

lemmas parse_evals =
  parse_def parse_array_eq parse_inline_eq array_loop_Suc line_of_def newline_def strip_cr_def
  command_new_def command_clear_def number_def is_ascii_digit_def is_ascii_whitespace_def
  i64_checked_def i64_MIN_def i64_MAX_def usize_try_from_def push_def u32_try_from_def
  MAX_ARGS_def MAX_BULK_def MAX_INLINE_def NL_def CR_def

text \<open>
  C30: a request written with the encoder's array header and bulk strings, whatever bytes the
  arguments hold and whatever follows it on the stream, parses as one whole command of exactly
  its own length, and the arguments read back are the ones written.
\<close>

theorem request_round_trip:
  assumes "length xs \<le> MAX_ARGS" "\<forall>x\<in>set xs. length x \<le> MAX_BULK"
    and "length (request_bytes xs @ rest) < 2 ^ 32"
  shows "\<exists>e c. put_request xs (encoder_new [] d) = Some e \<and>
    parse (buffer e @ rest) into = Some (Inr (Done (length (buffer e))), c) \<and>
    command_args c (buffer e @ rest) = map Some xs"
proof -
  have "put_request xs (encoder_new [] d) = Some (encoder_new (request_bytes xs) d)"
    using assms(1,2)
    by (subst put_request_eq)
       (auto simp: encoder_new_def out_extend_def MAX_ARGS_def MAX_BULK_def i64_MAX_def)
  then show ?thesis using parse_request [OF assms] by (auto simp: encoder_new_def buffer_def)
qed

theorem request_round_trip_witness:
  "\<exists>e c. put_request [[71, 69, 84], [13, 10]] (encoder_new [] Resp2) = Some e \<and>
    parse (buffer e @ [42]) command_new = Some (Inr (Done (length (buffer e))), c) \<and>
    command_args c (buffer e @ [42]) = map Some [[71, 69, 84], [13, 10]]"
  by (rule request_round_trip)
     (simp_all add: MAX_ARGS_def MAX_BULK_def request_bytes_def array_header_def bulk_bytes_def dec.simps)

text \<open>
  C31: parsing any buffer returns (no index in it can run out of range), every argument it records
  lies inside the buffer, and a whole command is at least one byte, no longer than the buffer, and
  holds all of its arguments.
\<close>

theorem parse_returns:
  "returns (parse buf into) (\<lambda>(r, c).
     list_all (span_within (length buf)) (args c) \<and>
     (\<forall>n. r = Inr (Done n) \<longrightarrow> 0 < n \<and> n \<le> length buf \<and> list_all (span_within n) (args c)))"
  by (rule parse_total)

theorem parse_returns_witness:
  "returns (parse [42, 49, 10, 36, 49, 10, 97, 13, 10] command_new) (\<lambda>(r, c).
     list_all (span_within (length [42, 49, 10, 36, 49, 10, 97, 13, 10 :: u8])) (args c) \<and>
     (\<forall>n. r = Inr (Done n) \<longrightarrow> 0 < n \<and> n \<le> length [42, 49, 10, 36, 49, 10, 97, 13, 10 :: u8] \<and>
        list_all (span_within n) (args c)))"
  by (rule parse_returns)

lemma parse_extend_final:
  assumes "parse buf into = Some (r, c)" "r \<noteq> Inr More" "r \<noteq> Inl NoNewline"
  shows "parse (buf @ extra) into = Some (r, c)"
proof -
  have buf: "buf \<noteq> []" using assms(1,2) by (auto simp: parse_def)
  show ?thesis
  proof (cases "hd buf = 42")
    case True
    then show ?thesis using parse_extend_array [OF buf True assms(1,2)] by simp
  next
    case False
    then obtain l where "line_of buf 0 = Some l"
      using assms parse_inline_no_line [OF buf False, of into] by (cases "line_of buf 0") (auto split: if_splits)
    then show ?thesis using parse_extend_inline [OF buf False] assms(1) by simp
  qed
qed

lemma parse_prefix_final:
  assumes whole: "parse buf into = Some (r, c)" and k: "hd buf = 42 \<or> k \<le> MAX_INLINE"
  shows "(\<exists>c'. parse (take k buf) into = Some (Inr More, c')) \<or> parse (take k buf) into = Some (r, c)"
proof (cases "take k buf = []")
  case True
  have "parse [] into = Some (Inr More, command_clear into)" by (simp add: parse_def)
  then show ?thesis unfolding True by blast
next
  case False
  then have b: "hd (take k buf) = hd buf" "take k buf @ drop k buf = buf" "length (take k buf) \<le> k" by auto
  obtain r' c' where r: "parse (take k buf) into = Some (r', c')"
    using parse_total [of "take k buf" into] by (fastforce elim!: returnsE)
  show ?thesis
  proof (cases "hd buf = 42")
    case True
    then show ?thesis using parse_extend_array [OF False _ r, of "drop k buf"] b whole r by (cases "r' = Inr More") auto
  next
    case inline: False
    then show ?thesis
      using parse_extend_inline [OF False, of _ "drop k buf" into] parse_inline_no_line [OF False, of into] b whole k
      by (cases "line_of (take k buf) 0") auto
  qed
qed

text \<open>
  C32: what the parser answers of a buffer, a whole command or an error other than the missing newline
  of an overlong inline line, stays its answer whatever arrives behind the buffer. A prefix that
  begins an array, or is no longer than the inline limit, either asks for more or already gives the
  answer of the whole; and if the whole holds a command of n bytes, every such prefix of fewer than n
  bytes asks for more. (Over the inline limit the cut does matter, as the next theorem shows.)
\<close>

theorem parse_in_pieces:
  assumes "parse buf into = Some (r, c)"
  shows "(r \<noteq> Inr More \<longrightarrow> r \<noteq> Inl NoNewline \<longrightarrow> parse (buf @ extra) into = Some (r, c)) \<and>
    (\<forall>k. hd buf = 42 \<or> k \<le> MAX_INLINE \<longrightarrow>
       (\<exists>c'. parse (take k buf) into = Some (Inr More, c')) \<or> parse (take k buf) into = Some (r, c)) \<and>
    (\<forall>n k. r = Inr (Done n) \<longrightarrow> k < n \<longrightarrow> hd buf = 42 \<or> k \<le> MAX_INLINE \<longrightarrow>
       (\<exists>c'. parse (take k buf) into = Some (Inr More, c')))"
  using parse_extend_final [OF assms] parse_prefix_final [OF assms] parse_prefix assms by blast

theorem parse_in_pieces_witness:
  "parse ([42, 49, 10, 36, 49, 10, 97, 13, 10] @ [42]) command_new =
     Some (Inr (Done 9), \<lparr> args = [\<lparr> span_at = 6, span_len = 1 \<rparr>] \<rparr>) \<and>
   (\<exists>c'. parse (take 3 [42, 49, 10, 36, 49, 10, 97, 13, 10]) command_new = Some (Inr More, c')) \<and>
   parse ([42, 120, 10] @ [42]) command_new = Some (Inl NotANumber, command_new)"
proof -
  have bad: "parse [42, 120, 10] command_new = Some (Inl NotANumber, command_new)" by (simp add: parse_evals command_new_def)
  show ?thesis
    using parse_in_pieces [of "[42, 49, 10, 36, 49, 10, 97, 13, 10]" command_new "Inr (Done 9)" "\<lparr> args = [\<lparr> span_at = 6, span_len = 1 \<rparr>] \<rparr>" "[42]"]
      parse_in_pieces [OF bad, of "[42]"]
    by (simp add: parse_evals)
qed

text \<open>
  The inline limit is a limit on the buffered prefix and not on the line. A line of one byte
  over the limit is refused when it arrives before its newline and accepted when the newline
  arrives with it.
\<close>

theorem inline_limit_depends_on_arrival:
  "parse (replicate (MAX_INLINE + 1) 97) into = Some (Inl NoNewline, command_clear into) \<and>
   (\<exists>c. parse (replicate (MAX_INLINE + 1) 97 @ [NL]) into = Some (Inr (Done (MAX_INLINE + 2)), c))"
proof
  let ?as = "replicate (MAX_INLINE + 1) (97 :: u8)"
  have none: "newline ?as = None" by (auto simp: newline_def position_None NL_def)
  have len: "newline (?as @ [NL]) = Some (MAX_INLINE + 1)"
    using none by (simp add: newline_def position_append del: replicate.simps)
  have line: "line_of ?as 0 = None" "line_of (?as @ [NL]) 0 = Some (?as, MAX_INLINE + 2)"
    using none len by (simp_all add: line_of_def strip_cr_def CR_def del: replicate.simps)
  have "hd ?as \<noteq> 42" by simp
  then show "parse ?as into = Some (Inl NoNewline, command_clear into)"
    using parse_inline_no_line [of ?as into] line(1) by (simp del: replicate.simps)
  have "tokens ?as = [?as]"
    using tokens_word [of 97 "replicate MAX_INLINE 97"]
    by (simp add: is_ascii_whitespace_def takeWhile_replicate dropWhile_replicate)
  then have "\<exists>spans. inline_loop ?as 0 (command_clear into) = (Inr (), command_clear into\<lparr> args := args (command_clear into) @ spans \<rparr>)"
    using inline_loop_tokens [of ?as "[NL]" "command_clear into" 0]
    by (simp add: MAX_INLINE_def MAX_ARGS_def command_clear_def del: replicate.simps) blast
  then show "\<exists>c. parse (?as @ [NL]) into = Some (Inr (Done (MAX_INLINE + 2)), c)"
    using line(2) by (auto simp: parse_def parse_inline_eq)
qed

lemma peek_parse:
  assumes "length buf < 2 ^ 32"
  shows "\<exists>ahead. peek buf = Some ahead \<and>
    (\<forall>n key. ahead = Some (n, key) \<longrightarrow> (\<exists>c. parse buf into = Some (Inr (Done n), c) \<and> key = key_of c)) \<and>
    (\<forall>n c. parse buf into = Some (Inr (Done n), c) \<longrightarrow> hd buf = 42 \<longrightarrow> args c \<noteq> [] \<longrightarrow> ahead = Some (n, key_of c))"
proof (cases "buf \<noteq> [] \<and> hd buf = 42")
  case False
  then show ?thesis using peek_None(1) [of buf] by (auto simp: parse_def)
next
  case True
  then obtain bs where buf: "buf = 42 # bs" by (cases buf) auto
  show ?thesis
  proof (cases "line_of buf 0")
    case None
    then show ?thesis using peek_None(2) by (simp add: buf parse_star parse_array_eq)
  next
    case (Some l)
    obtain header at where l: "l = (header, at)" by force
    show ?thesis
    proof (cases "number (tl header)")
      case (Inl e)
      then show ?thesis using peek_None(3) Some l by (simp add: buf parse_star parse_array_eq)
    next
      case (Inr v)
      then have "peek buf = Some (if v < 0 then None else done_with (parse buf into))"
        using peek_star assms Some l buf by blast
      moreover have "v < 0 \<Longrightarrow> parse buf into = Some (Inr (Done at), command_clear into)"
        using Some l Inr by (simp add: buf parse_star parse_array_eq usize_try_from_def)
      ultimately show ?thesis
        by (auto simp: done_with_def command_clear_def split: option.splits sum.splits Parsed.splits prod.splits)
    qed
  qed
qed

lemma peek_bound:
  assumes "length buf < 2 ^ 32"
  shows "returns (peek buf) (\<lambda>ahead. \<forall>n key. ahead = Some (n, key) \<longrightarrow> 0 < n \<and> n \<le> length buf)"
proof -
  obtain ahead where a: "peek buf = Some ahead"
    and b: "\<forall>n key. ahead = Some (n, key) \<longrightarrow> (\<exists>c. parse buf command_new = Some (Inr (Done n), c) \<and> key = key_of c)"
    by (rule exE [OF peek_parse [OF assms, of command_new]]) (elim conjE, rule that)
  show ?thesis
  proof (rule returnsI [OF a], intro allI impI)
    fix n key assume "ahead = Some (n, key)"
    then obtain c where "parse buf command_new = Some (Inr (Done n), c)" using b by metis
    then show "0 < n \<and> n \<le> length buf" using parse_total [of buf command_new] by simp
  qed
qed

text \<open>
  C33: the look-ahead agrees with the parse. What it reports is a whole command of that length
  whose second argument, if it has one, is the key it names; and it reports every array command
  that has arguments and has wholly arrived.
\<close>

theorem peek_agrees_with_parse:
  assumes "length buf < 2 ^ 32"
  shows "\<exists>ahead. peek buf = Some ahead \<and>
    (\<forall>n key. ahead = Some (n, key) \<longrightarrow> (\<exists>c. parse buf into = Some (Inr (Done n), c) \<and> key = key_of c)) \<and>
    (\<forall>n c. parse buf into = Some (Inr (Done n), c) \<longrightarrow> hd buf = 42 \<longrightarrow> args c \<noteq> [] \<longrightarrow> ahead = Some (n, key_of c))"
  by (rule peek_parse [OF assms])

theorem peek_agrees_with_parse_witness:
  "\<exists>ahead. peek [42, 50, 10, 36, 48, 10, 13, 10, 36, 49, 10, 97, 13, 10] = Some ahead \<and>
    (\<forall>n key. ahead = Some (n, key) \<longrightarrow>
      (\<exists>c. parse [42, 50, 10, 36, 48, 10, 13, 10, 36, 49, 10, 97, 13, 10] command_new = Some (Inr (Done n), c) \<and> key = key_of c)) \<and>
    (\<forall>n c. parse [42, 50, 10, 36, 48, 10, 13, 10, 36, 49, 10, 97, 13, 10] command_new = Some (Inr (Done n), c) \<longrightarrow>
      hd [42, 50, 10, 36, 48, 10, 13, 10, 36, 49, 10, 97, 13, 10 :: u8] = 42 \<longrightarrow> args c \<noteq> [] \<longrightarrow> ahead = Some (n, key_of c))"
  by (rule peek_agrees_with_parse) simp

text \<open>
  C34: an inline command is its line split at whitespace: the arguments are the words of the line,
  in order, and the command ends after the newline.
\<close>

theorem inline_words:
  assumes "buf \<noteq> []" "hd buf \<noteq> 42" "newline buf = Some e"
    and "length buf < 2 ^ 32" "length (tokens (strip_cr (take e buf))) \<le> MAX_ARGS"
  shows "\<exists>c. parse buf into = Some (Inr (Done (e + 1)), c) \<and>
    command_args c buf = map Some (tokens (strip_cr (take e buf)))"
proof -
  let ?chars = "strip_cr (take e buf)"
  have line: "line_of buf 0 = Some (?chars, e + 1)" using assms(3) by (simp add: line_of_def)
  then obtain rest where rest: "buf = ?chars @ rest" using line_of_prefix by blast
  obtain spans where "inline_loop ?chars 0 (command_clear into) = (Inr (), command_clear into\<lparr> args := spans \<rparr>)"
      "map (span_slice buf) spans = map Some (tokens ?chars)"
    using inline_loop_tokens [of ?chars rest "command_clear into" 0] assms(4,5) rest
    by (auto simp: command_clear_def)
  moreover have "parse buf into = parse_inline buf (command_clear into)"
    using assms(1,2) by (cases buf) (simp_all add: parse_def)
  ultimately show ?thesis using line by (simp add: parse_inline_eq command_args_eq)
qed

theorem inline_words_witness:
  "\<exists>c. parse [80, 73, 32, 32, 78, 13, 10] command_new = Some (Inr (Done (6 + 1)), c) \<and>
    command_args c [80, 73, 32, 32, 78, 13, 10] = map Some (tokens (strip_cr (take 6 [80, 73, 32, 32, 78, 13, 10])))"
  by (rule inline_words) (simp_all add: parse_evals tokens.simps)

text \<open>C35: the scan that reads a machine word at a time finds exactly the newline the byte scan finds.\<close>

theorem scan_finds_newline: "scan from = newline from"
  by (simp add: scan_def scan_from_eq option.map_ident)

text \<open>Every integer but the most negative one that the encoder writes reads back as itself.\<close>

theorem integer_round_trip:
  assumes "i64_MIN < v" "v \<le> i64_MAX"
  shows "\<exists>e. put_number v (encoder_new [] d) = Some e \<and> integer (buffer e) = Inr v"
  using assms put_number_eq [of v "encoder_new [] d"] number_dec_int [of v]
  by (simp add: encoder_new_def out_extend_def buffer_def integer_def)

theorem integer_round_trip_witness:
  "\<exists>e. put_number (- 120) (encoder_new [] Resp3) = Some e \<and> integer (buffer e) = Inr (- 120)"
  by (rule integer_round_trip) (simp_all add: i64_MIN_def i64_MAX_def)

text \<open>
  The most negative integer is written in full by the encoder, fits an \<open>i64\<close>, and is refused
  as not a number when it is read: the digits are accumulated before the sign is applied.
\<close>

theorem most_negative_integer_refused:
  "\<exists>e. put_number i64_MIN (encoder_new [] d) = Some e \<and>
    buffer e = [45, 57, 50, 50, 51, 51, 55, 50, 48, 51, 54, 56, 53, 52, 55, 55, 53, 56, 48, 56] \<and>
    integer (buffer e) = Inl NotANumber"
proof -
  have "dec_int i64_MIN = [45, 57, 50, 50, 51, 51, 55, 50, 48, 51, 54, 56, 53, 52, 55, 55, 53, 56, 48, 56]"
    by (simp add: dec_int_def i64_MIN_def dec.simps)
  moreover have "integer [45, 57, 50, 50, 51, 51, 55, 50, 48, 51, 54, 56, 53, 52, 55, 55, 53, 56, 48, 56] = Inl NotANumber"
    by (simp add: integer_def number_def is_ascii_digit_def i64_checked_def i64_MIN_def i64_MAX_def)
  ultimately show ?thesis
    using put_number_eq [of i64_MIN "encoder_new [] d"]
    by (simp add: encoder_new_def out_extend_def buffer_def) (simp add: i64_MIN_def i64_MAX_def)
qed

end
