(* ===== verification/Rugo_Map.thy ===== *)
theory Rugo_Map
  imports Rugo_Cache Rugo_Clock Rugo_Resp
begin

text \<open>
  The sharded map, \<^verbatim>\<open>crates/rugo-map/src/lib.rs\<close>: the shards with the counters they publish, and
  every operation of the map. \<^verbatim>\<open>with_key\<close> runs its body while it holds the shard's lock, so an operation
  is one step of the state here; the lock itself is in \<open>Rugo_Lock\<close>.

  What the build and the machine decide is collected in an \<open>Env\<close> that each call takes: the target,
  the arena's platform, whether the system would grant a segment during the call, and the capacity
  of the arena's vectors in each shard after it. The three prefetch hints a shard publishes, and
  \<^verbatim>\<open>warm\<close> and \<^verbatim>\<open>warm_entry\<close> that use them, have no effect on the state and are left out.
\<close>

section \<open>Data\<close>

definition MAX_SHARDS :: nat where "MAX_SHARDS = 4096"

record Env =
  env_target :: target
  env_platform :: Platform
  env_grants :: bool
  env_caps :: "nat \<Rightarrow> Capacities"

record Shard =
  sh_table :: Table
  sh_len :: nat
  sh_resident :: nat
  sh_charged :: nat
  sh_sweep_at :: nat

record Map =
  mp_shards :: "Shard list"
  mp_shard_shift :: nat
  mp_seed :: u64
  mp_maxmemory :: nat
  mp_shard_budget :: nat
  mp_clock :: Clock
  mp_sweep_shard :: nat

datatype When = Always | Absent | Present
datatype Expiry = At u32 | Never | Keep
datatype Uncounted = NotANumber | OutOfRange | UncountedFull

definition uncounted_message :: "Uncounted \<Rightarrow> string" where
  "uncounted_message u = (case u of
     NotANumber \<Rightarrow> ''value is not an integer or out of range''
   | OutOfRange \<Rightarrow> ''increment or decrement would overflow''
   | UncountedFull \<Rightarrow> ''out of memory'')"

section \<open>Making a map and reaching a shard\<close>

definition map_with_seed :: "nat \<Rightarrow> nat \<Rightarrow> u64 \<Rightarrow> nat option \<Rightarrow> Map" where
  "map_with_seed shards maxmemory seed since =
     (let shards = next_power_of_two (min (max shards 1) MAX_SHARDS);
          shard_shift = 64 - trailing_zeros (of_nat shards)
      in \<lparr> mp_shards = replicate shards \<lparr> sh_table = table_new seed, sh_len = 0, sh_resident = 0, sh_charged = 0, sh_sweep_at = 0 \<rparr>,
           mp_shard_shift = shard_shift, mp_seed = seed, mp_maxmemory = maxmemory,
           mp_shard_budget = maxmemory div shards, mp_clock = clock_new since, mp_sweep_shard = 0 \<rparr>)"

definition map_hash :: "Map \<Rightarrow> bytes \<Rightarrow> u64 option" where
  "map_hash Mp key = hash key (mp_seed Mp)"

definition shard_of :: "Map \<Rightarrow> u64 \<Rightarrow> nat" where
  "shard_of Mp hsh = (if length (mp_shards Mp) = 1 then 0 else unat (drop_bit (mp_shard_shift Mp) hsh))"

definition publish :: "Env \<Rightarrow> nat \<Rightarrow> Shard \<Rightarrow> Table \<Rightarrow> Shard option" where
  "publish ev i S T = do {
     resident \<leftarrow> table_resident_bytes (env_platform ev) (env_caps ev i) T;
     Some (S\<lparr> sh_table := T, sh_len := table_len T, sh_resident := resident, sh_charged := charged_bytes T \<rparr>) }"

definition with_key :: "Env \<Rightarrow> Map \<Rightarrow> u64 \<Rightarrow> (Table \<Rightarrow> u32 \<Rightarrow> ('r \<times> Table) option) \<Rightarrow> ('r \<times> Map) option" where
  "with_key ev Mp hsh each = do {
     let now = clock_now (mp_clock Mp);
     S \<leftarrow> idx (mp_shards Mp) (shard_of Mp hsh);
     (out, T) \<leftarrow> each (sh_table S) now;
     S \<leftarrow> publish ev (shard_of Mp hsh) S T;
     shards \<leftarrow> set_idx (mp_shards Mp) (shard_of Mp hsh) S;
     Some (out, Mp\<lparr> mp_shards := shards \<rparr>) }"

section \<open>Eviction\<close>

definition roll_step :: "u64 \<Rightarrow> u64" where
  "roll_step roll =
     (let roll = roll XOR push_bit 13 roll;
          roll = roll XOR drop_bit 7 roll
      in roll XOR push_bit 17 roll)"

fun evict_loop :: "target \<Rightarrow> nat \<Rightarrow> nat option \<Rightarrow> nat \<Rightarrow> u64 \<Rightarrow> nat \<Rightarrow> Table \<Rightarrow> (nat \<times> Table) option" where
  "evict_loop t budget spare 0 roll went T = Some (went, T)"
| "evict_loop t budget spare (Suc n) roll went T =
     (if charged_bytes T > budget then do {
        let roll = roll_step roll;
        (gone, T) \<leftarrow> evict_one t T roll spare;
        if gone then evict_loop t budget spare n roll (went + 1) T else Some (went, T) }
      else Some (went, T))"

definition evict_to_fit :: "target \<Rightarrow> Table \<Rightarrow> nat \<Rightarrow> bytes \<Rightarrow> u64 \<Rightarrow> Table option" where
  "evict_to_fit t T budget key hsh =
     (if budget = 0 \<or> charged_bytes T \<le> budget then Some T
      else do {
        spare \<leftarrow> slot_of t T key hsh;
        (went, T) \<leftarrow> evict_loop t budget spare 64 (hsh OR 1) 0 T;
        if 0 < went then do { (_, T) \<leftarrow> shrink t T; Some T } else Some T })"

section \<open>Decimal integers\<close>

fun decimal_loop :: "bytes \<Rightarrow> int \<Rightarrow> int option" where
  "decimal_loop [] value = Some value"
| "decimal_loop (byte # bs) value =
     (if 48 \<le> byte \<and> byte - 48 < 10
      then do {
        value \<leftarrow> i64_checked (value * 10);
        value \<leftarrow> i64_checked (value - int (unat (byte - 48)));
        decimal_loop bs value }
      else None)"

definition decimal :: "bytes \<Rightarrow> int option" where
  "decimal text =
     (if text = [] \<or> 20 < length text then None
      else let (negative, ds) = (if hd text = 45 then (True, tl text) else (False, text))
           in if ds = [] \<or> (hd ds = 48 \<and> (negative \<or> 1 < length ds)) then None
              else do {
                value \<leftarrow> decimal_loop ds 0;
                if negative then Some value else i64_checked (- value) })"

definition map_digits :: "bytes \<Rightarrow> int \<Rightarrow> (bytes \<times> nat) option" where
  "map_digits into v = do {
     (buf, at) \<leftarrow> digits_loop (replicate 20 0) 20 (nat \<bar>v\<bar>);
     (buf, at) \<leftarrow> (if v < 0 then do {
         at \<leftarrow> usub at 1;
         buf \<leftarrow> set_idx buf at 45;
         Some (buf, at) }
       else Some (buf, at));
     len \<leftarrow> usub (length buf) at;
     bs \<leftarrow> slice_from buf at;
     into \<leftarrow> copy_into into 0 len bs;
     Some (into, len) }"

section \<open>The operations\<close>

definition map_get :: "Env \<Rightarrow> Map \<Rightarrow> bytes \<Rightarrow> (bytes option \<times> Map) option" where
  "map_get ev Mp key = do {
     hsh \<leftarrow> map_hash Mp key;
     with_key ev Mp hsh (\<lambda>T now. table_get (env_target ev) T key hsh now) }"

definition map_view :: "Env \<Rightarrow> Map \<Rightarrow> bytes \<Rightarrow> (View option \<times> Map) option" where
  "map_view ev Mp key = do {
     hsh \<leftarrow> map_hash Mp key;
     with_key ev Mp hsh (\<lambda>T now. table_view (env_target ev) T key hsh now) }"

definition map_contains :: "Env \<Rightarrow> Map \<Rightarrow> bytes \<Rightarrow> (bool \<times> Map) option" where
  "map_contains ev Mp key = do {
     hsh \<leftarrow> map_hash Mp key;
     with_key ev Mp hsh (\<lambda>T now. table_contains (env_target ev) T key hsh now) }"

definition map_set :: "Env \<Rightarrow> Map \<Rightarrow> bytes \<Rightarrow> bytes \<Rightarrow> u32 option \<Rightarrow> u32 option \<Rightarrow> ((Full + Wrote) \<times> Map) option" where
  "map_set ev Mp key val expiry user_flags = do {
     hsh \<leftarrow> map_hash Mp key;
     with_key ev Mp hsh (\<lambda>T now. do {
       (r, T) \<leftarrow> table_set (env_target ev) (env_platform ev) (env_grants ev) T key val hsh expiry user_flags;
       (case r of
          Inl e \<Rightarrow> Some (Inl e, T)
        | Inr wrote \<Rightarrow> do {
            T \<leftarrow> evict_to_fit (env_target ev) T (mp_shard_budget Mp) key hsh;
            Some (Inr wrote, T) }) }) }"

definition map_set_when :: "Env \<Rightarrow> Map \<Rightarrow> bytes \<Rightarrow> bytes \<Rightarrow> When \<Rightarrow> Expiry \<Rightarrow> u32 option \<Rightarrow>
    ((Full + Wrote option) \<times> Map) option" where
  "map_set_when ev Mp key val when expiry user_flags = do {
     hsh \<leftarrow> map_hash Mp key;
     with_key ev Mp hsh (\<lambda>T now. do {
       (seen, T) \<leftarrow> table_view (env_target ev) T key hsh now;
       let kept = map_option view_expiry seen;
       if (when = Absent \<and> kept \<noteq> None) \<or> (when = Present \<and> kept = None) then Some (Inr None, T)
       else do {
         let expiry = (case expiry of At at \<Rightarrow> Some at | Never \<Rightarrow> None | Keep \<Rightarrow> Option.bind kept (\<lambda>e. e));
         (r, T) \<leftarrow> table_set (env_target ev) (env_platform ev) (env_grants ev) T key val hsh expiry user_flags;
         (case r of
            Inl e \<Rightarrow> Some (Inl e, T)
          | Inr wrote \<Rightarrow> do {
              T \<leftarrow> evict_to_fit (env_target ev) T (mp_shard_budget Mp) key hsh;
              Some (Inr (Some wrote), T) }) } }) }"

definition map_expire :: "Env \<Rightarrow> Map \<Rightarrow> bytes \<Rightarrow> u32 option \<Rightarrow> ((Full + bool) \<times> Map) option" where
  "map_expire ev Mp key expiry = do {
     hsh \<leftarrow> map_hash Mp key;
     with_key ev Mp hsh (\<lambda>T now. table_expire (env_target ev) (env_platform ev) (env_grants ev) T key hsh expiry now) }"

definition map_deadline :: "Env \<Rightarrow> Map \<Rightarrow> bytes \<Rightarrow> (u32 option option \<times> Map) option" where
  "map_deadline ev Mp key = do {
     (seen, Mp) \<leftarrow> map_view ev Mp key;
     Some (map_option view_expiry seen, Mp) }"

definition map_increment :: "Env \<Rightarrow> Map \<Rightarrow> bytes \<Rightarrow> int \<Rightarrow> ((Uncounted + int) \<times> Map) option" where
  "map_increment ev Mp key delta = do {
     hsh \<leftarrow> map_hash Mp key;
     with_key ev Mp hsh (\<lambda>T now. do {
       (seen, T) \<leftarrow> table_view (env_target ev) T key hsh now;
       (case (case seen of
                Some view \<Rightarrow> map_option (\<lambda>current. (current, view_expiry view, view_user_flags view)) (decimal (view_value view))
              | None \<Rightarrow> Some (0, None, None)) of
          None \<Rightarrow> Some (Inl NotANumber, T)
        | Some (current, expiry, user_flags) \<Rightarrow>
            (case i64_checked (current + delta) of
               None \<Rightarrow> Some (Inl OutOfRange, T)
             | Some next_value \<Rightarrow> do {
                 (buf, wrote) \<leftarrow> map_digits (replicate 20 0) next_value;
                 text_of \<leftarrow> slice buf 0 wrote;
                 (r, T) \<leftarrow> table_set (env_target ev) (env_platform ev) (env_grants ev) T key text_of hsh expiry user_flags;
                 (case r of
                    Inl _ \<Rightarrow> Some (Inl UncountedFull, T)
                  | Inr _ \<Rightarrow> do {
                      T \<leftarrow> evict_to_fit (env_target ev) T (mp_shard_budget Mp) key hsh;
                      Some (Inr next_value, T) }) })) }) }"

definition map_remove :: "Env \<Rightarrow> Map \<Rightarrow> bytes \<Rightarrow> (bool \<times> Map) option" where
  "map_remove ev Mp key = do {
     hsh \<leftarrow> map_hash Mp key;
     with_key ev Mp hsh (\<lambda>T now. table_remove (env_target ev) T key hsh) }"

definition map_len :: "Map \<Rightarrow> nat" where
  "map_len Mp = sum_list (map sh_len (mp_shards Mp))"

definition map_is_empty :: "Map \<Rightarrow> bool" where
  "map_is_empty Mp \<longleftrightarrow> map_len Mp = 0"

definition map_resident_bytes :: "Map \<Rightarrow> nat" where
  "map_resident_bytes Mp = sum_list (map sh_resident (mp_shards Mp))"

definition map_charged_bytes :: "Map \<Rightarrow> nat" where
  "map_charged_bytes Mp = sum_list (map sh_charged (mp_shards Mp))"

definition map_live_bytes :: "Map \<Rightarrow> nat" where
  "map_live_bytes Mp = sum_list (map (\<lambda>S. table_live_bytes (sh_table S)) (mp_shards Mp))"

definition map_index_bytes :: "Map \<Rightarrow> nat" where
  "map_index_bytes Mp = sum_list (map (\<lambda>S. index_bytes (sh_table S)) (mp_shards Mp))"

fun clear_shards :: "Env \<Rightarrow> nat \<Rightarrow> Shard list \<Rightarrow> Shard list option" where
  "clear_shards ev i [] = Some []"
| "clear_shards ev i (S # Ss) = do {
     T \<leftarrow> table_clear (sh_table S);
     (_, T) \<leftarrow> shrink (env_target ev) T;
     S \<leftarrow> publish ev i S T;
     Ss \<leftarrow> clear_shards ev (i + 1) Ss;
     Some (S # Ss) }"

definition map_clear :: "Env \<Rightarrow> Map \<Rightarrow> Map option" where
  "map_clear ev Mp = do {
     shards \<leftarrow> clear_shards ev 0 (mp_shards Mp);
     Some (Mp\<lparr> mp_shards := shards \<rparr>) }"

definition map_sweep :: "Env \<Rightarrow> Map \<Rightarrow> nat \<Rightarrow> (nat \<times> Map) option" where
  "map_sweep ev Mp budget = do {
     let now = clock_now (mp_clock Mp);
     let i = mp_sweep_shard Mp mod length (mp_shards Mp);
     let Mp = Mp\<lparr> mp_sweep_shard := (mp_sweep_shard Mp + 1) mod 2 ^ 64 \<rparr>;
     S \<leftarrow> idx (mp_shards Mp) i;
     ((next_at, removed), T) \<leftarrow> table_sweep (env_target ev) (sh_table S) (sh_sweep_at S) budget now;
     T \<leftarrow> (if 0 < removed then do { (_, T) \<leftarrow> shrink (env_target ev) T; Some T } else Some T);
     S \<leftarrow> publish ev i S T;
     shards \<leftarrow> set_idx (mp_shards Mp) i (S\<lparr> sh_sweep_at := next_at \<rparr>);
     Some (removed, Mp\<lparr> mp_shards := shards \<rparr>) }"

end
