(* ===== verification/Rugo_Sharded.thy ===== *)
theory Rugo_Sharded
  imports Rugo_Map
begin

text \<open>
  The map over all shards as one cache: \<open>map_inv\<close> says that each shard's table holds exactly the keys
  whose hash leads to it and that its published counters are true, and every operation of the map is
  shown to do on the cache what it promises.
\<close>

section \<open>Decimal integers\<close>

lemma decimal_loop_append:
  "decimal_loop (xs @ ys) v = Option.bind (decimal_loop xs v) (decimal_loop ys)"
  by (induction xs arbitrary: v) (simp_all add: bind_eq_Some_conv split: bind_splits)

lemma digit_range: "d < 10 \<Longrightarrow> (48 :: u8) \<le> 48 + of_nat d \<and> (48 + of_nat d) - 48 < (10 :: u8) \<and> unat ((48 + of_nat d) - 48 :: u8) = d"
proof -
  assume d: "d < 10"
  then have u: "unat (of_nat d :: u8) = d" by (simp add: unat_of_nat take_bit_nat_eq_self)
  moreover have "unat (48 + of_nat d :: u8) = 48 + d"
    using d u by (subst unat_add_lem [THEN iffD1]) simp_all
  ultimately show ?thesis using d by (simp add: word_le_nat_alt word_less_nat_alt)
qed

lemma decimal_loop_dec: "n \<le> 2 ^ 63 \<Longrightarrow> decimal_loop (dec n) 0 = Some (- int n)"
proof (induction n rule: dec.induct)
  case (1 n)
  show ?case
  proof (cases "n < 10")
    case True
    then show ?thesis using digit_range [OF True]
      by (subst dec.simps) (simp add: i64_checked_def i64_MIN_def i64_MAX_def)
  next
    case False
    have d: "n mod 10 < 10" by simp
    have IH: "decimal_loop (dec (n div 10)) 0 = Some (- int (n div 10))" using 1 False by simp
    have split: "int n = int (n div 10) * 10 + int (n mod 10)" by (metis div_mult_mod_eq of_nat_add of_nat_mult of_nat_numeral)
    have "- (int (n div 10) * 10) - int (n mod 10) = - int n" using split by simp
    moreover have n: "int n \<le> 2 ^ 63" using 1(2) by (metis of_nat_le_iff of_nat_numeral of_nat_power)
    moreover have "int (n div 10) * 10 \<le> 2 ^ 63" using split n by linarith
    ultimately show ?thesis using digit_range [OF d] IH False
      by (subst dec.simps) (simp add: decimal_loop_append i64_checked_def i64_MIN_def i64_MAX_def)
  qed
qed

lemma dec_zero: "dec n \<noteq> [] \<and> (hd (dec n) = 48 \<longleftrightarrow> n = 0)"
proof (induction n rule: dec.induct)
  case (1 n)
  show ?case
  proof (cases "n < 10")
    case True
    have "(48 + of_nat n :: u8) = 48 \<longleftrightarrow> n = 0"
    proof
      assume eq: "(48 + of_nat n :: u8) = 48"
      show "n = 0" using digit_range [OF True] unfolding eq by simp
    qed simp
    then show ?thesis using True by (subst (1 2) dec.simps) simp
  next
    case False
    then have "n div 10 \<noteq> 0" by auto
    then show ?thesis using 1 [OF False] False by (subst (1 2) dec.simps) simp
  qed
qed

lemma dec_0: "dec 0 = [48]"
  by (subst dec.simps) simp

lemma dec_not_minus: "hd (dec n) \<noteq> 45"
proof -
  obtain d where d: "d < 10" "hd (dec n) = 48 + of_nat d" using dec_digits [of "hd (dec n)" n] by auto
  then have "48 \<le> hd (dec n)" using digit_range [OF d(1)] by simp
  then show ?thesis by (auto simp: word_le_nat_alt)
qed

lemma decimal_dec_int: "i64_MIN \<le> v \<Longrightarrow> v \<le> i64_MAX \<Longrightarrow> decimal (dec_int v) = Some v"
proof -
  assume v: "i64_MIN \<le> v" "v \<le> i64_MAX"
  have "nat \<bar>v\<bar> < 10 ^ 19" using v by (simp add: i64_MIN_def i64_MAX_def)
  then have len: "length (dec (nat \<bar>v\<bar>)) \<le> 19" by (rule length_dec) simp
  show ?thesis
  proof (cases "v < 0")
    case True
    then have "nat (- v) \<le> 2 ^ 63" using v by (simp add: i64_MIN_def)
    from decimal_loop_dec [OF this] show ?thesis
      using True len dec_zero [of "nat (- v)"] by (simp add: decimal_def dec_int_def)
  next
    case False
    then have "nat v \<le> 2 ^ 63" using v by (simp add: i64_MAX_def)
    from decimal_loop_dec [OF this] show ?thesis
      using False len dec_zero [of "nat v"] dec_not_minus [of "nat v"] v dec_0
      by (cases "v = 0") (auto simp: decimal_def dec_int_def i64_checked_def)
  qed
qed

lemma map_digits_eq:
  assumes "i64_MIN \<le> v" "v \<le> i64_MAX"
  shows "\<exists>buf. map_digits (replicate 20 0) v = Some (buf, length (dec_int v)) \<and> slice buf 0 (length (dec_int v)) = Some (dec_int v)"
proof -
  let ?n = "nat \<bar>v\<bar>"
  have "?n < 10 ^ 19" using assms by (simp add: i64_MIN_def i64_MAX_def)
  then have len: "length (dec ?n) \<le> 19" by (rule length_dec) simp
  then obtain buf where d: "digits_loop (replicate 20 0) 20 ?n = Some (buf, 20 - length (dec ?n))" "drop (20 - length (dec ?n)) buf = dec ?n"
    using digits_loop_eq [of ?n 20 "replicate 20 0"] by auto
  have n: "0 < length (dec ?n)" by simp
  have buf: "length buf = 20" using arg_cong [OF d(2), of length] len n unfolding length_drop by linarith
  show ?thesis
  proof (cases "v < 0")
    case True
    let ?at = "19 - length (dec ?n)"
    have "drop ?at (buf[?at := 45]) = 45 # drop (Suc ?at) buf"
      using buf len n by (simp add: Cons_nth_drop_Suc [symmetric] drop_update_cancel)
    moreover have "Suc ?at = 20 - length (dec ?n)" using len by simp
    ultimately have "drop ?at (buf[?at := 45]) = dec_int v" using d(2) True by (simp add: dec_int_def)
    moreover have "Suc 0 \<le> 20 - length (dec (nat (- v)))" "19 - length (dec (nat (- v))) < 20" using len True by auto
    ultimately show ?thesis
      using d(1) True buf len
      by (simp add: map_digits_def panic_defs dec_int_def copy_into_def splice_def slice_def slice_from_def)
  next
    case False
    then show ?thesis
      using d buf len by (simp add: map_digits_def panic_defs dec_int_def copy_into_def splice_def slice_def slice_from_def)
  qed
qed

section \<open>The shards of a cache\<close>

definition part :: "Map \<Rightarrow> nat \<Rightarrow> cache \<Rightarrow> cache" where
  "part Mp i m = (\<lambda>k. if shard_of Mp (hash_of (mp_seed Mp) k) = i then m k else None)"

definition graft :: "Map \<Rightarrow> nat \<Rightarrow> cache \<Rightarrow> cache \<Rightarrow> cache" where
  "graft Mp i mi m = (\<lambda>k. if shard_of Mp (hash_of (mp_seed Mp) k) = i then mi k else m k)"

definition map_shape :: "Map \<Rightarrow> bool" where
  "map_shape Mp \<longleftrightarrow> (\<exists>b\<le>12. length (mp_shards Mp) = 2 ^ b \<and> mp_shard_shift Mp = 64 - b)"

definition shard_ok :: "Platform \<Rightarrow> target \<Rightarrow> u64 \<Rightarrow> Shard \<Rightarrow> cache \<Rightarrow> bool" where
  "shard_ok p t seed S m \<longleftrightarrow> table_inv p t (sh_table S) m \<and> tb_seed (sh_table S) = seed \<and>
     sh_len S = card (dom m) \<and> sh_charged S = charged_bytes (sh_table S)"

definition map_inv :: "Platform \<Rightarrow> target \<Rightarrow> Map \<Rightarrow> cache \<Rightarrow> bool" where
  "map_inv p t Mp m \<longleftrightarrow> map_shape Mp \<and>
     (\<forall>i<length (mp_shards Mp). shard_ok p t (mp_seed Mp) (mp_shards Mp ! i) (part Mp i m))"

text \<open>What is left when the system refused memory: every entry reads as before.\<close>

definition map_readable :: "target \<Rightarrow> Map \<Rightarrow> cache \<Rightarrow> bool" where
  "map_readable t Mp m \<longleftrightarrow> map_shape Mp \<and>
     (\<forall>i<length (mp_shards Mp). table_readable t (sh_table (mp_shards Mp ! i)) (part Mp i m) \<and>
        tb_seed (sh_table (mp_shards Mp ! i)) = mp_seed Mp)"

lemma shard_of_less: "map_shape Mp \<Longrightarrow> shard_of Mp hsh < length (mp_shards Mp)"
proof -
  assume "map_shape Mp"
  then obtain b where b: "b \<le> 12" "length (mp_shards Mp) = 2 ^ b" "mp_shard_shift Mp = 64 - b" by (auto simp: map_shape_def)
  have "unat hsh < 2 ^ 64" by (rule order_less_le_trans [OF unsigned_less]) simp
  also have "(2 :: nat) ^ 64 = 2 ^ b * 2 ^ (64 - b)" using b(1) by (simp flip: power_add)
  finally have "unat hsh div 2 ^ (64 - b) < 2 ^ b" by (simp add: less_mult_imp_div_less)
  then have "unat (drop_bit (64 - b) hsh) < 2 ^ b" unfolding unat_drop_bit_eq drop_bit_eq_div [of _ "unat hsh"] .
  then show ?thesis using b by (auto simp: shard_of_def)
qed

lemma part_upd [simp]: "shard_of Mp (hash_of (mp_seed Mp) k) = i \<Longrightarrow> (part Mp i m)(k := x) = part Mp i (m(k := x))"
  by (auto simp: part_def)

lemma part_upd_other: "shard_of Mp (hash_of (mp_seed Mp) k) \<noteq> i \<Longrightarrow> part Mp i (m(k := x)) = part Mp i m"
  by (auto simp: part_def)

lemma part_key [simp]: "shard_of Mp (hash_of (mp_seed Mp) k) = i \<Longrightarrow> part Mp i m k = m k"
  by (simp add: part_def)

lemma part_purge: "shard_of Mp (hash_of (mp_seed Mp) k) = i \<Longrightarrow> purge now k (part Mp i m) = part Mp i (purge now k m)"
  by (auto simp: purge_def split: option.splits)

lemma graft_part [simp]: "graft Mp i (part Mp i m') m = (\<lambda>k. if shard_of Mp (hash_of (mp_seed Mp) k) = i then m' k else m k)"
  by (auto simp: graft_def part_def)

lemma part_graft:
  assumes "mi \<subseteq>\<^sub>m part Mp i m'"
  shows "part Mp j (graft Mp i mi m) = (if j = i then mi else part Mp j m)"
proof -
  have "mi k = None" if "shard_of Mp (hash_of (mp_seed Mp) k) \<noteq> i" for k
    using assms that by (auto simp: map_le_def part_def) (metis domIff option.distinct(1))
  then show ?thesis by (auto simp: part_def graft_def)
qed

definition replaced :: "Map \<Rightarrow> nat \<Rightarrow> Table \<Rightarrow> Map \<Rightarrow> bool" where
  "replaced Mp i T Mp' \<longleftrightarrow> (\<exists>S. Mp' = Mp\<lparr> mp_shards := (mp_shards Mp)[i := S] \<rparr> \<and> sh_table S = T \<and>
     sh_len S = tb_len T \<and> sh_charged S = charged_bytes T)"

lemma shard_of_shards [simp]: "shard_of (Mp\<lparr> mp_shards := (mp_shards Mp)[i := S] \<rparr>) hsh = shard_of Mp hsh"
  by (simp add: shard_of_def)

lemma part_shards [simp]: "part (Mp\<lparr> mp_shards := (mp_shards Mp)[i := S] \<rparr>) j = part Mp j"
  by (rule ext) (simp add: part_def)

lemma part_sweep_shard [simp]: "part (Mp\<lparr> mp_sweep_shard := x \<rparr>) = part Mp"
proof -
  have "shard_of (Mp\<lparr> mp_sweep_shard := x \<rparr>) hsh = shard_of Mp hsh" for hsh by (simp add: shard_of_def)
  then show ?thesis by (intro ext) (simp add: part_def)
qed

lemma table_inv_len: "table_inv p t T m \<Longrightarrow> tb_len T = card (dom m)"
  by (auto simp: table_inv_def table_rep_def counted_def)

lemma table_inv_readable: "table_inv p t T m \<Longrightarrow> table_readable t T m"
  unfolding table_inv_def table_readable_def using ar.holds_readable by blast

lemma map_inv_replaced:
  assumes inv: "map_inv p t Mp m" and i: "i < length (mp_shards Mp)" and rep: "replaced Mp i T Mp'"
    and T: "table_inv p t T (part Mp i m')" "tb_seed T = mp_seed Mp" and rest: "\<And>j. j \<noteq> i \<Longrightarrow> part Mp j m' = part Mp j m"
  shows "map_inv p t Mp' m'"
proof -
  obtain S where S: "Mp' = Mp\<lparr> mp_shards := (mp_shards Mp)[i := S] \<rparr>" "sh_table S = T" "sh_len S = tb_len T" "sh_charged S = charged_bytes T"
    using rep by (auto simp: replaced_def)
  have "shard_ok p t (mp_seed Mp) ((mp_shards Mp)[i := S] ! j) (part Mp j m')" if "j < length (mp_shards Mp)" for j
    using inv that S(2-) T rest [of j] table_inv_len [OF T(1)] i
    by (cases "j = i") (auto simp: map_inv_def shard_ok_def)
  then show ?thesis using inv S(1) by (simp add: map_inv_def map_shape_def)
qed

lemma map_readable_replaced:
  assumes inv: "map_inv p t Mp m" and i: "i < length (mp_shards Mp)" and rep: "replaced Mp i T Mp'"
    and T: "table_readable t T (part Mp i m')" "tb_seed T = mp_seed Mp" and rest: "\<And>j. j \<noteq> i \<Longrightarrow> part Mp j m' = part Mp j m"
  shows "map_readable t Mp' m'"
proof -
  obtain S where S: "Mp' = Mp\<lparr> mp_shards := (mp_shards Mp)[i := S] \<rparr>" "sh_table S = T"
    using rep by (auto simp: replaced_def)
  have "table_readable t (sh_table ((mp_shards Mp)[i := S] ! j)) (part Mp j m') \<and> tb_seed (sh_table ((mp_shards Mp)[i := S] ! j)) = mp_seed Mp"
    if "j < length (mp_shards Mp)" for j
    using inv that S(2) T rest [of j] i table_inv_readable
    by (cases "j = i") (auto simp: map_inv_def shard_ok_def)
  then show ?thesis using inv S(1) by (simp add: map_inv_def map_readable_def map_shape_def)
qed

lemma publish_returns:
  "table_readable t T m \<Longrightarrow> returns (publish ev i S T) (\<lambda>S'. sh_table S' = T \<and> sh_len S' = tb_len T \<and> sh_charged S' = charged_bytes T)"
proof -
  assume "table_readable t T m"
  then have "segs_sound (tb_arena T)" by (auto simp: table_readable_def arena_readable_def)
  then show ?thesis
    using held_returns [of "tb_arena T" "env_platform ev"]
    by (auto simp: publish_def table_resident_bytes_def arena_resident_bytes_def table_len_def elim!: returns_mono)
qed

lemma with_key_spec:
  assumes inv: "map_inv p t Mp m"
    and each: "\<And>T. table_inv p t T (part Mp (shard_of Mp hsh) m) \<Longrightarrow> tb_seed T = mp_seed Mp \<Longrightarrow>
      returns (each T (clock_now (mp_clock Mp))) (\<lambda>(r, T'). Q r T' \<and> (\<exists>m'. table_readable t T' m'))"
  shows "returns (with_key ev Mp hsh each) (\<lambda>(r, Mp'). \<exists>T'. Q r T' \<and> replaced Mp (shard_of Mp hsh) T' Mp')"
proof -
  let ?i = "shard_of Mp hsh"
  have i: "?i < length (mp_shards Mp)" using inv by (simp add: map_inv_def shard_of_less)
  let ?S = "mp_shards Mp ! ?i"
  have S: "table_inv p t (sh_table ?S) (part Mp ?i m)" "tb_seed (sh_table ?S) = mp_seed Mp"
    using inv i by (auto simp: map_inv_def shard_ok_def)
  obtain r T' m' where T': "each (sh_table ?S) (clock_now (mp_clock Mp)) = Some (r, T')" "Q r T'" "table_readable t T' m'"
    using each [OF S] by (auto elim!: returnsE)
  obtain S' where "publish ev ?i ?S T' = Some S'" "sh_table S' = T'" "sh_len S' = tb_len T'" "sh_charged S' = charged_bytes T'"
    using publish_returns [OF T'(3), of ev ?i ?S] by (auto elim!: returnsE)
  then show ?thesis using i T' by (auto simp: with_key_def idx_def set_idx_def replaced_def)
qed

section \<open>Eviction\<close>

text \<open>What eviction leaves of a shard: some of the entries, always the one just written.\<close>

definition fitted :: "nat \<Rightarrow> bytes \<Rightarrow> Table \<Rightarrow> cache \<Rightarrow> Table \<Rightarrow> cache \<Rightarrow> bool" where
  "fitted budget key T m T' m' \<longleftrightarrow> tb_seed T' = tb_seed T \<and> m' \<subseteq>\<^sub>m m \<and> m' key = m key \<and>
     (budget = 0 \<or> charged_bytes T \<le> budget \<longrightarrow> m' = m) \<and>
     (budget = 0 \<or> charged_bytes T' \<le> budget \<or> card (dom m) = card (dom m') + 64 \<or> dom m' = {key})"

lemma map_le_delete: "m(k := None) \<subseteq>\<^sub>m m"
  by (auto simp: map_le_def)

definition evicting :: "Platform \<Rightarrow> target \<Rightarrow> Table \<Rightarrow> cache \<Rightarrow> bytes \<Rightarrow> nat \<Rightarrow> nat \<Rightarrow> nat \<Rightarrow> nat \<times> Table \<Rightarrow> bool" where
  "evicting p t T m key budget n went = (\<lambda>(went', T'). \<exists>m'. table_inv p t T' m' \<and>
    tb_seed T' = tb_seed T \<and> m' \<subseteq>\<^sub>m m \<and> m' key = m key \<and> went \<le> went' \<and> card (dom m) + went = card (dom m') + went' \<and>
    (charged_bytes T' \<le> budget \<or> went' = went + n \<or> dom m' = {key}))"

lemma evicting_step:
  assumes "evicting p t T1 (m(k := None)) key budget n (went + 1) r" "tb_seed T1 = tb_seed T"
    "card (dom m) = card (dom (m(k := None))) + 1" "(m(k := None)) key = m key"
  shows "evicting p t T m key budget (Suc n) went r"
proof -
  obtain went' T' where r: "r = (went', T')" by (cases r)
  from assms(1) obtain m' where m': "table_inv p t T' m'" "tb_seed T' = tb_seed T1" "m' \<subseteq>\<^sub>m m(k := None)" "m' key = (m(k := None)) key"
      "went + 1 \<le> went'" "card (dom (m(k := None))) + (went + 1) = card (dom m') + went'"
      "charged_bytes T' \<le> budget \<or> went' = went + 1 + n \<or> dom m' = {key}"
    unfolding r evicting_def prod.case by blast
  have "m' \<subseteq>\<^sub>m m" by (rule map_le_trans [OF m'(3) map_le_delete])
  moreover have "card (dom m) + went = card (dom m') + went'" using m'(6) assms(3) by linarith
  ultimately show ?thesis unfolding evicting_def r prod.case
    using m'(1,2,4,5,7) assms(2,4) by (intro exI [of _ m']) auto
qed

lemma evict_loop_spec:
  assumes at: "E at = Some (key, x)" and inv: "rep_holds p t T M E m"
  shows "returns (evict_loop t budget (Some at) n roll went T) (evicting p t T m key budget n went)"
  using assms
proof (induction n arbitrary: T M E m roll went)
  case 0
  then have "table_inv p t T m" by (auto simp: table_inv_alt)
  then show ?case by (auto simp: evicting_def)
next
  case (Suc n)
  note R = table_repD [OF rep_holdsD(3) [OF Suc.prems(2)]]
  have stay: "evicting p t T m key budget (Suc n) went (went, T)" if "charged_bytes T \<le> budget \<or> dom m = {key}"
    unfolding evicting_def prod.case using that Suc.prems(2) by (intro exI [of _ m]) (auto simp: table_inv_alt)
  have mk: "m key = Some x" by (rule contentsD [OF R(4) Suc.prems(1)])
  have fin: "finite (dom m)" by (rule card_contents(1) [OF R(1,4)])
  show ?case
  proof (cases "budget < charged_bytes T")
    case False
    then show ?thesis using stay by simp
  next
    case True
    let ?roll = "roll_step roll"
    obtain gone T1 where ev: "evict_one t T ?roll (Some at) = Some (gone, T1)" "evict_post t p T E m (Some at) (gone, T1)"
      using tgt.evict_spec [OF Suc.prems(2), of ?roll "Some at"] by (auto elim!: returnsE)
    show ?thesis
    proof (cases gone)
      case False
      then have T1: "T1 = T" "\<And>i kx. E i = Some kx \<Longrightarrow> at = i" using ev(2) by (auto simp: evict_post_def)
      have "dom m = {key}"
      proof (intro set_eqI iffI)
        fix k assume "k \<in> dom m"
        then obtain y i where i: "E i = Some (k, y)" using contents_iff [OF R(4)] by blast
        then have "i = at" using T1(2) by blast
        then show "k \<in> {key}" using i Suc.prems(1) by simp
      qed (use mk in auto)
      then show ?thesis using stay True ev(1) False T1(1) by simp
    next
      case gone: True
      then obtain i k y M1 where i: "E i = Some (k, y)" "i \<noteq> at" "rep_holds p t T1 M1 (E(i := None)) (m(k := None))" "tb_seed T1 = tb_seed T"
        using ev(2) unfolding evict_post_def by (auto simp del: split_paired_Ex split_paired_All)
      have "k \<noteq> key" using layoutD(6) [OF R(1) i(1), of at x] i(2) Suc.prems(1) by blast
      moreover have k: "m k = Some y" by (rule contentsD [OF R(4) i(1)])
      moreover have "0 < card (dom m)" using fin k by (auto simp: card_gt_0_iff)
      ultimately have count: "card (dom m) = card (dom (m(k := None))) + 1" "(m(k := None)) key = m key"
        using fin by (auto simp: card_Diff_singleton domI)
      have at: "(E(i := None)) at = Some (key, x)" using Suc.prems(1) i(2) by simp
      have "returns (evict_loop t budget (Some at) n ?roll (went + 1) T1) (evicting p t T m key budget (Suc n) went)"
        by (rule returns_mono [OF Suc.IH [OF at i(3)]]) (rule evicting_step [OF _ i(4) count])
      then show ?thesis using ev(1) gone True by simp
    qed
  qed
qed

lemma evict_to_fit_spec:
  assumes inv: "table_inv p t T m" and key: "m key = Some x"
  shows "returns (evict_to_fit t T budget key (hash_of (tb_seed T) key)) (\<lambda>T'. \<exists>m'. table_inv p t T' m' \<and> fitted budget key T m T' m')"
proof (cases "budget = 0 \<or> charged_bytes T \<le> budget")
  case True
  then show ?thesis using inv by (auto simp: evict_to_fit_def fitted_def)
next
  case False
  obtain M E where rep: "rep_holds p t T M E m" using inv by (auto simp: table_inv_alt)
  obtain r where r: "slot_of t T key (hash_of (tb_seed T) key) = Some r"
      "case r of Some at \<Rightarrow> \<exists>x. E at = Some (key, x) | None \<Rightarrow> m key = None"
    using tgt.slot_of_spec [OF rep, of key] by (auto elim: returnsE)
  then obtain at y where at: "r = Some at" "E at = Some (key, y)" using key by (cases r) auto
  obtain went T1 where loop: "evict_loop t budget (Some at) 64 (hash_of (tb_seed T) key OR 1) 0 T = Some (went, T1)"
      "evicting p t T m key budget 64 0 (went, T1)"
    using evict_loop_spec [OF at(2) rep, of budget 64 "hash_of (tb_seed T) key OR 1" 0] by (auto elim!: returnsE)
  then obtain m1 M1 E1 where inv1: "rep_holds p t T1 M1 E1 m1" and le: "m1 \<subseteq>\<^sub>m m" "m1 key = m key" "tb_seed T1 = tb_seed T"
      and count: "card (dom m) = card (dom m1) + went" and over: "charged_bytes T1 \<le> budget \<or> went = 64 \<or> dom m1 = {key}"
    by (auto simp: evicting_def table_inv_alt)
  have code: "evict_to_fit t T budget key (hash_of (tb_seed T) key) =
      (if 0 < went then do { (_, T) \<leftarrow> shrink t T1; Some T } else Some T1)"
    using False loop r(1) at(1) by (simp add: evict_to_fit_def)
  have post: "fitted budget key T m T2 m1" if "tb_seed T2 = tb_seed T1" "charged_bytes T2 \<le> charged_bytes T1" for T2
    using that le count over False by (auto simp: fitted_def)
  show ?thesis
  proof (cases "0 < went")
    case True
    have "returns (shrink t T1) (\<lambda>(_, T2). table_inv p t T2 m1 \<and> fitted budget key T m T2 m1)"
      using tgt.shrink_spec [OF inv1] post by (auto elim!: returns_mono)
    then show ?thesis unfolding code using True by (auto elim!: returns_mono)
  next
    case False
    then show ?thesis unfolding code using inv1 post [of T1] by (auto simp: table_inv_alt)
  qed
qed

section \<open>Operations on one key\<close>

definition framed :: "Map \<Rightarrow> Map \<Rightarrow> bool" where
  "framed Mp Mp' \<longleftrightarrow> Mp' = Mp\<lparr> mp_shards := mp_shards Mp' \<rparr> \<and> length (mp_shards Mp') = length (mp_shards Mp)"

lemma replaced_framed: "replaced Mp i T Mp' \<Longrightarrow> framed Mp Mp'"
  by (auto simp: replaced_def framed_def)

lemma map_op:
  assumes inv: "map_inv p t Mp m"
    and each: "\<And>T M E. rep_holds p t T M E (part Mp (shard_of Mp hsh) m) \<Longrightarrow> tb_seed T = mp_seed Mp \<Longrightarrow>
      returns (each T (clock_now (mp_clock Mp))) (\<lambda>(r, T'). table_inv p t T' (part Mp (shard_of Mp hsh) m') \<and> tb_seed T' = tb_seed T \<and> P r)"
    and rest: "\<And>j. j \<noteq> shard_of Mp hsh \<Longrightarrow> part Mp j m' = part Mp j m"
  shows "returns (with_key ev Mp hsh each) (\<lambda>(r, Mp'). map_inv p t Mp' m' \<and> framed Mp Mp' \<and> P r)"
proof -
  let ?i = "shard_of Mp hsh"
  have i: "?i < length (mp_shards Mp)" using inv by (simp add: map_inv_def shard_of_less)
  have each': "returns (each T (clock_now (mp_clock Mp))) (\<lambda>(r, T').
      (table_inv p t T' (part Mp ?i m') \<and> tb_seed T' = mp_seed Mp \<and> P r) \<and> (\<exists>m'. table_readable t T' m'))"
    if h: "table_inv p t T (part Mp ?i m)" "tb_seed T = mp_seed Mp" for T
  proof -
    obtain M E where "rep_holds p t T M E (part Mp ?i m)" using h(1) by (auto simp: table_inv_alt)
    from each [OF this h(2)] show ?thesis using h(2) table_inv_readable by (fastforce elim!: returns_mono)
  qed
  show ?thesis
    using with_key_spec [OF inv, of hsh each "\<lambda>r T'. table_inv p t T' (part Mp ?i m') \<and> tb_seed T' = mp_seed Mp \<and> P r" ev] each'
      map_inv_replaced [OF inv i _ _ _ rest] replaced_framed
    by (fastforce elim!: returns_mono)
qed

lemma part_purge_other: "shard_of Mp (hash_of (mp_seed Mp) k) \<noteq> j \<Longrightarrow> part Mp j (purge now k m) = part Mp j m"
  by (auto simp: purge_def part_upd_other split: option.splits)

abbreviation key_shard :: "Map \<Rightarrow> bytes \<Rightarrow> nat" where
  "key_shard Mp key \<equiv> shard_of Mp (hash_of (mp_seed Mp) key)"

abbreviation map_now :: "Map \<Rightarrow> u32" where
  "map_now Mp \<equiv> clock_now (mp_clock Mp)"

lemma map_get_spec:
  assumes inv: "map_inv (env_platform ev) (env_target ev) Mp m"
  shows "returns (map_get ev Mp key) (\<lambda>(r, Mp'). map_inv (env_platform ev) (env_target ev) Mp' (purge (map_now Mp) key m) \<and>
    framed Mp Mp' \<and> r = map_option fst (purge (map_now Mp) key m key))"
  unfolding map_get_def map_hash_def hash_eq Option.bind.bind_lunit
proof (rule map_op [OF inv])
  fix T M E assume "rep_holds (env_platform ev) (env_target ev) T M E (part Mp (key_shard Mp key) m)" "tb_seed T = mp_seed Mp"
  from tgt.get_spec [OF this(1), of key "map_now Mp"] this(2) show "returns (table_get (env_target ev) T key (hash_of (mp_seed Mp) key) (map_now Mp))
      (\<lambda>(r, T'). table_inv (env_platform ev) (env_target ev) T' (part Mp (key_shard Mp key) (purge (map_now Mp) key m)) \<and>
        tb_seed T' = tb_seed T \<and> r = map_option fst (purge (map_now Mp) key m key))"
    by (simp add: part_purge)
qed (rule part_purge_other, simp)

lemma map_view_spec:
  assumes inv: "map_inv (env_platform ev) (env_target ev) Mp m"
  shows "returns (map_view ev Mp key) (\<lambda>(r, Mp'). map_inv (env_platform ev) (env_target ev) Mp' (purge (map_now Mp) key m) \<and>
    framed Mp Mp' \<and> r = map_option (view_of key) (purge (map_now Mp) key m key))"
  unfolding map_view_def map_hash_def hash_eq Option.bind.bind_lunit
proof (rule map_op [OF inv])
  have view: "(\<lambda>(v, e, u). \<lparr> view_key = key, view_value = v, view_expiry = e, view_user_flags = u \<rparr>) = view_of key"
    by (rule ext) (simp add: view_of_def)
  fix T M E assume "rep_holds (env_platform ev) (env_target ev) T M E (part Mp (key_shard Mp key) m)" "tb_seed T = mp_seed Mp"
  from tgt.view_spec [OF this(1), of key "map_now Mp"] this(2) show "returns (table_view (env_target ev) T key (hash_of (mp_seed Mp) key) (map_now Mp))
      (\<lambda>(r, T'). table_inv (env_platform ev) (env_target ev) T' (part Mp (key_shard Mp key) (purge (map_now Mp) key m)) \<and>
        tb_seed T' = tb_seed T \<and> r = map_option (view_of key) (purge (map_now Mp) key m key))"
    by (simp add: part_purge view)
qed (rule part_purge_other, simp)

lemma map_contains_spec:
  assumes inv: "map_inv (env_platform ev) (env_target ev) Mp m"
  shows "returns (map_contains ev Mp key) (\<lambda>(r, Mp'). map_inv (env_platform ev) (env_target ev) Mp' (purge (map_now Mp) key m) \<and>
    framed Mp Mp' \<and> r = (purge (map_now Mp) key m key \<noteq> None))"
  unfolding map_contains_def map_hash_def hash_eq Option.bind.bind_lunit
proof (rule map_op [OF inv])
  fix T M E assume "rep_holds (env_platform ev) (env_target ev) T M E (part Mp (key_shard Mp key) m)" "tb_seed T = mp_seed Mp"
  from tgt.contains_spec [OF this(1), of key "map_now Mp"] this(2) show "returns (table_contains (env_target ev) T key (hash_of (mp_seed Mp) key) (map_now Mp))
      (\<lambda>(r, T'). table_inv (env_platform ev) (env_target ev) T' (part Mp (key_shard Mp key) (purge (map_now Mp) key m)) \<and>
        tb_seed T' = tb_seed T \<and> r = (purge (map_now Mp) key m key \<noteq> None))"
    by (simp add: part_purge)
qed (rule part_purge_other, simp)

lemma map_remove_spec:
  assumes inv: "map_inv (env_platform ev) (env_target ev) Mp m"
  shows "returns (map_remove ev Mp key) (\<lambda>(r, Mp'). map_inv (env_platform ev) (env_target ev) Mp' (m(key := None)) \<and>
    framed Mp Mp' \<and> r = (m key \<noteq> None))"
  unfolding map_remove_def map_hash_def hash_eq Option.bind.bind_lunit
proof (rule map_op [OF inv])
  fix T M E assume "rep_holds (env_platform ev) (env_target ev) T M E (part Mp (key_shard Mp key) m)" "tb_seed T = mp_seed Mp"
  from tgt.remove_spec [OF this(1), of key] this(2) show "returns (table_remove (env_target ev) T key (hash_of (mp_seed Mp) key))
      (\<lambda>(r, T'). table_inv (env_platform ev) (env_target ev) T' (part Mp (key_shard Mp key) (m(key := None))) \<and>
        tb_seed T' = tb_seed T \<and> r = (m key \<noteq> None))"
    by simp
qed (rule part_upd_other, simp)

lemma map_deadline_spec:
  assumes inv: "map_inv (env_platform ev) (env_target ev) Mp m"
  shows "returns (map_deadline ev Mp key) (\<lambda>(r, Mp'). map_inv (env_platform ev) (env_target ev) Mp' (purge (map_now Mp) key m) \<and>
    framed Mp Mp' \<and> r = map_option (\<lambda>(v, e, u). e) (purge (map_now Mp) key m key))"
proof -
  have "map_option view_expiry (map_option (view_of key) o') = map_option (\<lambda>(v, e, u). e) o'" for o'
    by (cases o') (auto simp: view_of_def)
  then show ?thesis
    using map_view_spec [OF inv, of key] by (auto simp: map_deadline_def elim!: returns_mono)
qed

section \<open>Operations that write\<close>

text \<open>
  What a write leaves of the cache \<open>m\<close> it meant to make: all of it but entries evicted from the
  shard of the key, and never the key itself.
\<close>

definition map_wrote :: "Platform \<Rightarrow> target \<Rightarrow> Map \<Rightarrow> bytes \<Rightarrow> cache \<Rightarrow> Map \<Rightarrow> bool" where
  "map_wrote p t Mp key m Mp' \<longleftrightarrow> (\<exists>m'. map_inv p t Mp' m' \<and> m' \<subseteq>\<^sub>m m \<and> m' key = m key \<and>
     (\<forall>k. key_shard Mp k \<noteq> key_shard Mp key \<longrightarrow> m' k = m k) \<and> (mp_shard_budget Mp = 0 \<longrightarrow> m' = m))"

definition table_wrote :: "Platform \<Rightarrow> target \<Rightarrow> nat \<Rightarrow> bytes \<Rightarrow> cache \<Rightarrow> Table \<Rightarrow> bool" where
  "table_wrote p t budget key m T' \<longleftrightarrow> (\<exists>m'. table_inv p t T' m' \<and> m' \<subseteq>\<^sub>m m \<and> m' key = m key \<and> (budget = 0 \<longrightarrow> m' = m))"

lemma table_wrote_readable: "table_wrote p t budget key m T' \<Longrightarrow> \<exists>m'. table_readable t T' m'"
  unfolding table_wrote_def using table_inv_readable by blast

lemma table_wrote_refl: "table_inv p t T m \<Longrightarrow> table_wrote p t budget key m T"
  by (auto simp: table_wrote_def)

lemma wrote_replaced:
  assumes inv: "map_inv p t Mp m" and i: "i = key_shard Mp key" and rep: "replaced Mp i T Mp'"
    and T: "table_wrote p t (mp_shard_budget Mp) key (part Mp i m1) T" "tb_seed T = mp_seed Mp"
    and rest: "\<And>j. j \<noteq> i \<Longrightarrow> part Mp j m1 = part Mp j m"
  shows "map_wrote p t Mp key m1 Mp'"
proof -
  obtain mi where mi: "table_inv p t T mi" "mi \<subseteq>\<^sub>m part Mp i m1" "mi key = m1 key" "mp_shard_budget Mp = 0 \<longrightarrow> mi = part Mp i m1"
    using T(1) i by (auto simp: table_wrote_def)
  let ?m = "graft Mp i mi m1"
  note P = part_graft [OF mi(2), of _ m1]
  have less: "i < length (mp_shards Mp)" using inv i by (simp add: map_inv_def shard_of_less)
  have "map_inv p t Mp' ?m" by (rule map_inv_replaced [OF inv less rep]) (use mi(1) T(2) rest in \<open>simp_all add: P\<close>)
  moreover have "?m \<subseteq>\<^sub>m m1" using mi(2) by (auto simp: map_le_def graft_def part_def dom_def split: if_splits)
  moreover have "?m key = m1 key" "\<forall>k. key_shard Mp k \<noteq> key_shard Mp key \<longrightarrow> ?m k = m1 k" using mi(3) i by (simp_all add: graft_def)
  moreover have "mp_shard_budget Mp = 0 \<longrightarrow> ?m = m1" using mi(4) by (auto simp: graft_def part_def)
  ultimately show ?thesis unfolding map_wrote_def by (intro exI [of _ ?m] conjI)
qed

text \<open>
  The shape of every writing operation: an error leaves the cache \<open>me\<close>, kept in order unless the
  system refused memory (\<open>hard\<close>); a result \<open>x\<close> leaves what it wrote of \<open>mw x\<close>.
\<close>

definition write_post :: "Platform \<Rightarrow> target \<Rightarrow> Map \<Rightarrow> bytes \<Rightarrow> ('e \<Rightarrow> bool) \<Rightarrow> cache \<Rightarrow> ('x \<Rightarrow> cache) \<Rightarrow>
    ('e + 'x) \<times> Map \<Rightarrow> bool" where
  "write_post p t Mp key hard me mw = (\<lambda>(r, Mp'). framed Mp Mp' \<and>
     (case r of
        Inl e \<Rightarrow> map_readable t Mp' me \<and> (\<not> hard e \<longrightarrow> map_inv p t Mp' me)
      | Inr x \<Rightarrow> map_wrote p t Mp key (mw x) Mp'))"

definition table_write_post :: "Platform \<Rightarrow> target \<Rightarrow> u64 \<Rightarrow> nat \<Rightarrow> bytes \<Rightarrow> ('e \<Rightarrow> bool) \<Rightarrow> cache \<Rightarrow> ('x \<Rightarrow> cache) \<Rightarrow>
    ('e + 'x) \<Rightarrow> Table \<Rightarrow> bool" where
  "table_write_post p t seed budget key hard me mw r T' \<longleftrightarrow> tb_seed T' = seed \<and>
     (case r of
        Inl e \<Rightarrow> table_readable t T' me \<and> (\<not> hard e \<longrightarrow> table_inv p t T' me)
      | Inr x \<Rightarrow> table_wrote p t budget key (mw x) T')"

lemma map_write_op:
  assumes inv: "map_inv p t Mp m" and hsh: "hsh = hash_of (mp_seed Mp) key"
    and each: "\<And>T M E. rep_holds p t T M E (part Mp (key_shard Mp key) m) \<Longrightarrow> tb_seed T = mp_seed Mp \<Longrightarrow>
      returns (each T (map_now Mp)) (\<lambda>(r, T'). table_write_post p t (mp_seed Mp) (mp_shard_budget Mp) key hard
        (part Mp (key_shard Mp key) me) (\<lambda>x. part Mp (key_shard Mp key) (mw x)) r T' \<and> P r)"
    and rest: "\<And>j. j \<noteq> key_shard Mp key \<Longrightarrow> part Mp j me = part Mp j m"
      "\<And>j x. j \<noteq> key_shard Mp key \<Longrightarrow> part Mp j (mw x) = part Mp j m"
  shows "returns (with_key ev Mp hsh each) (\<lambda>(r, Mp'). write_post p t Mp key hard me mw (r, Mp') \<and> P r)"
proof -
  let ?i = "key_shard Mp key"
  have i: "?i < length (mp_shards Mp)" using inv by (simp add: map_inv_def shard_of_less)
  let ?post = "\<lambda>r T'. table_write_post p t (mp_seed Mp) (mp_shard_budget Mp) key hard (part Mp ?i me) (\<lambda>x. part Mp ?i (mw x)) r T'"
  have readable: "\<exists>m'. table_readable t T' m'" if "?post r T'" for r T'
    using that table_wrote_readable by (cases r) (fastforce simp: table_write_post_def)+
  have each': "returns (each T (map_now Mp)) (\<lambda>(r, T'). (?post r T' \<and> P r) \<and> (\<exists>m'. table_readable t T' m'))"
    if h: "table_inv p t T (part Mp ?i m)" "tb_seed T = mp_seed Mp" for T
  proof -
    obtain M E where "rep_holds p t T M E (part Mp ?i m)" using h(1) by (auto simp: table_inv_alt)
    from each [OF this h(2)] show ?thesis using readable by (fastforce elim!: returns_mono)
  qed
  have lift: "write_post p t Mp key hard me mw (r, Mp')" if "?post r T'" "replaced Mp ?i T' Mp'" for r T' Mp'
  proof (cases r)
    case (Inl e)
    then show ?thesis
      using that map_readable_replaced [OF inv i that(2) _ _ rest(1)] map_inv_replaced [OF inv i that(2) _ _ rest(1)] replaced_framed
      by (auto simp: write_post_def table_write_post_def)
  next
    case (Inr x)
    then show ?thesis
      using that wrote_replaced [OF inv refl that(2) _ _ rest(2), of x] replaced_framed
      by (auto simp: write_post_def table_write_post_def)
  qed
  show ?thesis
    using with_key_spec [OF inv, of hsh each "\<lambda>r T'. ?post r T' \<and> P r" ev] each' lift unfolding hsh
    by (auto elim!: returns_mono)
qed

lemma set_evict_spec:
  assumes inv: "rep_holds p t T M E m" and fits: "fits (length key)" "fits (length val)" and seed: "tb_seed T = seed"
    and done_: "\<And>w. mw (fw w) = m(key \<mapsto> (val, e, u))"
  shows "returns (do {
      (r, T) \<leftarrow> table_set t p os T key val (hash_of seed key) e u;
      (case r of
         Inl e \<Rightarrow> Some (Inl (fe e), T)
       | Inr w \<Rightarrow> do {
           T \<leftarrow> evict_to_fit t T budget key (hash_of seed key);
           Some (Inr (fw w), T) }) })
    (\<lambda>(r, T'). table_write_post p t seed budget key (\<lambda>_. True) m mw r T' \<and>
       (\<forall>x. r = Inr x \<longrightarrow> x = fw (if m key = None then Inserted else Replaced)) \<and> (\<forall>x. r = Inl x \<longrightarrow> x \<in> range fe))"
proof -
  obtain r T1 where set: "table_set t p os T key val (hash_of seed key) e u = Some (r, T1)" "set_post t p seed m key (val, e, u) (r, T1)"
    using tgt.set_spec [OF inv fits, of os e u] seed by (auto elim!: returnsE)
  show ?thesis
  proof (cases r)
    case (Inl f)
    then show ?thesis using set by (simp add: set_post_def table_write_post_def)
  next
    case (Inr w)
    then have T1: "tb_seed T1 = seed" "table_inv p t T1 (m(key \<mapsto> (val, e, u)))" "w = (if m key = None then Inserted else Replaced)"
      using set(2) by (auto simp: set_post_def)
    then show ?thesis
      using evict_to_fit_spec [OF T1(2), of key "(val, e, u)" budget] set(1) Inr
      by (auto simp: table_write_post_def table_wrote_def fitted_def done_ elim!: returns_mono)
  qed
qed

lemma map_set_spec:
  assumes inv: "map_inv (env_platform ev) (env_target ev) Mp m" and fits: "fits (length key)" "fits (length val)"
  shows "returns (map_set ev Mp key val e u) (\<lambda>(r, Mp').
    write_post (env_platform ev) (env_target ev) Mp key (\<lambda>_. True) m (\<lambda>_. m(key \<mapsto> (val, e, u))) (r, Mp') \<and>
    (\<forall>w. r = Inr w \<longrightarrow> w = (if m key = None then Inserted else Replaced)))"
  unfolding map_set_def map_hash_def hash_eq Option.bind.bind_lunit
proof (rule map_write_op [OF inv refl])
  fix T M E assume rep: "rep_holds (env_platform ev) (env_target ev) T M E (part Mp (key_shard Mp key) m)" and seed: "tb_seed T = mp_seed Mp"
  show "returns (do {
       (r, T) \<leftarrow> table_set (env_target ev) (env_platform ev) (env_grants ev) T key val (hash_of (mp_seed Mp) key) e u;
       (case r of
          Inl e \<Rightarrow> Some (Inl e, T)
        | Inr wrote \<Rightarrow> do {
            T \<leftarrow> evict_to_fit (env_target ev) T (mp_shard_budget Mp) key (hash_of (mp_seed Mp) key);
            Some (Inr wrote, T) }) })
      (\<lambda>(r, T'). table_write_post (env_platform ev) (env_target ev) (mp_seed Mp) (mp_shard_budget Mp) key (\<lambda>_. True)
         (part Mp (key_shard Mp key) m) (\<lambda>x. part Mp (key_shard Mp key) (m(key \<mapsto> (val, e, u)))) r T' \<and>
         (\<forall>w. r = Inr w \<longrightarrow> w = (if m key = None then Inserted else Replaced)))"
    using set_evict_spec [OF rep fits seed, where fe = "\<lambda>e. e" and fw = "\<lambda>w. w" and os = "env_grants ev" and e = e and u = u
        and budget = "mp_shard_budget Mp" and mw = "\<lambda>x. part Mp (key_shard Mp key) (m(key \<mapsto> (val, e, u)))"]
    by (fastforce elim!: returns_mono)
qed (simp_all add: part_upd_other)

text \<open>What \<^verbatim>\<open>set_when\<close> does to the cache \<open>m\<close> left by its lookup, by what it answered.\<close>

definition set_when_expiry :: "cache \<Rightarrow> bytes \<Rightarrow> Expiry \<Rightarrow> u32 option" where
  "set_when_expiry m key expiry = (case expiry of
     At at \<Rightarrow> Some at
   | Never \<Rightarrow> None
   | Keep \<Rightarrow> (case m key of Some (_, e, _) \<Rightarrow> e | None \<Rightarrow> None))"

definition set_when_allowed :: "cache \<Rightarrow> bytes \<Rightarrow> When \<Rightarrow> bool" where
  "set_when_allowed m key when \<longleftrightarrow> (case when of Always \<Rightarrow> True | Absent \<Rightarrow> m key = None | Present \<Rightarrow> m key \<noteq> None)"

lemma map_set_when_spec:
  fixes m :: cache and Mp :: Map and key :: bytes
  defines "m' \<equiv> purge (map_now Mp) key m"
  assumes inv: "map_inv (env_platform ev) (env_target ev) Mp m" and fits: "fits (length key)" "fits (length val)"
  shows "returns (map_set_when ev Mp key val when expiry u) (\<lambda>(r, Mp').
    write_post (env_platform ev) (env_target ev) Mp key (\<lambda>_. True) m'
      (\<lambda>x. if x = None then m' else m'(key \<mapsto> (val, set_when_expiry m' key expiry, u))) (r, Mp') \<and>
    (\<forall>x. r = Inr x \<longrightarrow> x = (if set_when_allowed m' key when then Some (if m' key = None then Inserted else Replaced) else None)))"
  unfolding map_set_when_def map_hash_def hash_eq Option.bind.bind_lunit
proof (rule map_write_op [OF inv refl])
  let ?i = "key_shard Mp key" and ?p = "env_platform ev" and ?t = "env_target ev"
  let ?mw = "\<lambda>x. if x = None then m' else m'(key \<mapsto> (val, set_when_expiry m' key expiry, u))"
  fix T M E assume rep: "rep_holds ?p ?t T M E (part Mp ?i m)" and seed: "tb_seed T = mp_seed Mp"
  obtain seen T1 where view: "table_view ?t T key (hash_of (mp_seed Mp) key) (map_now Mp) = Some (seen, T1)"
      "table_inv ?p ?t T1 (part Mp ?i m')" "tb_seed T1 = mp_seed Mp" "seen = map_option (view_of key) (m' key)"
    using tgt.view_spec [OF rep, of key "map_now Mp"] seed by (auto simp: part_purge m'_def view_of_def [abs_def] elim!: returnsE)
  obtain M1 E1 where rep1: "rep_holds ?p ?t T1 M1 E1 (part Mp ?i m')" using view(2) by (auto simp: table_inv_alt)
  let ?e = "case expiry of At at \<Rightarrow> Some at | Never \<Rightarrow> None | Keep \<Rightarrow> Option.bind (map_option view_expiry seen) (\<lambda>e. e)"
  have e: "?e = set_when_expiry m' key expiry"
    unfolding view(4) by (cases expiry; cases "m' key") (auto simp: set_when_expiry_def view_of_def)
  have none: "map_option view_expiry seen = None \<longleftrightarrow> m' key = None" unfolding view(4) by simp
  note put = set_evict_spec [OF rep1 fits view(3), where fe = "\<lambda>e. e" and fw = Some and os = "env_grants ev"
      and e = "set_when_expiry m' key expiry" and u = u and budget = "mp_shard_budget Mp" and mw = "\<lambda>x. part Mp ?i (?mw x)"]
  show "returns (do {
       (seen, T) \<leftarrow> table_view ?t T key (hash_of (mp_seed Mp) key) (map_now Mp);
       let kept = map_option view_expiry seen;
       if (when = Absent \<and> kept \<noteq> None) \<or> (when = Present \<and> kept = None) then Some (Inr None, T)
       else do {
         let expiry = (case expiry of At at \<Rightarrow> Some at | Never \<Rightarrow> None | Keep \<Rightarrow> Option.bind kept (\<lambda>e. e));
         (r, T) \<leftarrow> table_set ?t ?p (env_grants ev) T key val (hash_of (mp_seed Mp) key) expiry u;
         (case r of
            Inl e \<Rightarrow> Some (Inl e, T)
          | Inr wrote \<Rightarrow> do {
              T \<leftarrow> evict_to_fit ?t T (mp_shard_budget Mp) key (hash_of (mp_seed Mp) key);
              Some (Inr (Some wrote), T) }) } })
      (\<lambda>(r, T'). table_write_post ?p ?t (mp_seed Mp) (mp_shard_budget Mp) key (\<lambda>_. True) (part Mp ?i m')
         (\<lambda>x. part Mp ?i (?mw x)) r T' \<and>
         (\<forall>x. r = Inr x \<longrightarrow> x = (if set_when_allowed m' key when then Some (if m' key = None then Inserted else Replaced) else None)))"
  proof (cases "set_when_allowed m' key when")
    case True
    then have ok: "\<not> ((when = Absent \<and> map_option view_expiry seen \<noteq> None) \<or> (when = Present \<and> map_option view_expiry seen = None))"
      unfolding none by (cases "when") (simp_all add: set_when_allowed_def del: split_paired_All split_paired_Ex not_None_eq not_Some_eq)
    show ?thesis
      unfolding view(1) Option.bind.bind_lunit Let_def prod.case if_not_P [OF ok] e
      by (rule returns_mono [OF put]) (use True in auto)
  next
    case False
    then have refuse: "(when = Absent \<and> map_option view_expiry seen \<noteq> None) \<or> (when = Present \<and> map_option view_expiry seen = None)"
      unfolding none by (cases "when") (simp_all add: set_when_allowed_def del: split_paired_All split_paired_Ex not_None_eq not_Some_eq)
    show ?thesis
      unfolding view(1) Option.bind.bind_lunit Let_def prod.case if_P [OF refuse]
      using False view(2,3) table_wrote_refl by (simp add: table_write_post_def)
  qed
qed (auto simp: m'_def part_upd_other part_purge_other)

definition expire_cache :: "cache \<Rightarrow> bytes \<Rightarrow> u32 option \<Rightarrow> cache" where
  "expire_cache m key expiry = (case m key of Some (v, _, u) \<Rightarrow> m(key \<mapsto> (v, expiry, u)) | None \<Rightarrow> m)"

lemma part_expire_cache:
  "key_shard Mp key = i \<Longrightarrow> part Mp i (expire_cache m key expiry) =
     (case m key of Some (v, _, u) \<Rightarrow> (part Mp i m)(key \<mapsto> (v, expiry, u)) | None \<Rightarrow> part Mp i m)"
  "key_shard Mp key \<noteq> j \<Longrightarrow> part Mp j (expire_cache m key expiry) = part Mp j m"
  by (auto simp: expire_cache_def part_upd_other split: option.splits)

lemma map_expire_spec:
  fixes m :: cache and Mp :: Map and key :: bytes
  defines "m' \<equiv> purge (map_now Mp) key m"
  assumes inv: "map_inv (env_platform ev) (env_target ev) Mp m"
  shows "returns (map_expire ev Mp key expiry) (\<lambda>(r, Mp').
    write_post (env_platform ev) (env_target ev) Mp key (\<lambda>_. True) m' (\<lambda>_. expire_cache m' key expiry) (r, Mp') \<and>
    (\<forall>b. r = Inr b \<longrightarrow> b = (m' key \<noteq> None)))"
  unfolding map_expire_def map_hash_def hash_eq Option.bind.bind_lunit
proof (rule map_write_op [OF inv refl])
  let ?i = "key_shard Mp key" and ?p = "env_platform ev" and ?t = "env_target ev"
  fix T M E assume rep: "rep_holds ?p ?t T M E (part Mp ?i m)" and seed: "tb_seed T = mp_seed Mp"
  have post: "table_write_post ?p ?t (mp_seed Mp) (mp_shard_budget Mp) key (\<lambda>_. True) (part Mp ?i m') (\<lambda>_. part Mp ?i (expire_cache m' key expiry)) r T' \<and>
      (\<forall>b. r = Inr b \<longrightarrow> b = (m' key \<noteq> None))"
    if "expire_post ?t ?p (mp_seed Mp) (part Mp ?i m') key expiry (r, T')" for r T'
    using that table_wrote_refl
    by (cases r) (auto simp: expire_post_def table_write_post_def part_expire_cache(1) simp del: part_upd)
  show "returns (table_expire ?t ?p (env_grants ev) T key (hash_of (mp_seed Mp) key) expiry (map_now Mp))
      (\<lambda>(r, T'). table_write_post ?p ?t (mp_seed Mp) (mp_shard_budget Mp) key (\<lambda>_. True) (part Mp ?i m')
        (\<lambda>_. part Mp ?i (expire_cache m' key expiry)) r T' \<and> (\<forall>b. r = Inr b \<longrightarrow> b = (m' key \<noteq> None)))"
    by (rule returns_mono [OF tgt.expire_spec [OF rep, of "env_grants ev" key expiry "map_now Mp", unfolded seed part_purge [OF refl], folded m'_def]])
       (use post in \<open>auto simp del: split_paired_All not_None_eq\<close>)
qed (auto simp: m'_def part_purge_other part_expire_cache(2))

section \<open>Counting\<close>

text \<open>What an increment makes of the entry it finds.\<close>

definition counted_of :: "cache \<Rightarrow> bytes \<Rightarrow> int \<Rightarrow> Uncounted + int \<times> stored" where
  "counted_of m key delta =
     (case (case m key of Some (v, e, u) \<Rightarrow> map_option (\<lambda>n. (n, e, u)) (decimal v) | None \<Rightarrow> Some (0, None, None)) of
        None \<Rightarrow> Inl NotANumber
      | Some (n, e, u) \<Rightarrow> (case i64_checked (n + delta) of
          None \<Rightarrow> Inl OutOfRange
        | Some n' \<Rightarrow> Inr (n', dec_int n', e, u)))"

lemma map_increment_spec:
  fixes m :: cache and Mp :: Map and key :: bytes
  defines "m' \<equiv> purge (map_now Mp) key m"
  assumes inv: "map_inv (env_platform ev) (env_target ev) Mp m" and fits: "fits (length key)"
  shows "returns (map_increment ev Mp key delta) (\<lambda>(r, Mp').
    write_post (env_platform ev) (env_target ev) Mp key (\<lambda>e. e = UncountedFull) m'
      (\<lambda>_. case counted_of m' key delta of Inr (_, x) \<Rightarrow> m'(key \<mapsto> x) | Inl _ \<Rightarrow> m') (r, Mp') \<and>
    (case counted_of m' key delta of
       Inl e \<Rightarrow> r = Inl e
     | Inr (n, _) \<Rightarrow> r = Inl UncountedFull \<or> r = Inr n))"
  unfolding map_increment_def map_hash_def hash_eq Option.bind.bind_lunit
proof (rule map_write_op [OF inv refl])
  let ?i = "key_shard Mp key" and ?p = "env_platform ev" and ?t = "env_target ev"
  let ?mw = "\<lambda>_ :: int. case counted_of m' key delta of Inr (_, x) \<Rightarrow> m'(key \<mapsto> x) | Inl _ \<Rightarrow> m'"
  fix T M E assume rep: "rep_holds ?p ?t T M E (part Mp ?i m)" and seed: "tb_seed T = mp_seed Mp"
  obtain seen T1 where view: "table_view ?t T key (hash_of (mp_seed Mp) key) (map_now Mp) = Some (seen, T1)"
      "table_inv ?p ?t T1 (part Mp ?i m')" "tb_seed T1 = mp_seed Mp" "seen = map_option (view_of key) (m' key)"
    using tgt.view_spec [OF rep, of key "map_now Mp"] seed by (auto simp: part_purge m'_def view_of_def [abs_def] elim!: returnsE)
  obtain M1 E1 where rep1: "rep_holds ?p ?t T1 M1 E1 (part Mp ?i m')" using view(2) by (auto simp: table_inv_alt)
  have soft: "table_write_post ?p ?t (mp_seed Mp) (mp_shard_budget Mp) key (\<lambda>e. e = UncountedFull) (part Mp ?i m') (\<lambda>x. part Mp ?i (?mw x)) (Inl e) T1" for e
    using view(2,3) table_inv_readable by (simp add: table_write_post_def)
  have got: "(case seen of Some view \<Rightarrow> map_option (\<lambda>current. (current, view_expiry view, view_user_flags view)) (decimal (view_value view))
      | None \<Rightarrow> Some (0, None, None)) = (case m' key of Some (v, e, u) \<Rightarrow> map_option (\<lambda>n. (n, e, u)) (decimal v) | None \<Rightarrow> Some (0, None, None))"
    unfolding view(4) by (auto simp: view_of_def split: option.splits)
  have soften: "table_write_post ?p ?t s b key (\<lambda>e. e = UncountedFull) me mw r T'"
    if "table_write_post ?p ?t s b key (\<lambda>_. True) me mw r T'" "\<And>e. r = Inl e \<Longrightarrow> e = UncountedFull" for s b me mw and r :: "Uncounted + int" and T'
    using that by (cases r) (auto simp: table_write_post_def)
  show "returns (do {
       (seen, T) \<leftarrow> table_view ?t T key (hash_of (mp_seed Mp) key) (map_now Mp);
       (case (case seen of
                Some view \<Rightarrow> map_option (\<lambda>current. (current, view_expiry view, view_user_flags view)) (decimal (view_value view))
              | None \<Rightarrow> Some (0, None, None)) of
          None \<Rightarrow> Some (Inl NotANumber, T)
        | Some (current, expiry, user_flags) \<Rightarrow>
            (case i64_checked (current + delta) of
               None \<Rightarrow> Some (Inl OutOfRange, T)
             | Some next_value \<Rightarrow> do {
                 (buf, wrote) \<leftarrow> map_digits (replicate 20 0) next_value;
                 text_of \<leftarrow> slice buf 0 wrote;
                 (r, T) \<leftarrow> table_set ?t ?p (env_grants ev) T key text_of (hash_of (mp_seed Mp) key) expiry user_flags;
                 (case r of
                    Inl _ \<Rightarrow> Some (Inl UncountedFull, T)
                  | Inr _ \<Rightarrow> do {
                      T \<leftarrow> evict_to_fit ?t T (mp_shard_budget Mp) key (hash_of (mp_seed Mp) key);
                      Some (Inr next_value, T) }) })) })
      (\<lambda>(r, T'). table_write_post ?p ?t (mp_seed Mp) (mp_shard_budget Mp) key (\<lambda>e. e = UncountedFull) (part Mp ?i m') (\<lambda>x. part Mp ?i (?mw x)) r T' \<and>
        (case counted_of m' key delta of Inl e \<Rightarrow> r = Inl e | Inr (n, _) \<Rightarrow> r = Inl UncountedFull \<or> r = Inr n))"
  proof (cases "counted_of m' key delta")
    case (Inl e)
    then show ?thesis
      unfolding view(1) Option.bind.bind_lunit prod.case got using soft
      by (auto simp: counted_of_def split: option.splits)
  next
    case (Inr nx)
    then obtain n n' e u where c: "(case m' key of Some (v, e, u) \<Rightarrow> map_option (\<lambda>n. (n, e, u)) (decimal v) | None \<Rightarrow> Some (0, None, None)) = Some (n, e, u)"
        "i64_checked (n + delta) = Some n'" "nx = (n', dec_int n', e, u)"
      by (auto simp: counted_of_def split: option.splits)
    have range: "i64_MIN \<le> n'" "n' \<le> i64_MAX" using c(2) by (auto simp: i64_checked_def split: if_splits)
    obtain buf where d: "map_digits (replicate 20 0) n' = Some (buf, length (dec_int n'))" "slice buf 0 (length (dec_int n')) = Some (dec_int n')"
      using map_digits_eq [OF range] by blast
    have "nat \<bar>n'\<bar> < 10 ^ 19" using range by (simp add: i64_MIN_def i64_MAX_def)
    then have "length (dec (nat \<bar>n'\<bar>)) \<le> 19" by (rule length_dec) simp
    then have fv: "fits (length (dec_int n'))" by (intro fits_inline) (auto simp: dec_int_def)
    note put = set_evict_spec [OF rep1 fits fv view(3), where fe = "\<lambda>_. UncountedFull" and fw = "\<lambda>_. n'" and os = "env_grants ev"
        and e = e and u = u and budget = "mp_shard_budget Mp" and mw = "\<lambda>x. part Mp ?i (?mw x)"]
    have goal: "table_write_post ?p ?t (mp_seed Mp) (mp_shard_budget Mp) key (\<lambda>e. e = UncountedFull) (part Mp ?i m') (\<lambda>x. part Mp ?i (?mw x)) r T' \<and>
        (case counted_of m' key delta of Inl e \<Rightarrow> r = Inl e | Inr (n, _) \<Rightarrow> r = Inl UncountedFull \<or> r = Inr n)"
      if "table_write_post ?p ?t (mp_seed Mp) (mp_shard_budget Mp) key (\<lambda>_. True) (part Mp ?i m') (\<lambda>x. part Mp ?i (?mw x)) r T'"
        "\<forall>x. r = Inr x \<longrightarrow> x = n'" "\<forall>x. r = Inl x \<longrightarrow> x \<in> range (\<lambda>_ :: Full. UncountedFull)" for r T'
      using soften [OF that(1)] that(2,3) Inr c(3) by (cases r) auto
    show ?thesis
      unfolding view(1) Option.bind.bind_lunit prod.case got c(1,2) option.case d
      by (rule returns_mono [OF put]) (use Inr c(3) goal in auto)
  qed
qed (auto simp: m'_def part_upd_other part_purge_other split: sum.splits)

section \<open>The whole map\<close>

lemma next_power_below: "n \<le> 2 ^ c \<Longrightarrow> j \<le> c \<Longrightarrow> next_power_from (2 ^ j) n \<le> 2 ^ c"
proof (induction "2 ^ j :: nat" n arbitrary: j rule: next_power_from.induct)
  case (1 n)
  show ?case
  proof (cases "n \<le> 2 ^ j")
    case True
    then show ?thesis using 1(3) by (subst next_power_from.simps) simp
  next
    case False
    then have "j < c" using 1(2,3) by (cases "j = c") auto
    then have "next_power_from (2 ^ Suc j) n \<le> 2 ^ c" using 1(1) [of "Suc j"] 1(2) False by simp
    then show ?thesis using False by (subst next_power_from.simps) simp
  qed
qed

lemma trailing_zeros_power: "b < 64 \<Longrightarrow> trailing_zeros (2 ^ b) = b"
proof -
  assume b: "b < 64"
  have bit: "bit (2 ^ b :: u64) i \<longleftrightarrow> i = b" for i using b by (auto simp: bit_exp_iff)
  then have "(2 ^ b :: u64) \<noteq> 0" by (metis bit_0_eq bot_apply bot_bool_def)
  then show ?thesis using trailing_zeros_first(2) bit by blast
qed

lemma map_with_seed_shape: "map_shape (map_with_seed n mx seed since)"
proof -
  let ?s = "next_power_of_two (min (max n 1) MAX_SHARDS)"
  obtain b where b: "?s = 2 ^ b" using next_power_from [of 0] by (auto simp: next_power_of_two_def)
  have "?s \<le> 2 ^ 12" using next_power_below [of _ 12 0] by (simp add: next_power_of_two_def MAX_SHARDS_def)
  then have "b \<le> 12" unfolding b by (rule power_le_imp_le_exp [rotated]) simp
  moreover have "trailing_zeros (of_nat ?s) = b" unfolding b using trailing_zeros_power [of b] \<open>b \<le> 12\<close> by simp
  ultimately show ?thesis using b by (auto simp: map_shape_def map_with_seed_def Let_def)
qed

lemma map_new_spec: "platform_ok p \<Longrightarrow> map_inv p t (map_with_seed n mx seed since) Map.empty"
  using map_with_seed_shape [of n mx seed since] table_new_inv [of p t seed]
  by (auto simp: map_inv_def map_with_seed_def Let_def shard_ok_def part_def table_new_def charged_bytes_def
      index_bytes_def live_bytes_def arena_new_def)

lemma finite_part: "map_inv p t Mp m \<Longrightarrow> i < length (mp_shards Mp) \<Longrightarrow> finite (dom (part Mp i m))"
  unfolding map_inv_def shard_ok_def table_inv_def using card_contents(1) table_repD(1,4) by metis

lemma dom_parts: "map_inv p t Mp m \<Longrightarrow> dom m = (\<Union>i<length (mp_shards Mp). dom (part Mp i m))"
  using shard_of_less by (auto simp: map_inv_def part_def dom_def split: if_splits)

lemma map_len_spec:
  assumes inv: "map_inv p t Mp m"
  shows "finite (dom m)" "map_len Mp = card (dom m)"
proof -
  let ?n = "length (mp_shards Mp)"
  show "finite (dom m)" using finite_part [OF inv] unfolding dom_parts [OF inv] by auto
  have "card (dom m) = (\<Sum>i<?n. card (dom (part Mp i m)))"
    unfolding dom_parts [OF inv] using finite_part [OF inv]
    by (subst card_UN_disjoint) (auto simp: part_def dom_def split: if_splits)
  also have "\<dots> = (\<Sum>i<?n. sh_len (mp_shards Mp ! i))" using inv by (intro sum.cong) (auto simp: map_inv_def shard_ok_def)
  also have "\<dots> = map_len Mp" by (simp add: map_len_def sum_list_sum_nth atLeast0LessThan)
  finally show "map_len Mp = card (dom m)" by simp
qed

lemma map_charged_spec:
  "map_inv p t Mp m \<Longrightarrow> map_charged_bytes Mp = map_index_bytes Mp + map_live_bytes Mp"
  unfolding map_charged_bytes_def map_index_bytes_def map_live_bytes_def sum_list_sum_nth sum.distrib [symmetric] length_map
  by (intro sum.cong) (auto simp: map_inv_def shard_ok_def charged_bytes_def table_live_bytes_def)

lemma clear_shards_spec:
  assumes "\<forall>S\<in>set Ss. \<exists>m. table_inv (env_platform ev) (env_target ev) (sh_table S) m"
  shows "returns (clear_shards ev i Ss) (\<lambda>Ss'. length Ss' = length Ss \<and>
    (\<forall>j<length Ss. shard_ok (env_platform ev) (env_target ev) (tb_seed (sh_table (Ss ! j))) (Ss' ! j) Map.empty))"
  using assms
proof (induction Ss arbitrary: i)
  case (Cons S Ss)
  let ?p = "env_platform ev" and ?t = "env_target ev"
  obtain M E m where rep: "rep_holds ?p ?t (sh_table S) M E m" using Cons.prems by (auto simp: table_inv_alt)
  obtain T1 where T1: "table_clear (sh_table S) = Some T1" "table_inv ?p ?t T1 Map.empty" "tb_seed T1 = tb_seed (sh_table S)"
    using tgt.clear_spec [OF rep] by (auto elim!: returnsE)
  obtain M1 E1 where rep1: "rep_holds ?p ?t T1 M1 E1 Map.empty" using T1(2) by (auto simp: table_inv_alt)
  obtain b T2 where T2: "shrink ?t T1 = Some (b, T2)" "table_inv ?p ?t T2 Map.empty" "tb_seed T2 = tb_seed T1"
    using tgt.shrink_spec [OF rep1] by (auto elim!: returnsE)
  obtain S' where S': "publish ev i S T2 = Some S'" "shard_ok ?p ?t (tb_seed (sh_table S)) S' Map.empty"
    using publish_returns [OF table_inv_readable [OF T2(2)], of ev i S] T1(3) T2 table_inv_len [OF T2(2)]
    by (auto simp: shard_ok_def elim!: returnsE)
  show ?case
    using Cons.IH [of "i + 1"] Cons.prems T1(1) T2(1) S'
    by (auto simp: nth_Cons elim!: returns_mono split: nat.splits)
qed simp

lemma map_clear_spec:
  assumes inv: "map_inv (env_platform ev) (env_target ev) Mp m"
  shows "returns (map_clear ev Mp) (\<lambda>Mp'. map_inv (env_platform ev) (env_target ev) Mp' Map.empty \<and> framed Mp Mp')"
proof -
  have "\<forall>S\<in>set (mp_shards Mp). \<exists>m. table_inv (env_platform ev) (env_target ev) (sh_table S) m"
  proof
    fix S assume "S \<in> set (mp_shards Mp)"
    then obtain i where "i < length (mp_shards Mp)" "S = mp_shards Mp ! i" by (auto simp: in_set_conv_nth)
    then have "table_inv (env_platform ev) (env_target ev) (sh_table S) (part Mp i m)"
      using inv by (simp add: map_inv_def shard_ok_def)
    then show "\<exists>m. table_inv (env_platform ev) (env_target ev) (sh_table S) m" by blast
  qed
  from clear_shards_spec [OF this, of 0] show ?thesis
    using inv by (auto simp: map_clear_def map_inv_def framed_def map_shape_def shard_ok_def part_def elim!: returns_mono)
qed

definition map_swept :: "Map \<Rightarrow> cache \<Rightarrow> nat \<Rightarrow> cache \<Rightarrow> bool" where
  "map_swept Mp m removed m' \<longleftrightarrow> m' \<subseteq>\<^sub>m m \<and> (\<forall>k. m' k = None \<longrightarrow> m k = None \<or> due (map_now Mp) m k) \<and>
     removed + card (dom m') = card (dom m)"

text \<open>
  One slice of a sweep: at most the budget is erased, all of it in the shard whose turn it is, and a
  shard with no more slots than the budget is left with nothing that is due.
\<close>

definition swept_slice :: "Map \<Rightarrow> nat \<Rightarrow> cache \<Rightarrow> nat \<Rightarrow> cache \<Rightarrow> bool" where
  "swept_slice Mp budget m removed m' \<longleftrightarrow>
     (let i = mp_sweep_shard Mp mod length (mp_shards Mp)
      in removed \<le> budget \<and> (\<forall>k. key_shard Mp k \<noteq> i \<longrightarrow> m' k = m k) \<and>
         (length (tb_slots (sh_table (mp_shards Mp ! i))) \<le> budget \<longrightarrow> (\<forall>k. key_shard Mp k = i \<longrightarrow> \<not> due (map_now Mp) m' k)))"

lemma map_swept_graft:
  assumes inv: "map_inv p t Mp m" and i: "i < length (mp_shards Mp)" and le: "mi \<subseteq>\<^sub>m part Mp i m"
    and gone: "\<And>k. mi k = None \<Longrightarrow> part Mp i m k = None \<or> due (map_now Mp) (part Mp i m) k"
    and count: "removed + card (dom mi) = card (dom (part Mp i m))"
  shows "map_swept Mp m removed (graft Mp i mi m)"
proof -
  have mi: "mi k = None" if "key_shard Mp k \<noteq> i" for k
    using le that by (auto simp: map_le_def part_def) (metis domIff option.distinct(1))
  have "graft Mp i mi m \<subseteq>\<^sub>m m" using le by (auto simp: map_le_def graft_def part_def dom_def split: if_splits)
  moreover have "m k = None \<or> due (map_now Mp) m k" if "graft Mp i mi m k = None" for k
    using that gone [of k] by (auto simp: graft_def part_def due_def split: if_splits)
  moreover have "removed + card (dom (graft Mp i mi m)) = card (dom m)"
  proof -
    let ?rest = "dom m - dom (part Mp i m)"
    have fin: "finite (dom m)" by (rule map_len_spec(1) [OF inv])
    have sub: "dom (part Mp i m) \<subseteq> dom m" by (auto simp: part_def split: if_splits)
    have "dom mi \<subseteq> dom (part Mp i m)" using le by (simp add: map_le_implies_dom_le)
    moreover have "dom (graft Mp i mi m) = dom mi \<union> ?rest"
      using mi by (auto simp: graft_def part_def dom_def split: if_splits)
    ultimately have "card (dom (graft Mp i mi m)) = card (dom mi) + card ?rest"
      using fin sub by (auto intro!: card_Un_disjoint dest: finite_subset)
    moreover have "card (dom m) = card (dom (part Mp i m)) + card ?rest"
      using fin sub by (simp add: card_Diff_subset finite_subset card_mono)
    ultimately show ?thesis using count by simp
  qed
  ultimately show ?thesis unfolding map_swept_def by blast
qed

lemma map_inv_clock: "map_inv p t (Mp\<lparr> mp_clock := ck \<rparr>) m \<longleftrightarrow> map_inv p t Mp m"
proof -
  have "shard_of (Mp\<lparr> mp_clock := ck \<rparr>) = shard_of Mp" by (rule ext) (simp add: shard_of_def)
  then show ?thesis by (simp add: map_inv_def map_shape_def part_def)
qed

lemma map_sweep_spec:
  assumes inv: "map_inv (env_platform ev) (env_target ev) Mp m"
  shows "returns (map_sweep ev Mp budget) (\<lambda>(removed, Mp').
    (\<exists>m'. map_inv (env_platform ev) (env_target ev) Mp' m' \<and> map_swept Mp m removed m' \<and> swept_slice Mp budget m removed m') \<and>
    mp_clock Mp' = mp_clock Mp \<and> mp_sweep_shard Mp' = (mp_sweep_shard Mp + 1) mod 2 ^ 64)"
proof -
  let ?p = "env_platform ev" and ?t = "env_target ev" and ?n = "length (mp_shards Mp)"
  let ?Mp = "Mp\<lparr> mp_sweep_shard := (mp_sweep_shard Mp + 1) mod 2 ^ 64 \<rparr>" and ?i = "mp_sweep_shard Mp mod length (mp_shards Mp)"
  have pos: "0 < ?n" using inv by (auto simp: map_inv_def map_shape_def)
  then have i: "?i < ?n" by simp
  let ?S = "mp_shards Mp ! ?i"
  have S: "table_inv ?p ?t (sh_table ?S) (part Mp ?i m)" "tb_seed (sh_table ?S) = mp_seed Mp"
    using inv i by (auto simp: map_inv_def shard_ok_def)
  obtain M E where rep: "rep_holds ?p ?t (sh_table ?S) M E (part Mp ?i m)" using S(1) by (auto simp: table_inv_alt)
  obtain at removed T1 mi where T1: "table_sweep ?t (sh_table ?S) (sh_sweep_at ?S) budget (map_now Mp) = Some ((at, removed), T1)"
      "tb_seed T1 = mp_seed Mp" "table_inv ?p ?t T1 mi" and mi: "mi \<subseteq>\<^sub>m part Mp ?i m"
      "\<forall>k. mi k = None \<longrightarrow> part Mp ?i m k = None \<or> due (map_now Mp) (part Mp ?i m) k" "removed + card (dom mi) = card (dom (part Mp ?i m))"
      "length (tb_slots (sh_table ?S)) \<le> budget \<longrightarrow> (\<forall>k. \<not> due (map_now Mp) mi k)"
    using tgt.sweep_spec [OF rep, of "sh_sweep_at ?S" budget "map_now Mp"] S(2) by (auto simp: sweep_post_def elim!: returnsE)
  obtain M1 E1 where rep1: "rep_holds ?p ?t T1 M1 E1 mi" using T1(3) by (auto simp: table_inv_alt)
  obtain T2 where T2: "(if 0 < removed then do { (_, T) \<leftarrow> shrink ?t T1; Some T } else Some T1) = Some T2"
      "table_inv ?p ?t T2 mi" "tb_seed T2 = mp_seed Mp"
    using tgt.shrink_spec [OF rep1] T1(2,3) by (cases "0 < removed") (auto elim!: returnsE)
  obtain S' where S': "publish ev ?i ?S T2 = Some S'" "sh_table S' = T2" "sh_len S' = tb_len T2" "sh_charged S' = charged_bytes T2"
    using publish_returns [OF table_inv_readable [OF T2(2)], of ev ?i ?S] by (auto elim!: returnsE)
  let ?Mp' = "?Mp\<lparr> mp_shards := (mp_shards ?Mp)[?i := S'\<lparr> sh_sweep_at := at \<rparr>] \<rparr>"
  have code: "map_sweep ev Mp budget = Some (removed, ?Mp')"
    using i T1(1) T2(1) S'(1) by (simp add: map_sweep_def idx_def set_idx_def Let_def)
  have inv': "map_inv ?p ?t ?Mp m" using inv unfolding map_inv_def map_shape_def by simp
  have rep': "replaced ?Mp ?i T2 ?Mp'" unfolding replaced_def using S' by (intro exI [of _ "S'\<lparr> sh_sweep_at := at \<rparr>"]) simp
  have "map_inv ?p ?t ?Mp' (graft Mp ?i mi m)"
    by (rule map_inv_replaced [OF inv' _ rep']) (use i T2 part_graft [OF mi(1)] in simp_all)
  moreover have "map_swept Mp m removed (graft Mp ?i mi m)"
    by (rule map_swept_graft [OF inv i mi(1) _ mi(3)]) (use mi(2) in blast)
  moreover have "swept_slice Mp budget m removed (graft Mp ?i mi m)"
    using table_sweep_removed [OF T1(1)] mi(4) by (auto simp: swept_slice_def Let_def graft_def due_def)
  ultimately show ?thesis unfolding code by auto
qed

end
