(* ===== verification/Rugo_Room.thy ===== *)
theory Rugo_Room
  imports Rugo_Sharded
begin

text \<open>
  When a write cannot fail: an allocation of a small block is refused only when the system refuses a
  segment or the arena has made all the segments a reference can name.
\<close>

lemma case_sum_Inl:
  "(case r of Inl e \<Rightarrow> Some (Inl e, f e) | Inr u \<Rightarrow> g u) = Some (Inl x, A) \<longleftrightarrow> (r = Inl x \<and> f x = A) \<or> (\<exists>u. r = Inr u \<and> g u = Some (Inl x, A))"
  by (cases r) auto

lemma set_next_free_made: "set_next_free A at link = Some A' \<Longrightarrow> ar_made A' = ar_made A"
  by (auto simp: set_next_free_def segment_mut_def bind_eq_Some_conv split: prod.splits if_splits)

lemma push_free_made: "push_free A at len = Some A' \<Longrightarrow> ar_made A' = ar_made A"
  by (auto simp: push_free_def bind_eq_Some_conv Let_def dest!: set_next_free_made)

lemma grow_granted: "grow p True A = Some (Inl e, A') \<Longrightarrow> MAX_SEGMENTS \<le> ar_made A"
  by (auto simp: grow_def segment_new_def bind_eq_Some_conv Let_def split: if_splits option.splits)

lemma alloc_granted:
  assumes "alloc p True A len = Some (Inl e, A')" "0 < len" "len \<le> SMALL_MAX"
  shows "MAX_SEGMENTS \<le> ar_made A"
proof -
  obtain c where c: "class_of len = Some c" using assms(2,3) by (simp add: class_of_def)
  then show ?thesis
    using assms(1) unfolding alloc_def
    by (auto simp: Let_def bind_eq_Some_conv case_sum_Inl simp del: if_split dest!: push_free_made grow_granted split: if_split_asm)
qed

lemma reserve_arena: "reserve t T = Some T' \<Longrightarrow> tb_arena T' = tb_arena T"
  by (auto simp: reserve_def rehash_def bind_eq_Some_conv Let_def split: if_splits)

lemma table_set_granted:
  assumes "table_set t p True T key val hsh e u = Some (Inl x, T')"
    and "size_of_entry (length key) (length val) (e \<noteq> None) (u \<noteq> None) \<le> SMALL_MAX"
  shows "MAX_SEGMENTS \<le> ar_made (tb_arena T)"
proof -
  have pos: "0 < size_of_entry (length key) (length val) (e \<noteq> None) (u \<noteq> None)" by (simp add: size_of_entry_def)
  show ?thesis
    using assms(1) unfolding table_set_def
    by (auto simp: Let_def bind_eq_Some_conv case_sum_Inl dest!: reserve_arena alloc_granted [OF _ pos assms(2)] simp del: not_None_eq
        split: option.split_asm if_split_asm)
qed

section \<open>Writes to the map\<close>

text \<open>How many segments the shard of a key has made.\<close>

definition segments_of :: "Map \<Rightarrow> bytes \<Rightarrow> nat" where
  "segments_of Mp key = ar_made (tb_arena (sh_table (mp_shards Mp ! key_shard Mp key)))"

lemma small_write:
  assumes inv: "map_inv (env_platform ev) (env_target ev) Mp m" and grants: "env_grants ev" and room: "segments_of Mp key < MAX_SEGMENTS"
    and small: "size_of_entry (length key) (length val) (e \<noteq> None) (u \<noteq> None) \<le> SMALL_MAX"
  shows "returns (map_set ev Mp key val e u) (\<lambda>(r, Mp').
    r = Inr (if m key = None then Inserted else Replaced) \<and> framed Mp Mp' \<and>
    map_wrote (env_platform ev) (env_target ev) Mp key (m(key \<mapsto> (val, e, u))) Mp')"
proof -
  have "length key \<le> SMALL_MAX" "length val \<le> SMALL_MAX" using small by (auto simp: size_of_entry_def)
  then have fits: "fits (length key)" "fits (length val)" by (auto simp: fits_def SMALL_MAX_def)
  obtain r Mp' where r: "map_set ev Mp key val e u = Some (r, Mp')"
      "write_post (env_platform ev) (env_target ev) Mp key (\<lambda>_. True) m (\<lambda>_. m(key \<mapsto> (val, e, u))) (r, Mp')"
      "\<forall>w. r = Inr w \<longrightarrow> w = (if m key = None then Inserted else Replaced)"
    using map_set_spec [OF inv fits, of e u] by (auto elim!: returnsE)
  have "r \<noteq> Inl x" for x
  proof
    assume "r = Inl x"
    then have "\<exists>T'. table_set (env_target ev) (env_platform ev) True (sh_table (mp_shards Mp ! key_shard Mp key)) key val
        (hash_of (mp_seed Mp) key) e u = Some (Inl x, T')"
      using r(1) grants
      by (auto simp: map_set_def map_hash_def with_key_def idx_def bind_eq_Some_conv case_sum_Inl Let_def split: if_split_asm)
    then show False using table_set_granted [OF _ small] room by (fastforce simp: segments_of_def)
  qed
  then obtain w where "r = Inr w" by (cases r) auto
  then show ?thesis using r by (simp add: write_post_def)
qed

text \<open>
  C19: A write whose entry fits a small block succeeds whenever the system grants memory and the shard has
  not made every segment a reference can name: the key then holds the value, and the answer says
  whether it was there before.
\<close>

theorem small_write_succeeds:
  assumes "map_inv (env_platform ev) (env_target ev) Mp m" "env_grants ev" "segments_of Mp key < MAX_SEGMENTS"
    "size_of_entry (length key) (length val) (e \<noteq> None) (u \<noteq> None) \<le> SMALL_MAX"
  shows "returns (map_set ev Mp key val e u) (\<lambda>(r, Mp').
    r = Inr (if m key = None then Inserted else Replaced) \<and>
    (\<exists>m'. map_inv (env_platform ev) (env_target ev) Mp' m' \<and> m' key = Some (val, e, u) \<and> m' \<subseteq>\<^sub>m m(key \<mapsto> (val, e, u))))"
  by (rule returns_mono [OF small_write [OF assms]]) (auto simp: map_wrote_def)

definition granting :: Env where
  "granting = \<lparr> env_target = Portable, env_platform = \<lparr> lazy = True, page = 4096 \<rparr>, env_grants = True,
     env_caps = (\<lambda>i. \<lparr> cap_tail = 0, cap_large = 0, cap_large_free = 0, cap_free = 0 \<rparr>) \<rparr>"

lemma granting_inv: "map_inv (env_platform granting) (env_target granting) (map_with_seed 4 0 9 (Some 60)) Map.empty"
  by (rule map_new_spec) (simp add: granting_def platform_ok_def granule_def)

theorem small_write_succeeds_witness:
  "returns (map_set granting (map_with_seed 4 0 9 (Some 60)) [107] [118] None None) (\<lambda>(r, Mp').
    r = Inr (if (Map.empty :: cache) [107] = None then Inserted else Replaced) \<and>
    (\<exists>m'. map_inv (env_platform granting) (env_target granting) Mp' m' \<and> m' [107] = Some ([118], None, None) \<and>
      m' \<subseteq>\<^sub>m Map.empty([107] \<mapsto> ([118], None, None))))"
proof (rule small_write_succeeds [OF granting_inv])
  let ?Mp = "map_with_seed 4 0 9 (Some 60)"
  have "key_shard ?Mp [107] < length (mp_shards ?Mp)" by (rule shard_of_less [OF map_with_seed_shape])
  then show "segments_of ?Mp [107] < MAX_SEGMENTS"
    by (simp add: segments_of_def map_with_seed_def Let_def table_new_def arena_new_def MAX_SEGMENTS_def)
qed (simp_all add: granting_def size_of_entry_def klen_len_def varint_len_def SMALL_MAX_def)

end
