(* ===== verification/Rugo_Stats.thy ===== *)
theory Rugo_Stats
  imports Rugo_Prelude
begin

text \<open>
  What the server counts, \<^verbatim>\<open>crates/rugo-server/src/stats.rs\<close>: one block of counters a thread and
  their sum. A counter is a 64-bit word, and an increment wraps as in the release build. Each thread writes only its
  own block, so a plain load and store is one step here.
\<close>

record Counters =
  commands :: u64
  hits :: u64
  misses :: u64
  connections :: u64

record Total =
  total_commands :: u64
  total_hits :: u64
  total_misses :: u64
  total_connections :: u64

record Stats =
  per :: "Counters list"

definition counters_default :: Counters where
  "counters_default = \<lparr> commands = 0, hits = 0, misses = 0, connections = 0 \<rparr>"

definition bump :: "u64 \<Rightarrow> u64" where
  "bump counter = counter + 1"

definition command :: "Counters \<Rightarrow> Counters" where
  "command c = c\<lparr> commands := bump (commands c) \<rparr>"

definition hit :: "Counters \<Rightarrow> Counters" where
  "hit c = c\<lparr> hits := bump (hits c) \<rparr>"

definition miss :: "Counters \<Rightarrow> Counters" where
  "miss c = c\<lparr> misses := bump (misses c) \<rparr>"

definition connection_made :: "Counters \<Rightarrow> Counters" where
  "connection_made c = c\<lparr> connections := bump (connections c) \<rparr>"

definition stats_new :: "nat \<Rightarrow> Stats" where
  "stats_new threads = \<lparr> per = replicate threads counters_default \<rparr>"

text \<open>\<^verbatim>\<open>stats.thread(thread).f()\<close>: the block is reached by index, which panics out of range.\<close>

definition thread_counters :: "Stats \<Rightarrow> nat \<Rightarrow> (Counters \<Rightarrow> Counters) \<Rightarrow> Stats option" where
  "thread_counters st thread f = do {
     c \<leftarrow> idx (per st) thread;
     cs \<leftarrow> set_idx (per st) thread (f c);
     Some (st\<lparr> per := cs \<rparr>) }"

definition total_add :: "Total \<Rightarrow> Counters \<Rightarrow> Total" where
  "total_add t c = \<lparr> total_commands = total_commands t + commands c, total_hits = total_hits t + hits c,
     total_misses = total_misses t + misses c, total_connections = total_connections t + connections c \<rparr>"

definition stats_total :: "Stats \<Rightarrow> Total" where
  "stats_total st = foldl total_add \<lparr> total_commands = 0, total_hits = 0, total_misses = 0, total_connections = 0 \<rparr> (per st)"

section \<open>Counting\<close>

lemma foldl_total:
  "foldl total_add t cs = \<lparr> total_commands = total_commands t + sum_list (map commands cs), total_hits = total_hits t + sum_list (map hits cs),
     total_misses = total_misses t + sum_list (map misses cs), total_connections = total_connections t + sum_list (map connections cs) \<rparr>"
  by (induction cs arbitrary: t) (simp_all add: total_add_def algebra_simps)

lemma total_eq:
  "stats_total st = \<lparr> total_commands = sum_list (map commands (per st)), total_hits = sum_list (map hits (per st)),
     total_misses = sum_list (map misses (per st)), total_connections = sum_list (map connections (per st)) \<rparr>"
  by (simp add: stats_total_def foldl_total)

lemma sum_list_map_update:
  "i < length cs \<Longrightarrow> sum_list (map f (cs[i := c])) = sum_list (map f cs) + (f c - f (cs ! i))" for f :: "'a \<Rightarrow> 'b::len word"
  by (induction cs arbitrary: i) (auto simp: algebra_simps split: nat.splits)

lemma returns_thread_counters [wp_rules]:
  "returns (thread_counters st i f) Q \<longleftrightarrow> i < length (per st) \<and> Q (st\<lparr> per := (per st)[i := f (per st ! i)] \<rparr>)"
  by (auto simp: thread_counters_def returns_idx returns_set_idx)

text \<open>
  Counting a command, a hit or a miss on one thread adds exactly one to the matching number that
  \<^verbatim>\<open>INFO\<close> reports, leaves the other numbers alone, and touches no other thread's block.
\<close>

theorem counting_adds_one:
  assumes "i < length (per st)" and "(f, g) \<in> {(command, total_commands_update), (hit, total_hits_update), (miss, total_misses_update),
      (connection_made, total_connections_update)}"
  shows "returns (thread_counters st i f) (\<lambda>st'. stats_total st' = g (\<lambda>n. n + 1) (stats_total st) \<and>
      (\<forall>j. j \<noteq> i \<longrightarrow> per st' ! j = per st ! j))"
  using assms
  by (auto simp: returns_thread_counters total_eq sum_list_map_update command_def hit_def miss_def connection_made_def bump_def)

theorem counting_adds_one_witness:
  "returns (thread_counters (stats_new 4) 2 hit) (\<lambda>st'. stats_total st' = total_hits_update (\<lambda>n. n + 1) (stats_total (stats_new 4)) \<and>
      (\<forall>j. j \<noteq> 2 \<longrightarrow> per st' ! j = per (stats_new 4) ! j))"
  by (rule counting_adds_one) (simp_all add: stats_new_def)

end
