(* ===== verification/Rugo_Text.thy ===== *)
theory Rugo_Text
  imports Rugo_Resp
begin

text \<open>
  What the server uses of the standard library's text: ASCII case, UTF-8 in the lossy and the checked
  reading, \<^verbatim>\<open>to_lowercase\<close>, \<^verbatim>\<open>escape_debug\<close>, and the integer parser of \<^verbatim>\<open>str::parse\<close>. A string is the
  list of its code points. The tables of Unicode behind the last two are a parameter.
\<close>

section \<open>ASCII\<close>

definition ascii :: "string \<Rightarrow> bytes" where
  "ascii s = map (\<lambda>c. of_nat (of_char c)) s"

definition to_ascii_uppercase :: "u8 \<Rightarrow> u8" where
  "to_ascii_uppercase b = (if 97 \<le> b \<and> b \<le> 122 then b - 32 else b)"

definition to_ascii_lowercase :: "u8 \<Rightarrow> u8" where
  "to_ascii_lowercase b = (if 65 \<le> b \<and> b \<le> 90 then b + 32 else b)"

definition eq_ignore_ascii_case :: "bytes \<Rightarrow> bytes \<Rightarrow> bool" where
  "eq_ignore_ascii_case a b \<longleftrightarrow> map to_ascii_lowercase a = map to_ascii_lowercase b"

section \<open>UTF-8\<close>

definition continuation :: "u8 \<Rightarrow> bool" where
  "continuation b \<longleftrightarrow> b AND 192 = 128"

definition in_bytes :: "nat \<Rightarrow> nat \<Rightarrow> u8 \<Rightarrow> bool" where
  "in_bytes lo hi b \<longleftrightarrow> lo \<le> unat b \<and> unat b \<le> hi"

text \<open>The second byte of a sequence of three or four, by the first.\<close>

definition second_of_three :: "u8 \<Rightarrow> u8 \<Rightarrow> bool" where
  "second_of_three b c \<longleftrightarrow>
     (b = 0xE0 \<and> in_bytes 0xA0 0xBF c) \<or> (in_bytes 0xE1 0xEC b \<and> in_bytes 0x80 0xBF c) \<or>
     (b = 0xED \<and> in_bytes 0x80 0x9F c) \<or> (in_bytes 0xEE 0xEF b \<and> in_bytes 0x80 0xBF c)"

definition second_of_four :: "u8 \<Rightarrow> u8 \<Rightarrow> bool" where
  "second_of_four b c \<longleftrightarrow>
     (b = 0xF0 \<and> in_bytes 0x90 0xBF c) \<or> (in_bytes 0xF1 0xF3 b \<and> in_bytes 0x80 0xBF c) \<or>
     (b = 0xF4 \<and> in_bytes 0x80 0x8F c)"

definition safe_get :: "bytes \<Rightarrow> nat \<Rightarrow> u8" where
  "safe_get bs i = (if i < length bs then bs ! i else 0)"

definition low :: "nat \<Rightarrow> u8 \<Rightarrow> nat" where
  "low n b = unat b mod 2 ^ n"

text \<open>
  The first sequence of a text that is not empty: a code point, or how many bytes are the invalid one.
\<close>

definition utf8_first :: "bytes \<Rightarrow> nat \<times> nat option" where
  "utf8_first bs =
     (let b = safe_get bs 0; c = safe_get bs 1; d = safe_get bs 2; e = safe_get bs 3
      in if unat b < 128 then (1, Some (unat b))
         else if in_bytes 0xC2 0xDF b then
           (if continuation c then (2, Some (low 5 b * 64 + low 6 c)) else (1, None))
         else if in_bytes 0xE0 0xEF b then
           (if \<not> second_of_three b c then (1, None)
            else if \<not> continuation d then (2, None)
            else (3, Some ((low 4 b * 64 + low 6 c) * 64 + low 6 d)))
         else if in_bytes 0xF0 0xF4 b then
           (if \<not> second_of_four b c then (1, None)
            else if \<not> continuation d then (2, None)
            else if \<not> continuation e then (3, None)
            else (4, Some (((low 3 b * 64 + low 6 c) * 64 + low 6 d) * 64 + low 6 e)))
         else (1, None))"

lemma utf8_first_pos: "0 < fst (utf8_first bs)"
  by (simp add: utf8_first_def Let_def)

function utf8_chunks :: "bytes \<Rightarrow> nat option list" where
  "utf8_chunks bs =
     (if bs = [] then [] else case utf8_first bs of (n, c) \<Rightarrow> c # utf8_chunks (drop n bs))"
  by auto
termination
  by (relation "measure length") (use utf8_first_pos in \<open>auto simp: prod_eq_iff\<close>)

declare utf8_chunks.simps [simp del]

definition REPLACEMENT :: nat where "REPLACEMENT = 0xFFFD"

definition from_utf8_lossy :: "bytes \<Rightarrow> nat list" where
  "from_utf8_lossy bs = map (\<lambda>c. case c of Some x \<Rightarrow> x | None \<Rightarrow> REPLACEMENT) (utf8_chunks bs)"

definition from_utf8 :: "bytes \<Rightarrow> nat list option" where
  "from_utf8 bs = (if list_all (\<lambda>c. c \<noteq> None) (utf8_chunks bs) then Some (from_utf8_lossy bs) else None)"

definition utf8_char :: "nat \<Rightarrow> bytes" where
  "utf8_char x =
     (if x < 0x80 then [of_nat x]
      else if x < 0x800 then [of_nat (0xC0 + x div 64), of_nat (0x80 + x mod 64)]
      else if x < 0x10000 then [of_nat (0xE0 + x div 4096), of_nat (0x80 + x div 64 mod 64), of_nat (0x80 + x mod 64)]
      else [of_nat (0xF0 + x div 262144 mod 8), of_nat (0x80 + x div 4096 mod 64), of_nat (0x80 + x div 64 mod 64), of_nat (0x80 + x mod 64)])"

definition as_bytes :: "nat list \<Rightarrow> bytes" where
  "as_bytes cs = concat (map utf8_char cs)"

definition chars :: "string \<Rightarrow> nat list" where
  "chars s = map of_char s"

section \<open>Lower case and escapes\<close>

record Unicode =
  uni_lower :: "nat \<Rightarrow> nat list"
  uni_printable :: "nat \<Rightarrow> bool"
  uni_grapheme_extended :: "nat \<Rightarrow> bool"

text \<open>
  \<^verbatim>\<open>str::to_lowercase\<close>, but for the one letter whose lower case depends on its place in the word: a
  capital sigma becomes one of two letters that are not ASCII, and what the server does with the
  result is compare it with ASCII names.
\<close>

definition to_lowercase :: "Unicode \<Rightarrow> nat list \<Rightarrow> nat list" where
  "to_lowercase u cs = concat (map (\<lambda>x. if x < 128 then [if 65 \<le> x \<and> x \<le> 90 then x + 32 else x] else uni_lower u x) cs)"

definition hex_digit :: "nat \<Rightarrow> nat" where
  "hex_digit d = (if d < 10 then 48 + d else 87 + d)"

fun hex :: "nat \<Rightarrow> nat list" where
  "hex n = (if n < 16 then [hex_digit n] else hex (n div 16) @ [hex_digit (n mod 16)])"

declare hex.simps [simp del]

definition escape_unicode :: "nat \<Rightarrow> nat list" where
  "escape_unicode x = chars [CHR 0x5C] @ chars ''u{'' @ hex x @ chars ''}''"

definition is_printable :: "Unicode \<Rightarrow> nat \<Rightarrow> bool" where
  "is_printable u x = (if x < 32 then False else if x < 127 then True else uni_printable u x)"

definition escape_debug_ext :: "Unicode \<Rightarrow> bool \<Rightarrow> nat \<Rightarrow> nat list" where
  "escape_debug_ext u first x =
     (if x = 0 then [0x5C, 48]
      else if x = 9 then [0x5C, 116]
      else if x = 13 then [0x5C, 114]
      else if x = 10 then [0x5C, 110]
      else if x = 0x5C \<or> x = 0x22 \<or> x = 0x27 then [0x5C, x]
      else if first \<and> 0x300 \<le> x \<and> uni_grapheme_extended u x then escape_unicode x
      else if is_printable u x then [x]
      else escape_unicode x)"

definition escape_debug :: "Unicode \<Rightarrow> nat list \<Rightarrow> nat list" where
  "escape_debug u cs = (case cs of [] \<Rightarrow> [] | c # cs \<Rightarrow> escape_debug_ext u True c @ concat (map (escape_debug_ext u False) cs))"

section \<open>Integers\<close>

fun parse_digits :: "(int \<Rightarrow> int option) \<Rightarrow> bool \<Rightarrow> nat list \<Rightarrow> int \<Rightarrow> int option" where
  "parse_digits checked negative [] value = Some value"
| "parse_digits checked negative (x # xs) value =
     (if 48 \<le> x \<and> x \<le> 57
      then do {
        value \<leftarrow> checked (value * 10);
        value \<leftarrow> checked (if negative then value - int (x - 48) else value + int (x - 48));
        parse_digits checked negative xs value }
      else None)"

definition parse_int :: "(int \<Rightarrow> int option) \<Rightarrow> bool \<Rightarrow> nat list \<Rightarrow> int option" where
  "parse_int checked is_signed text =
     (case text of
        [] \<Rightarrow> None
      | x # xs \<Rightarrow>
          if xs = [] \<and> (x = 43 \<or> x = 45) then None
          else if x = 43 then parse_digits checked False xs 0
          else if x = 45 \<and> is_signed then parse_digits checked True xs 0
          else parse_digits checked False text 0)"

definition parse_i64 :: "nat list \<Rightarrow> int option" where
  "parse_i64 = parse_int i64_checked True"

definition parse_unsigned :: "nat \<Rightarrow> nat list \<Rightarrow> nat option" where
  "parse_unsigned bits text = map_option nat (parse_int (\<lambda>v. if 0 \<le> v \<and> v < 2 ^ bits then Some v else None) False text)"

end
