(* ===== verification/Rugo_Config.thy ===== *)
theory Rugo_Config
  imports Rugo_Text Rugo_Map
begin

text \<open>
  What the binary was asked to do, \<^verbatim>\<open>crates/rugo-server/src/config.rs\<close>: the flags, the sizes and the
  defaults. The number of cores is a parameter of the default.
\<close>

definition DEFAULT_PORT :: nat where "DEFAULT_PORT = 6379"
definition SHARDS_PER_THREAD :: nat where "SHARDS_PER_THREAD = 16"
definition MIN_SHARDS :: nat where "MIN_SHARDS = 64"

definition usize_MAX :: nat where "usize_MAX = 2 ^ 64 - 1"

definition shards_for :: "nat \<Rightarrow> nat" where
  "shards_for threads = next_power_of_two (min (max (min (threads * SHARDS_PER_THREAD) usize_MAX) MIN_SHARDS) MAX_SHARDS)"

datatype Uring = Auto | Yes | No

record Config =
  cf_threads :: nat
  cf_port :: "nat option"
  cf_unixsocket :: "nat list option"
  cf_maxmemory :: nat
  cf_shards :: nat
  cf_uring :: Uring

datatype Asked = Serve Config | Version | Usage

definition config_default :: "nat \<Rightarrow> Config" where
  "config_default cores = \<lparr> cf_threads = cores, cf_port = Some DEFAULT_PORT, cf_unixsocket = None, cf_maxmemory = 0,
     cf_shards = shards_for cores, cf_uring = No \<rparr>"

text \<open>A refusal is the message it carries.\<close>

definition config_number :: "nat \<Rightarrow> nat list \<Rightarrow> nat list \<Rightarrow> nat list + nat" where
  "config_number bits txt flag = (case parse_unsigned bits txt of
     Some n \<Rightarrow> Inr n
   | None \<Rightarrow> Inl (flag @ chars '' takes a number, not '' @ txt))"

definition is_whitespace :: "nat \<Rightarrow> bool" where
  "is_whitespace x \<longleftrightarrow> (9 \<le> x \<and> x \<le> 13) \<or> x = 32 \<or> x = 0x85 \<or> x = 0xA0 \<or> x = 0x1680 \<or>
     (0x2000 \<le> x \<and> x \<le> 0x200A) \<or> x = 0x2028 \<or> x = 0x2029 \<or> x = 0x202F \<or> x = 0x205F \<or> x = 0x3000"

definition trim :: "nat list \<Rightarrow> nat list" where
  "trim s = rev (dropWhile is_whitespace (rev (dropWhile is_whitespace s)))"

definition strip_suffix :: "nat list \<Rightarrow> nat list \<Rightarrow> nat list option" where
  "strip_suffix s suf =
     (if length suf \<le> length s \<and> drop (length s - length suf) s = suf then Some (take (length s - length suf) s) else None)"

definition lower_char :: "nat \<Rightarrow> nat" where
  "lower_char x = (if 65 \<le> x \<and> x \<le> 90 then x + 32 else x)"

definition config_bytes :: "nat list \<Rightarrow> nat list + nat" where
  "config_bytes txt =
     (let lower = map lower_char (trim txt);
          (ds, scale) =
            (case strip_suffix lower (chars ''kb'') of Some rest \<Rightarrow> (rest, 1024) | None \<Rightarrow>
             case strip_suffix lower (chars ''mb'') of Some rest \<Rightarrow> (rest, 1024 * 1024) | None \<Rightarrow>
             case strip_suffix lower (chars ''gb'') of Some rest \<Rightarrow> (rest, 1024 * 1024 * 1024) | None \<Rightarrow>
             case strip_suffix lower (chars ''k'') of Some rest \<Rightarrow> (rest, 1000) | None \<Rightarrow>
             case strip_suffix lower (chars ''m'') of Some rest \<Rightarrow> (rest, 1000000) | None \<Rightarrow>
             case strip_suffix lower (chars ''g'') of Some rest \<Rightarrow> (rest, 1000000000) | None \<Rightarrow>
             case strip_suffix lower (chars ''b'') of Some rest \<Rightarrow> (rest, 1) | None \<Rightarrow> (lower, 1))
      in case parse_unsigned 64 (trim ds) of
           None \<Rightarrow> Inl (chars ''--maxmemory takes a size, not '' @ txt)
         | Some n \<Rightarrow>
             if n * scale \<le> usize_MAX then Inr (n * scale)
             else Inl (chars ''--maxmemory of '' @ txt @ chars '' does not fit in a machine word''))"

text \<open>The loop over the flags: the configuration so far, the shards asked for, and whether \<^verbatim>\<open>--no-port\<close> was seen.\<close>

definition needs_value :: "nat list \<Rightarrow> nat list" where
  "needs_value flag = flag @ chars '' needs a value''"

definition uring_of :: "nat list \<Rightarrow> nat list + Uring" where
  "uring_of v =
     (if v = chars ''auto'' then Inr Auto
      else if v = chars ''yes'' \<or> v = chars ''true'' \<or> v = chars ''1'' then Inr Yes
      else if v = chars ''no'' \<or> v = chars ''false'' \<or> v = chars ''0'' then Inr No
      else Inl (chars ''--uring takes auto, yes or no, not '' @ v))"

fun parse_flags :: "nat list list \<Rightarrow> Config \<Rightarrow> nat option \<Rightarrow> bool \<Rightarrow> nat list + (Asked + Config \<times> nat option \<times> bool)" where
  "parse_flags [] config asked no_port = Inr (Inr (config, asked, no_port))"
| "parse_flags (flag # rest) config asked no_port =
     (if flag = chars ''--version'' \<or> flag = chars ''-v'' then Inr (Inl Version)
      else if flag = chars ''--help'' \<or> flag = chars ''-h'' then Inr (Inl Usage)
      else if flag = chars ''--no-port'' then parse_flags rest config asked True
      else if flag \<in> {chars ''--port'', chars ''-p'', chars ''--threads'', chars ''--shards'', chars ''--unixsocket'',
          chars ''--maxmemory'', chars ''--uring''} then
        (case rest of
           [] \<Rightarrow> Inl (needs_value flag)
         | v # rest \<Rightarrow>
             if flag = chars ''--port'' \<or> flag = chars ''-p'' then
               (case config_number 16 v flag of Inl e \<Rightarrow> Inl e | Inr n \<Rightarrow> parse_flags rest (config\<lparr> cf_port := Some n \<rparr>) asked no_port)
             else if flag = chars ''--threads'' then
               (case config_number 64 v flag of Inl e \<Rightarrow> Inl e | Inr n \<Rightarrow> parse_flags rest (config\<lparr> cf_threads := max n 1 \<rparr>) asked no_port)
             else if flag = chars ''--shards'' then
               (case config_number 64 v flag of Inl e \<Rightarrow> Inl e | Inr n \<Rightarrow> parse_flags rest config (Some (max n 1)) no_port)
             else if flag = chars ''--unixsocket'' then parse_flags rest (config\<lparr> cf_unixsocket := Some v \<rparr>) asked no_port
             else if flag = chars ''--maxmemory'' then
               (case config_bytes v of Inl e \<Rightarrow> Inl e | Inr n \<Rightarrow> parse_flags rest (config\<lparr> cf_maxmemory := n \<rparr>) asked no_port)
             else
               (case uring_of v of Inl e \<Rightarrow> Inl e | Inr u \<Rightarrow> parse_flags rest (config\<lparr> cf_uring := u \<rparr>) asked no_port))
      else Inl (chars ''unknown option '' @ flag))"

definition config_parse :: "nat \<Rightarrow> nat list list \<Rightarrow> nat list + Asked" where
  "config_parse cores given =
     (case parse_flags given (config_default cores) None False of
        Inl e \<Rightarrow> Inl e
      | Inr (Inl asked) \<Rightarrow> Inr asked
      | Inr (Inr (config, asked, no_port)) \<Rightarrow>
          (let config = config\<lparr> cf_shards := (case asked of Some n \<Rightarrow> n | None \<Rightarrow> shards_for (cf_threads config)) \<rparr>;
               config = (if no_port then config\<lparr> cf_port := None \<rparr> else config)
           in if cf_port config = None \<and> cf_unixsocket config = None
              then Inl (chars ''--no-port with no --unixsocket leaves nothing to listen on'')
              else Inr (Serve config)))"

end
