(* ===== verification/Rugo_Dispatch.thy ===== *)
theory Rugo_Dispatch
  imports Rugo_Stats Rugo_Config Rugo_Map
begin

text \<open>
  What each command does, \<^verbatim>\<open>crates/rugo-server/src/dispatch.rs\<close>. A command changes the map, the
  thread's counters and the reply buffer, which together are the state \<open>Server\<close>; every handler takes
  and returns it. What the process and the machine decide is a parameter: the \<open>Env\<close> of each call on
  the map, the process number, the uptime and the tables of Unicode.

  \<^verbatim>\<open>SHUTDOWN\<close> ends the process, which is the result \<open>Exited\<close>. A command runs from its first call on the
  map to its last without another thread's commands between them.
\<close>

section \<open>State\<close>

definition MAX_NAME :: nat where "MAX_NAME = 24"
definition REDIS_VERSION :: string where "REDIS_VERSION = ''7.4.0''"
definition CARGO_PKG_VERSION :: string where "CARGO_PKG_VERSION = ''0.1.0''"

datatype Reply = MoreToCome | Last
datatype Outcome = Replied Reply | Exited

record Host =
  host_target :: target
  host_platform :: Platform
  host_grants :: "nat \<Rightarrow> bool"
  host_caps :: "nat \<Rightarrow> nat \<Rightarrow> Capacities"
  host_os :: string
  host_pid :: u32
  host_uptime :: u64
  host_unicode :: Unicode

record DispatchEnv =
  de_host :: Host
  de_thread :: nat
  de_config :: Config

record Server =
  sv_map :: Map
  sv_stats :: Stats
  sv_calls :: nat
  sv_reply :: Encoder

definition host_env :: "Host \<Rightarrow> nat \<Rightarrow> Env" where
  "host_env H n = \<lparr> env_target = host_target H, env_platform = host_platform H, env_grants = host_grants H n, env_caps = host_caps H n \<rparr>"

text \<open>A call on the map, a step of the thread's counters, and writing to the reply.\<close>

definition on_map :: "DispatchEnv \<Rightarrow> (Env \<Rightarrow> Map \<Rightarrow> ('r \<times> Map) option) \<Rightarrow> Server \<Rightarrow> ('r \<times> Server) option" where
  "on_map v f s = do {
     (r, Mp) \<leftarrow> f (host_env (de_host v) (sv_calls s)) (sv_map s);
     Some (r, s\<lparr> sv_map := Mp, sv_calls := sv_calls s + 1 \<rparr>) }"

definition counters :: "DispatchEnv \<Rightarrow> (Counters \<Rightarrow> Counters) \<Rightarrow> Server \<Rightarrow> Server option" where
  "counters v f s = do {
     st \<leftarrow> thread_counters (sv_stats s) (de_thread v) f;
     Some (s\<lparr> sv_stats := st \<rparr>) }"

definition say :: "(Encoder \<Rightarrow> Encoder) \<Rightarrow> Server \<Rightarrow> Server" where
  "say f s = s\<lparr> sv_reply := f (sv_reply s) \<rparr>"

definition tell :: "(Encoder \<Rightarrow> Encoder option) \<Rightarrow> Server \<Rightarrow> Server option" where
  "tell f s = do { e \<leftarrow> f (sv_reply s); Some (s\<lparr> sv_reply := e \<rparr>) }"

section \<open>Arguments and refusals\<close>

definition dispatch_arg :: "Command \<Rightarrow> bytes \<Rightarrow> nat \<Rightarrow> bytes" where
  "dispatch_arg cmd buf n = (case arg cmd n buf of Some a \<Rightarrow> a | None \<Rightarrow> [])"

definition quoted :: "string \<Rightarrow> string" where
  "quoted name = [CHR 0x27] @ name @ [CHR 0x27]"

definition arity :: "Command \<Rightarrow> nat \<Rightarrow> string \<Rightarrow> Server \<Rightarrow> bool \<times> Server" where
  "arity cmd want name s =
     (if command_len cmd = want then (True, s)
      else (False, say (put_error (ascii (''ERR wrong number of arguments for '' @ quoted name @ '' command''))) s))"

definition integer_of :: "bytes \<Rightarrow> int option" where
  "integer_of txt = do { s \<leftarrow> from_utf8 txt; parse_i64 s }"

definition dispatch_integer :: "bytes \<Rightarrow> Server \<Rightarrow> int option \<times> Server" where
  "dispatch_integer txt s =
     (let v = integer_of txt
      in (v, if v = None then say (put_error (ascii ''ERR value is not an integer or out of range'')) s else s))"

definition oom :: "Server \<Rightarrow> Server" where
  "oom s = say (put_error (ascii (''OOM command not allowed when used memory > '' @ quoted ''maxmemory''))) s"

definition unknown :: "DispatchEnv \<Rightarrow> bytes \<Rightarrow> Server \<Rightarrow> Server" where
  "unknown v name s = say (put_error (ascii ''ERR unknown command '' @ [0x27] @
     as_bytes (escape_debug (host_unicode (de_host v)) (from_utf8_lossy name)) @ [0x27])) s"

definition i64_saturate :: "nat \<Rightarrow> int" where
  "i64_saturate n = (if int n \<le> i64_MAX then int n else i64_MAX)"

section \<open>Moments\<close>

definition unit_of :: "bytes \<Rightarrow> (int \<times> bool) option" where
  "unit_of opt =
     (if eq_ignore_ascii_case opt (ascii ''EX'') then Some (1, False)
      else if eq_ignore_ascii_case opt (ascii ''PX'') then Some (1000, False)
      else if eq_ignore_ascii_case opt (ascii ''EXAT'') then Some (1, True)
      else if eq_ignore_ascii_case opt (ascii ''PXAT'') then Some (1000, True)
      else None)"

text \<open>The sum of a relative moment is a plain \<^verbatim>\<open>i64\<close> addition, which wraps in the release build.\<close>

definition i64_wrap :: "int \<Rightarrow> int" where
  "i64_wrap v = (v + 2 ^ 63) mod 2 ^ 64 - 2 ^ 63"

definition moment :: "u32 \<Rightarrow> int \<Rightarrow> int \<Rightarrow> bool \<Rightarrow> int" where
  "moment now val scale absolute =
     (let secs = i64_wrap (val div scale + (if val mod scale \<noteq> 0 then 1 else 0))
      in if absolute then secs else i64_wrap (int (unat now) + secs))"

definition stamp :: "int \<Rightarrow> u32" where
  "stamp at = (if max at 0 < 2 ^ 32 then of_int (max at 0) else - 1)"

definition server_now :: "Server \<Rightarrow> u32" where
  "server_now s = clock_now (mp_clock (sv_map s))"

section \<open>Values\<close>

definition put_value :: "DispatchEnv \<Rightarrow> bytes \<Rightarrow> Server \<Rightarrow> Server option" where
  "put_value v key s = do {
     (r, s) \<leftarrow> on_map v (\<lambda>ev Mp. map_get ev Mp key) s;
     (case r of
        None \<Rightarrow> do {
          s \<leftarrow> counters v miss s;
          Some (say put_null s) }
      | Some val \<Rightarrow> do {
          s \<leftarrow> tell (put_bulk val) s;
          counters v hit s }) }"

fun mget_loop :: "DispatchEnv \<Rightarrow> Command \<Rightarrow> bytes \<Rightarrow> nat list \<Rightarrow> Server \<Rightarrow> Server option" where
  "mget_loop v cmd buf [] s = Some s"
| "mget_loop v cmd buf (n # ns) s = do {
     s \<leftarrow> put_value v (dispatch_arg cmd buf n) s;
     mget_loop v cmd buf ns s }"

fun mset_loop :: "DispatchEnv \<Rightarrow> Command \<Rightarrow> bytes \<Rightarrow> nat list \<Rightarrow> Server \<Rightarrow> Server option" where
  "mset_loop v cmd buf [] s = Some (say (put_simple (ascii ''OK'')) s)"
| "mset_loop v cmd buf (pair # pairs) s = do {
     (r, s) \<leftarrow> on_map v (\<lambda>ev Mp. map_set ev Mp (dispatch_arg cmd buf pair) (dispatch_arg cmd buf (pair + 1)) None None) s;
     (case r of
        Inl _ \<Rightarrow> Some (oom s)
      | Inr _ \<Rightarrow> mset_loop v cmd buf pairs s) }"

definition count_by :: "DispatchEnv \<Rightarrow> bytes \<Rightarrow> int \<Rightarrow> Server \<Rightarrow> Server option" where
  "count_by v key delta s = do {
     (r, s) \<leftarrow> on_map v (\<lambda>ev Mp. map_increment ev Mp key delta) s;
     (case r of
        Inr val \<Rightarrow> tell (put_integer val) s
      | Inl NotANumber \<Rightarrow> Some (say (put_error (ascii ''ERR value is not an integer or out of range'')) s)
      | Inl OutOfRange \<Rightarrow> Some (say (put_error (ascii ''ERR increment or decrement would overflow'')) s)
      | Inl UncountedFull \<Rightarrow> Some (oom s)) }"

text \<open>The options of \<^verbatim>\<open>SET\<close>: a condition and an expiry, or the reply that refuses them.\<close>

function set_options :: "u32 \<Rightarrow> Command \<Rightarrow> bytes \<Rightarrow> nat \<Rightarrow> When \<Rightarrow> Expiry \<Rightarrow> string + When \<times> Expiry" where
  "set_options now cmd buf n when expiry =
     (if n < command_len cmd then
        (let opt = dispatch_arg cmd buf n
         in if eq_ignore_ascii_case opt (ascii ''NX'') then set_options now cmd buf (n + 1) Absent expiry
            else if eq_ignore_ascii_case opt (ascii ''XX'') then set_options now cmd buf (n + 1) Present expiry
            else if eq_ignore_ascii_case opt (ascii ''KEEPTTL'') then set_options now cmd buf (n + 1) when Keep
            else case unit_of opt of
              Some (scale, absolute) \<Rightarrow>
                (case Option.bind (arg cmd (n + 1) buf) integer_of of
                   Some val \<Rightarrow>
                     if absolute \<or> 0 < val
                     then set_options now cmd buf (n + 2) when (At (stamp (moment now val scale absolute)))
                     else Inl (''ERR invalid expire time in '' @ quoted ''set'' @ '' command'')
                 | None \<Rightarrow> Inl ''ERR syntax error'')
            | None \<Rightarrow> Inl ''ERR syntax error'')
      else Inr (when, expiry))"
  by pat_completeness auto
termination by (relation "measure (\<lambda>(now, cmd, buf, n, when, expiry). command_len cmd - n)") auto

declare set_options.simps [simp del]

definition set_cmd :: "DispatchEnv \<Rightarrow> Command \<Rightarrow> bytes \<Rightarrow> Server \<Rightarrow> Server option" where
  "set_cmd v cmd buf s =
     (if command_len cmd < 3 then Some (snd (arity cmd 3 ''set'' s))
      else let key = dispatch_arg cmd buf 1; val = dispatch_arg cmd buf 2
      in if command_len cmd = 3 then do {
           (r, s) \<leftarrow> on_map v (\<lambda>ev Mp. map_set ev Mp key val None None) s;
           (case r of
              Inr _ \<Rightarrow> Some (say (put_simple (ascii ''OK'')) s)
            | Inl _ \<Rightarrow> Some (oom s)) }
         else (case set_options (server_now s) cmd buf 3 Always Never of
            Inl refusal \<Rightarrow> Some (say (put_error (ascii refusal)) s)
          | Inr (when, expiry) \<Rightarrow> do {
              (r, s) \<leftarrow> on_map v (\<lambda>ev Mp. map_set_when ev Mp key val when expiry None) s;
              (case r of
                 Inr None \<Rightarrow> Some (say put_null s)
               | Inr (Some _) \<Rightarrow> Some (say (put_simple (ascii ''OK'')) s)
               | Inl _ \<Rightarrow> Some (oom s)) }))"

definition timed_set :: "DispatchEnv \<Rightarrow> bool \<Rightarrow> Command \<Rightarrow> bytes \<Rightarrow> Server \<Rightarrow> Server option" where
  "timed_set v millis cmd buf s =
     (let wd = (if millis then ''psetex'' else ''setex'')
      in case arity cmd 4 wd s of
           (False, s) \<Rightarrow> Some s
         | (True, s) \<Rightarrow>
             (case dispatch_integer (dispatch_arg cmd buf 2) s of
                (None, s) \<Rightarrow> Some s
              | (Some val, s) \<Rightarrow>
                  if val \<le> 0 then Some (say (put_error (ascii (''ERR invalid expire time in '' @ quoted wd @ '' command''))) s)
                  else do {
                    let scale = (if millis then 1000 else 1);
                    let expiry = At (stamp (moment (server_now s) val scale False));
                    (r, s) \<leftarrow> on_map v (\<lambda>ev Mp. map_set_when ev Mp (dispatch_arg cmd buf 1) (dispatch_arg cmd buf 3) Always expiry None) s;
                    (case r of
                       Inr _ \<Rightarrow> Some (say (put_simple (ascii ''OK'')) s)
                     | Inl _ \<Rightarrow> Some (oom s)) }))"

definition strings :: "DispatchEnv \<Rightarrow> bytes \<Rightarrow> Command \<Rightarrow> bytes \<Rightarrow> Server \<Rightarrow> (bool \<times> Server) option" where
  "strings v name cmd buf s =
     (if name = ascii ''GET'' then
        (case arity cmd 2 ''get'' s of
           (False, s) \<Rightarrow> Some (True, s)
         | (True, s) \<Rightarrow> do { s \<leftarrow> put_value v (dispatch_arg cmd buf 1) s; Some (True, s) })
      else if name = ascii ''SET'' then do { s \<leftarrow> set_cmd v cmd buf s; Some (True, s) }
      else if name = ascii ''SETEX'' \<or> name = ascii ''PSETEX'' then do {
        s \<leftarrow> timed_set v (name = ascii ''PSETEX'') cmd buf s;
        Some (True, s) }
      else if name = ascii ''MGET'' then
        (if command_len cmd < 2 then Some (True, snd (arity cmd 2 ''mget'' s))
         else do {
           s \<leftarrow> tell (put_array (command_len cmd - 1)) s;
           s \<leftarrow> mget_loop v cmd buf [1..<command_len cmd] s;
           Some (True, s) })
      else if name = ascii ''MSET'' then
        (if command_len cmd < 3 \<or> even (command_len cmd) then Some (True, snd (arity cmd 3 ''mset'' s))
         else do {
           s \<leftarrow> mset_loop v cmd buf (filter odd [1..<command_len cmd]) s;
           Some (True, s) })
      else if name = ascii ''INCR'' \<or> name = ascii ''DECR'' then
        (case arity cmd 2 (if name = ascii ''INCR'' then ''incr'' else ''decr'') s of
           (False, s) \<Rightarrow> Some (True, s)
         | (True, s) \<Rightarrow> do {
             let delta = (if name = ascii ''INCR'' then 1 else - 1);
             s \<leftarrow> count_by v (dispatch_arg cmd buf 1) delta s;
             Some (True, s) })
      else if name = ascii ''INCRBY'' \<or> name = ascii ''DECRBY'' then
        (case arity cmd 3 (if name = ascii ''INCRBY'' then ''incrby'' else ''decrby'') s of
           (False, s) \<Rightarrow> Some (True, s)
         | (True, s) \<Rightarrow>
             (case dispatch_integer (dispatch_arg cmd buf 2) s of
                (None, s) \<Rightarrow> Some (True, s)
              | (Some given, s) \<Rightarrow>
                  (case (if name = ascii ''INCRBY'' then Some given else i64_checked (- given)) of
                     None \<Rightarrow> Some (True, say (put_error (ascii ''ERR decrement would overflow'')) s)
                   | Some delta \<Rightarrow> do {
                       s \<leftarrow> count_by v (dispatch_arg cmd buf 1) delta s;
                       Some (True, s) })))
      else if name = ascii ''STRLEN'' then
        (case arity cmd 2 ''strlen'' s of
           (False, s) \<Rightarrow> Some (True, s)
         | (True, s) \<Rightarrow> do {
             (r, s) \<leftarrow> on_map v (\<lambda>ev Mp. map_get ev Mp (dispatch_arg cmd buf 1)) s;
             let len = (case r of Some val \<Rightarrow> length val | None \<Rightarrow> 0);
             s \<leftarrow> tell (put_integer (i64_saturate len)) s;
             Some (True, s) })
      else Some (False, s))"

section \<open>Keys\<close>

fun remove_loop :: "DispatchEnv \<Rightarrow> Command \<Rightarrow> bytes \<Rightarrow> nat list \<Rightarrow> nat \<Rightarrow> Server \<Rightarrow> (nat \<times> Server) option" where
  "remove_loop v cmd buf [] went s = Some (went, s)"
| "remove_loop v cmd buf (n # ns) went s = do {
     (gone, s) \<leftarrow> on_map v (\<lambda>ev Mp. map_remove ev Mp (dispatch_arg cmd buf n)) s;
     remove_loop v cmd buf ns (if gone then went + 1 else went) s }"

fun exists_loop :: "DispatchEnv \<Rightarrow> Command \<Rightarrow> bytes \<Rightarrow> nat list \<Rightarrow> nat \<Rightarrow> Server \<Rightarrow> (nat \<times> Server) option" where
  "exists_loop v cmd buf [] there s = Some (there, s)"
| "exists_loop v cmd buf (n # ns) there s = do {
     (found, s) \<leftarrow> on_map v (\<lambda>ev Mp. map_contains ev Mp (dispatch_arg cmd buf n)) s;
     exists_loop v cmd buf ns (if found then there + 1 else there) s }"

definition expire_cmd :: "DispatchEnv \<Rightarrow> bytes \<Rightarrow> int \<Rightarrow> bool \<Rightarrow> bool \<Rightarrow> Server \<Rightarrow> Server option" where
  "expire_cmd v key val millis absolute s =
     (let now = server_now s;
          at = moment now val (if millis then 1000 else 1) absolute
      in if at \<le> int (unat now) then do {
           (gone, s) \<leftarrow> on_map v (\<lambda>ev Mp. map_remove ev Mp key) s;
           tell (put_integer (if gone then 1 else 0)) s }
         else do {
           (r, s) \<leftarrow> on_map v (\<lambda>ev Mp. map_expire ev Mp key (Some (stamp at))) s;
           (case r of
              Inr changed \<Rightarrow> tell (put_integer (if changed then 1 else 0)) s
            | Inl _ \<Rightarrow> Some (oom s)) })"

definition saturating_sub :: "u32 \<Rightarrow> u32 \<Rightarrow> u32" where
  "saturating_sub a b = (if b \<le> a then a - b else 0)"

definition keyspace :: "DispatchEnv \<Rightarrow> bytes \<Rightarrow> Command \<Rightarrow> bytes \<Rightarrow> Server \<Rightarrow> (bool \<times> Server) option" where
  "keyspace v name cmd buf s =
     (if name = ascii ''DEL'' \<or> name = ascii ''UNLINK'' then
        (if command_len cmd < 2 then Some (True, snd (arity cmd 2 ''del'' s))
         else do {
           (went, s) \<leftarrow> remove_loop v cmd buf [1..<command_len cmd] 0 s;
           s \<leftarrow> tell (put_integer (i64_saturate went)) s;
           Some (True, s) })
      else if name = ascii ''EXISTS'' then
        (if command_len cmd < 2 then Some (True, snd (arity cmd 2 ''exists'' s))
         else do {
           (there, s) \<leftarrow> exists_loop v cmd buf [1..<command_len cmd] 0 s;
           s \<leftarrow> tell (put_integer (i64_saturate there)) s;
           Some (True, s) })
      else if name = ascii ''EXPIRE'' \<or> name = ascii ''PEXPIRE'' \<or> name = ascii ''EXPIREAT'' \<or> name = ascii ''PEXPIREAT'' then
        (case arity cmd 3 (if name = ascii ''EXPIRE'' then ''expire'' else if name = ascii ''PEXPIRE'' then ''pexpire''
             else if name = ascii ''EXPIREAT'' then ''expireat'' else ''pexpireat'') s of
           (False, s) \<Rightarrow> Some (True, s)
         | (True, s) \<Rightarrow>
             (case dispatch_integer (dispatch_arg cmd buf 2) s of
                (None, s) \<Rightarrow> Some (True, s)
              | (Some val, s) \<Rightarrow> do {
                  let millis = (take 1 name = ascii ''P'');
                  let absolute = (drop (length name - 2) name = ascii ''AT'');
                  s \<leftarrow> expire_cmd v (dispatch_arg cmd buf 1) val millis absolute s;
                  Some (True, s) }))
      else if name = ascii ''TTL'' \<or> name = ascii ''PTTL'' then
        (case arity cmd 2 (if name = ascii ''TTL'' then ''ttl'' else ''pttl'') s of
           (False, s) \<Rightarrow> Some (True, s)
         | (True, s) \<Rightarrow> do {
             let now = server_now s;
             (r, s) \<leftarrow> on_map v (\<lambda>ev Mp. map_deadline ev Mp (dispatch_arg cmd buf 1)) s;
             s \<leftarrow> tell (put_integer (case r of
                None \<Rightarrow> - 2
              | Some None \<Rightarrow> - 1
              | Some (Some due_at) \<Rightarrow>
                  (let left = int (unat (saturating_sub due_at now)) in if name = ascii ''TTL'' then left else left * 1000))) s;
             Some (True, s) })
      else if name = ascii ''PERSIST'' then
        (case arity cmd 2 ''persist'' s of
           (False, s) \<Rightarrow> Some (True, s)
         | (True, s) \<Rightarrow> do {
             (r, s) \<leftarrow> on_map v (\<lambda>ev Mp. map_deadline ev Mp (dispatch_arg cmd buf 1)) s;
             let had = (case r of Some (Some _) \<Rightarrow> True | _ \<Rightarrow> False);
             (r, s) \<leftarrow> on_map v (\<lambda>ev Mp. map_expire ev Mp (dispatch_arg cmd buf 1) None) s;
             (case r of
                Inr _ \<Rightarrow> do { s \<leftarrow> tell (put_integer (if had then 1 else 0)) s; Some (True, s) }
              | Inl _ \<Rightarrow> Some (True, oom s)) })
      else if name = ascii ''DBSIZE'' then do {
        s \<leftarrow> tell (put_integer (i64_saturate (map_len (sv_map s)))) s;
        Some (True, s) }
      else if name = ascii ''FLUSHALL'' \<or> name = ascii ''FLUSHDB'' then do {
        (_, s) \<leftarrow> on_map v (\<lambda>ev Mp. map_option (\<lambda>Mp. ((), Mp)) (map_clear ev Mp)) s;
        Some (True, say (put_simple (ascii ''OK'')) s) }
      else Some (False, s))"

section \<open>Connections\<close>

definition hello :: "Dialect \<Rightarrow> Encoder \<Rightarrow> Encoder option" where
  "hello d reply = do {
     e \<leftarrow> put_map 7 (encoder_new [] d);
     e \<leftarrow> put_bulk (ascii ''server'') e;
     e \<leftarrow> put_bulk (ascii ''rugo'') e;
     e \<leftarrow> put_bulk (ascii ''version'') e;
     e \<leftarrow> put_bulk (ascii CARGO_PKG_VERSION) e;
     e \<leftarrow> put_bulk (ascii ''proto'') e;
     e \<leftarrow> put_integer (if d = Resp3 then 3 else 2) e;
     e \<leftarrow> put_bulk (ascii ''id'') e;
     e \<leftarrow> put_integer 0 e;
     e \<leftarrow> put_bulk (ascii ''mode'') e;
     e \<leftarrow> put_bulk (ascii ''standalone'') e;
     e \<leftarrow> put_bulk (ascii ''role'') e;
     e \<leftarrow> put_bulk (ascii ''master'') e;
     e \<leftarrow> put_bulk (ascii ''modules'') e;
     e \<leftarrow> put_array 0 e;
     Some (put_raw (buffer e) reply) }"

definition connection :: "bytes \<Rightarrow> Command \<Rightarrow> bytes \<Rightarrow> Server \<Rightarrow> Dialect \<Rightarrow> Reply \<Rightarrow> (bool \<times> Server \<times> Dialect \<times> Reply) option" where
  "connection name cmd buf s d final =
     (if name = ascii ''PING'' then
        (if command_len cmd = 1 then Some (True, say (put_simple (ascii ''PONG'')) s, d, final)
         else if command_len cmd = 2 then do {
           s \<leftarrow> tell (put_bulk (dispatch_arg cmd buf 1)) s;
           Some (True, s, d, final) }
         else Some (True, snd (arity cmd 2 ''ping'' s), d, final))
      else if name = ascii ''ECHO'' then
        (case arity cmd 2 ''echo'' s of
           (True, s) \<Rightarrow> do { s \<leftarrow> tell (put_bulk (dispatch_arg cmd buf 1)) s; Some (True, s, d, final) }
         | (False, s) \<Rightarrow> Some (True, s, d, final))
      else if name = ascii ''HELLO'' then
        (case (if 1 < command_len cmd then
                 (case integer_of (dispatch_arg cmd buf 1) of
                    Some n \<Rightarrow> if n = 2 then Some Resp2 else if n = 3 then Some Resp3 else None
                  | None \<Rightarrow> None)
               else Some d) of
           None \<Rightarrow> Some (True, say (put_error (ascii ''NOPROTO unsupported protocol version, this server supports 2 and 3'')) s, d, final)
         | Some d \<Rightarrow> do { s \<leftarrow> tell (hello d) s; Some (True, s, d, final) })
      else if name = ascii ''SELECT'' then
        (case arity cmd 2 ''select'' s of
           (False, s) \<Rightarrow> Some (True, s, d, final)
         | (True, s) \<Rightarrow>
             Some (True, (if integer_of (dispatch_arg cmd buf 1) = Some 0 then say (put_simple (ascii ''OK'')) s
                else say (put_error (ascii ''ERR DB index is out of range'')) s), d, final))
      else if name = ascii ''RESET'' then Some (True, say (put_simple (ascii ''RESET'')) s, Resp2, final)
      else if name = ascii ''QUIT'' then Some (True, say (put_simple (ascii ''OK'')) s, d, Last)
      else Some (False, s, d, final))"


section \<open>The server itself\<close>

definition config_known :: "Map \<Rightarrow> (string \<times> bytes) list" where
  "config_known Mp = [(''maxmemory'', dec (mp_maxmemory Mp)), (''maxmemory-policy'', ascii ''allkeys-random''),
     (''save'', []), (''appendonly'', ascii ''no'')]"

definition config_found :: "Map \<Rightarrow> Command \<Rightarrow> bytes \<Rightarrow> (string \<times> bytes) list" where
  "config_found Mp cmd buf = concat (map (\<lambda>n.
     (let wanted = dispatch_arg cmd buf n
      in filter (\<lambda>pair. wanted = ascii ''*'' \<or> eq_ignore_ascii_case wanted (ascii (fst pair))) (config_known Mp)))
     [2..<command_len cmd])"

fun put_pairs :: "(string \<times> bytes) list \<Rightarrow> Encoder \<Rightarrow> Encoder option" where
  "put_pairs [] e = Some e"
| "put_pairs ((name, val) # pairs) e = do {
     e \<leftarrow> put_bulk (ascii name) e;
     e \<leftarrow> put_bulk val e;
     put_pairs pairs e }"

definition config_get :: "Command \<Rightarrow> bytes \<Rightarrow> Server \<Rightarrow> Server option" where
  "config_get cmd buf s = do {
     let found = config_found (sv_map s) cmd buf;
     s \<leftarrow> tell (put_map (length found)) s;
     tell (put_pairs found) s }"

definition info_line :: "string \<Rightarrow> bytes \<Rightarrow> bytes" where
  "info_line name val = ascii name @ ascii '':'' @ val @ [CR, NL]"

definition heading :: "string \<Rightarrow> bytes" where
  "heading title = ascii title @ [CR, NL]"

definition info :: "DispatchEnv \<Rightarrow> Server \<Rightarrow> nat list \<Rightarrow> bytes" where
  "info v s sec =
     (let all = (sec = chars ''all'' \<or> sec = chars ''default'' \<or> sec = chars ''everything'');
          want = (\<lambda>name. all \<or> sec = chars name);
          sum = stats_total (sv_stats s);
          Mp = sv_map s
      in (if want ''server'' then
            heading ''# Server'' @
            info_line ''redis_version'' (ascii REDIS_VERSION) @
            info_line ''rugo_version'' (ascii CARGO_PKG_VERSION) @
            info_line ''redis_mode'' (ascii ''standalone'') @
            info_line ''os'' (ascii (host_os (de_host v))) @
            info_line ''arch_bits'' (dec 64) @
            info_line ''process_id'' (dec (unat (host_pid (de_host v)))) @
            info_line ''tcp_port'' (dec (case cf_port (de_config v) of Some n \<Rightarrow> n | None \<Rightarrow> 0)) @
            info_line ''uptime_in_seconds'' (dec (unat (host_uptime (de_host v)))) @
            info_line ''io_threads_active'' (dec (cf_threads (de_config v)))
          else []) @
         (if want ''clients'' then
            [CR, NL] @ heading ''# Clients'' @
            info_line ''total_connections_received'' (dec (unat (total_connections sum)))
          else []) @
         (if want ''memory'' then
            [CR, NL] @ heading ''# Memory'' @
            info_line ''used_memory'' (dec (map_charged_bytes Mp)) @
            info_line ''used_memory_slab'' (dec (map_resident_bytes Mp)) @
            info_line ''used_memory_dataset'' (dec (map_live_bytes Mp)) @
            info_line ''used_memory_index'' (dec (map_index_bytes Mp)) @
            info_line ''maxmemory'' (dec (mp_maxmemory Mp)) @
            info_line ''maxmemory_policy'' (ascii ''allkeys-random'')
          else []) @
         (if want ''stats'' then
            [CR, NL] @ heading ''# Stats'' @
            info_line ''total_commands_processed'' (dec (unat (total_commands sum))) @
            info_line ''keyspace_hits'' (dec (unat (total_hits sum))) @
            info_line ''keyspace_misses'' (dec (unat (total_misses sum)))
          else []) @
         (if want ''keyspace'' then
            [CR, NL] @ heading ''# Keyspace'' @
            (if 0 < map_len Mp
             then info_line ''db0'' (ascii ''keys='' @ dec (map_len Mp) @ ascii '',expires=0,avg_ttl=0'')
             else [])
          else []))"

text \<open>What became of a command in the last family: its own, not its own, or the end of the process.\<close>

datatype Handled = Known | NotKnown | Exits

definition admin :: "DispatchEnv \<Rightarrow> bytes \<Rightarrow> Command \<Rightarrow> bytes \<Rightarrow> Server \<Rightarrow> (Handled \<times> Server) option" where
  "admin v name cmd buf s =
     (if name = ascii ''INFO'' then do {
        let sec = (if 1 < command_len cmd
                   then to_lowercase (host_unicode (de_host v)) (from_utf8_lossy (dispatch_arg cmd buf 1))
                   else chars ''all'');
        s \<leftarrow> tell (put_bulk (info v s sec)) s;
        Some (Known, s) }
      else if name = ascii ''COMMAND'' then do {
        s \<leftarrow> (if command_len cmd = 1 then tell (put_array 0) s
              else if eq_ignore_ascii_case (dispatch_arg cmd buf 1) (ascii ''COUNT'') then tell (put_integer 0) s
              else if eq_ignore_ascii_case (dispatch_arg cmd buf 1) (ascii ''DOCS'') then tell (put_map 0) s
              else tell (put_array 0) s);
        Some (Known, s) }
      else if name = ascii ''CONFIG'' then
        (if 1 < command_len cmd \<and> eq_ignore_ascii_case (dispatch_arg cmd buf 1) (ascii ''GET'') then do {
           s \<leftarrow> config_get cmd buf s;
           Some (Known, s) }
         else Some (Known, say (put_simple (ascii ''OK'')) s))
      else if name = ascii ''CLIENT'' then
        (if 1 < command_len cmd \<and> eq_ignore_ascii_case (dispatch_arg cmd buf 1) (ascii ''GETNAME'') then Some (Known, say put_null s)
         else if 1 < command_len cmd \<and> eq_ignore_ascii_case (dispatch_arg cmd buf 1) (ascii ''ID'') then do {
           s \<leftarrow> tell (put_integer 0) s;
           Some (Known, s) }
         else Some (Known, say (put_simple (ascii ''OK'')) s))
      else if name = ascii ''SHUTDOWN'' then Some (Exits, s)
      else Some (NotKnown, s))"

section \<open>Running one command\<close>

definition upper_name :: "bytes \<Rightarrow> bytes option" where
  "upper_name raw = (let upper = map to_ascii_uppercase raw @ replicate (MAX_NAME - length raw) 0 in slice upper 0 (length raw))"

text \<open>
  The families in turn, each tried only when the one before said the name was not its own.
\<close>

definition dispatch_name :: "DispatchEnv \<Rightarrow> bytes \<Rightarrow> Command \<Rightarrow> bytes \<Rightarrow> Server \<Rightarrow> Dialect \<Rightarrow>
    (Handled \<times> Server \<times> Dialect \<times> Reply) option" where
  "dispatch_name v name cmd buf s d = do {
     (known, s) \<leftarrow> strings v name cmd buf s;
     if known then Some (Known, s, d, MoreToCome)
     else do {
       (known, s) \<leftarrow> keyspace v name cmd buf s;
       if known then Some (Known, s, d, MoreToCome)
       else do {
         (known, s, d, final) \<leftarrow> connection name cmd buf s d MoreToCome;
         if known then Some (Known, s, d, final)
         else do {
           (handled, s) \<leftarrow> admin v name cmd buf s;
           Some (handled, s, d, final) } } } }"

definition run :: "DispatchEnv \<Rightarrow> Command \<Rightarrow> bytes \<Rightarrow> Dialect \<Rightarrow> Server \<Rightarrow> (Outcome \<times> Dialect \<times> Server) option" where
  "run v cmd buf d s = do {
     s \<leftarrow> counters v command s;
     let s = s\<lparr> sv_reply := encoder_new (buffer (sv_reply s)) d \<rparr>;
     (case arg cmd 0 buf of
        None \<Rightarrow> Some (Replied MoreToCome, d, s)
      | Some raw \<Rightarrow>
          if MAX_NAME < length raw then Some (Replied MoreToCome, d, unknown v raw s)
          else do {
            name \<leftarrow> upper_name raw;
            (handled, s, d, final) \<leftarrow> dispatch_name v name cmd buf s d;
            (case handled of
               Exits \<Rightarrow> Some (Exited, d, s)
             | Known \<Rightarrow> Some (Replied final, d, s)
             | NotKnown \<Rightarrow> Some (Replied final, d, unknown v raw s)) }) }"

end
