(* ===== verification/Rugo_Serving.thy ===== *)
theory Rugo_Serving
  imports Rugo_Dispatch Rugo_Sharded
begin

text \<open>
  What the commands promise. \<open>Value\<close> is the reply a client reads and \<open>encode\<close> its bytes; \<open>serving\<close> is
  the invariant of the server with the cache it holds. Every handler is shown to append exactly one
  value to the reply and to do on the cache what it announces; a command the system refused memory
  for answers with the one reply that says so and leaves every entry readable.
\<close>

section \<open>Replies\<close>

datatype Value = VSimple bytes | VError bytes | VInteger int | VBulk bytes | VNull | VArray "Value list" | VMap "(Value \<times> Value) list"

definition count_bytes :: "nat \<Rightarrow> bytes" where
  "count_bytes n = dec (nat (i64_saturate n)) @ [CR, NL]"

fun encode :: "Dialect \<Rightarrow> Value \<Rightarrow> bytes" where
  "encode d (VSimple t) = 43 # t @ [CR, NL]"
| "encode d (VError t) = 45 # t @ [CR, NL]"
| "encode d (VInteger i) = 58 # dec_int i @ [CR, NL]"
| "encode d (VBulk b) = 36 # count_bytes (length b) @ b @ [CR, NL]"
| "encode d VNull = (case d of Resp2 \<Rightarrow> [36, 45, 49, CR, NL] | Resp3 \<Rightarrow> [95, CR, NL])"
| "encode d (VArray vs) = 42 # count_bytes (length vs) @ concat (map (encode d) vs)"
| "encode d (VMap vs) = (case d of Resp2 \<Rightarrow> 42 # count_bytes (length vs * 2) | Resp3 \<Rightarrow> 37 # count_bytes (length vs)) @
     concat (map (\<lambda>(k, v). encode d k @ encode d v) vs)"

text \<open>A line reply is one line, and an integer is one a 64-bit reader can hold.\<close>

definition one_line :: "bytes \<Rightarrow> bool" where
  "one_line t \<longleftrightarrow> CR \<notin> set t \<and> NL \<notin> set t"

fun well_formed :: "Value \<Rightarrow> bool" where
  "well_formed (VSimple t) = one_line t"
| "well_formed (VError t) = one_line t"
| "well_formed (VInteger i) = (i64_MIN \<le> i \<and> i \<le> i64_MAX)"
| "well_formed (VBulk b) = True"
| "well_formed VNull = True"
| "well_formed (VArray vs) = list_all well_formed vs"
| "well_formed (VMap vs) = list_all (\<lambda>(k, v). well_formed k \<and> well_formed v) vs"

definition put_reply :: "Value \<Rightarrow> Server \<Rightarrow> Server" where
  "put_reply r s = s\<lparr> sv_reply := out_extend (encode (dialect (sv_reply s)) r) (sv_reply s) \<rparr>"

named_theorems replying \<open>what the code writes, as the value it is\<close>

lemma put_count_bytes: "put_count n e = Some (out_extend (dec (nat (i64_saturate n))) e)"
proof -
  have "put_number (i64_saturate n) e = Some (out_extend (dec_int (i64_saturate n)) e)"
    by (rule put_number_eq) (auto simp: i64_saturate_def i64_MIN_def i64_MAX_def)
  moreover have "0 \<le> i64_saturate n" by (simp add: i64_saturate_def i64_MAX_def)
  ultimately show ?thesis by (simp add: put_count_def i64_saturate_def dec_int_def)
qed

lemma put_bulk_value: "put_bulk b e = Some (out_extend (encode d (VBulk b)) e)"
  by (simp add: put_bulk_def put_count_bytes crlf_def out_extend_def count_bytes_def)

lemma put_array_header: "put_array n e = Some (out_extend (42 # count_bytes n) e)"
  by (simp add: put_array_def put_count_bytes crlf_def out_extend_def count_bytes_def)

lemma put_map_header:
  "put_map n e = Some (out_extend (case dialect e of Resp2 \<Rightarrow> 42 # count_bytes (n * 2) | Resp3 \<Rightarrow> 37 # count_bytes n) e)"
  by (simp add: put_map_def put_array_header put_count_bytes crlf_def out_extend_def count_bytes_def split: Dialect.split)

lemma put_integer_value: "i64_MIN \<le> i \<Longrightarrow> i \<le> i64_MAX \<Longrightarrow> put_integer i e = Some (out_extend (encode d (VInteger i)) e)"
  by (simp add: put_integer_def put_number_eq crlf_def out_extend_def)

lemma say_simple [replying]: "say (put_simple t) s = put_reply (VSimple t) s"
  by (simp add: say_def put_reply_def put_simple_def crlf_def out_extend_def)

lemma say_error [replying]: "say (put_error t) s = put_reply (VError t) s"
  by (simp add: say_def put_reply_def put_error_def crlf_def out_extend_def)

lemma say_null [replying]: "say put_null s = put_reply VNull s"
  by (simp add: say_def put_reply_def put_null_def split: Dialect.split)

lemma tell_bulk [replying]: "tell (put_bulk b) s = Some (put_reply (VBulk b) s)"
  by (simp add: tell_def put_reply_def put_bulk_value [of _ _ "dialect (sv_reply s)"])

lemma tell_integer [replying]: "i64_MIN \<le> i \<Longrightarrow> i \<le> i64_MAX \<Longrightarrow> tell (put_integer i) s = Some (put_reply (VInteger i) s)"
  by (simp add: tell_def put_reply_def put_integer_value [of _ _ "dialect (sv_reply s)"])

lemma tell_small [replying]: "tell (put_integer 0) s = Some (put_reply (VInteger 0) s)"
    "tell (put_integer (if b then 1 else 0)) s = Some (put_reply (VInteger (if b then 1 else 0)) s)"
    "tell (put_integer (i64_saturate n)) s = Some (put_reply (VInteger (i64_saturate n)) s)"
  by (auto intro!: tell_integer simp: i64_MIN_def i64_MAX_def i64_saturate_def)

lemma tell_empty [replying]: "tell (put_array 0) s = Some (put_reply (VArray []) s)" "tell (put_map 0) s = Some (put_reply (VMap []) s)"
  by (simp_all add: tell_def put_reply_def put_array_header put_map_header split: Dialect.split)

text \<open>The reply of a command that was refused memory.\<close>

definition OOM :: Value where
  "OOM = VError (ascii (''OOM command not allowed when used memory > '' @ quoted ''maxmemory''))"

lemma oom_reply [replying]: "oom s = put_reply OOM s"
  by (simp add: oom_def OOM_def say_error)

definition wrong_arity :: "string \<Rightarrow> Value" where
  "wrong_arity name = VError (ascii (''ERR wrong number of arguments for '' @ quoted name @ '' command''))"

lemma arity_reply [replying]: "arity cmd n name s = (if command_len cmd = n then (True, s) else (False, put_reply (wrong_arity name) s))"
  by (simp add: arity_def wrong_arity_def say_error)

definition not_an_integer :: Value where
  "not_an_integer = VError (ascii ''ERR value is not an integer or out of range'')"

lemma dispatch_integer_reply [replying]:
  "dispatch_integer txt s = (case integer_of txt of Some i \<Rightarrow> (Some i, s) | None \<Rightarrow> (None, put_reply not_an_integer s))"
  by (simp add: dispatch_integer_def not_an_integer_def say_error Let_def split: option.split)

lemma put_reply_simps [simp]:
  "sv_map (put_reply r s) = sv_map s" "sv_stats (put_reply r s) = sv_stats s" "sv_calls (put_reply r s) = sv_calls s"
  "sv_reply (put_reply r s) = out_extend (encode (dialect (sv_reply s)) r) (sv_reply s)"
  by (simp_all add: put_reply_def)

lemma out_extend_simps [simp]: "out (out_extend bs e) = out e @ bs" "dialect (out_extend bs e) = dialect e"
    "out_extend ys (out_extend xs e) = out_extend (xs @ ys) e" "out_extend [] e = e"
  by (simp_all add: out_extend_def)

section \<open>Text that is one line\<close>

lemma of_nat_of_char_eq: "(of_nat (of_char c) :: u8) = of_nat (of_char d) \<longleftrightarrow> c = d"
proof -
  have "unat (of_nat (of_char c) :: u8) = of_char c" for c :: char
    by (simp add: unat_of_nat take_bit_eq_mod)
  then show ?thesis by (metis of_char_eq_iff)
qed

lemma ascii_eq [simp]: "ascii a = ascii b \<longleftrightarrow> a = b"
  unfolding ascii_def by (intro inj_map_eq_map injI) (simp add: of_nat_of_char_eq)

lemma one_line_append [simp]: "one_line (xs @ ys) \<longleftrightarrow> one_line xs \<and> one_line ys"
  by (auto simp: one_line_def)

lemma one_line_Nil [simp]: "one_line []"
  by (simp add: one_line_def)

lemma one_line_Cons: "one_line (b # bs) \<longleftrightarrow> b \<noteq> CR \<and> b \<noteq> NL \<and> one_line bs"
  by (auto simp: one_line_def)

lemma ascii_mem: "of_nat (of_char c) \<in> set (ascii s) \<longleftrightarrow> c \<in> set s"
  by (induction s) (simp_all add: ascii_def of_nat_of_char_eq)

lemma one_line_ascii: "one_line (ascii s) \<longleftrightarrow> CHR 0x0D \<notin> set s \<and> CHR 0x0A \<notin> set s"
  using ascii_mem [of "CHR 0x0D" s] ascii_mem [of "CHR 0x0A" s] by (simp add: one_line_def CR_def NL_def)

text \<open>An escaped name holds no line ending, whatever bytes the client sent and whatever Unicode prints.\<close>

definition plain_chars :: "nat list \<Rightarrow> bool" where
  "plain_chars cs \<longleftrightarrow> 10 \<notin> set cs \<and> 13 \<notin> set cs"

lemma high_byte: "128 \<le> n \<Longrightarrow> n < 256 \<Longrightarrow> (of_nat n :: u8) \<noteq> CR \<and> (of_nat n :: u8) \<noteq> NL"
proof -
  assume n: "128 \<le> n" "n < 256"
  then have "unat (of_nat n :: u8) = n" by (simp add: unat_of_nat take_bit_eq_mod)
  moreover have "unat CR = 13" "unat NL = 10" by (simp_all add: CR_def NL_def)
  ultimately show ?thesis using n by auto
qed

lemma one_line_utf8: "x \<noteq> 10 \<Longrightarrow> x \<noteq> 13 \<Longrightarrow> one_line (utf8_char x)"
proof (cases "x < 128")
  case True
  assume x: "x \<noteq> 10" "x \<noteq> 13"
  have "unat (of_nat x :: u8) = x" using True by (simp add: unat_of_nat take_bit_eq_mod)
  then have "(of_nat x :: u8) \<noteq> CR" "(of_nat x :: u8) \<noteq> NL" using x by (auto simp: CR_def NL_def)
  then show ?thesis using True by (simp add: utf8_char_def one_line_Cons)
next
  case False
  have "x div 64 mod 64 < 64" "x div 4096 mod 64 < 64" "x div 262144 mod 8 < 8" "x mod 64 < 64" by simp_all
  moreover have "x div 64 < 32" if "x < 2048" using that by (simp add: less_mult_imp_div_less)
  moreover have "x div 4096 < 16" if "x < 65536" using that by (simp add: less_mult_imp_div_less)
  ultimately show ?thesis using False
    by (simp add: utf8_char_def one_line_Cons high_byte del: of_nat_add of_nat_numeral)
qed

lemma one_line_as_bytes: "plain_chars cs \<Longrightarrow> one_line (as_bytes cs)"
  by (induction cs) (auto simp: as_bytes_def plain_chars_def one_line_utf8)

lemma plain_hex: "plain_chars (hex n)"
  by (induction n rule: hex.induct) (subst hex.simps, auto simp: plain_chars_def hex_digit_def)

lemma plain_escape: "plain_chars (escape_debug u cs)"
proof -
  have "plain_chars (escape_unicode x)" for x
    using plain_hex [of x] by (auto simp: escape_unicode_def chars_def plain_chars_def)
  then have one: "plain_chars (escape_debug_ext u b x)" for b x
    by (auto simp: escape_debug_ext_def) (auto simp: plain_chars_def)
  then show ?thesis by (auto simp: escape_debug_def plain_chars_def split: list.split)
qed

definition unknown_reply :: "DispatchEnv \<Rightarrow> bytes \<Rightarrow> Value" where
  "unknown_reply v name = VError (ascii ''ERR unknown command '' @ [0x27] @
     as_bytes (escape_debug (host_unicode (de_host v)) (from_utf8_lossy name)) @ [0x27])"

lemma unknown_eq [replying]: "unknown v name s = put_reply (unknown_reply v name) s"
  by (simp add: unknown_def unknown_reply_def say_error)

lemma well_formed_unknown: "well_formed (unknown_reply v name)"
  by (simp add: unknown_reply_def one_line_ascii one_line_as_bytes [OF plain_escape] one_line_Cons CR_def NL_def)

section \<open>The state between commands\<close>

definition serving :: "DispatchEnv \<Rightarrow> cache \<Rightarrow> Server \<Rightarrow> bool" where
  "serving v m s \<longleftrightarrow> map_inv (host_platform (de_host v)) (host_target (de_host v)) (sv_map s) m \<and>
     de_thread v < length (per (sv_stats s))"

text \<open>What is left after a refusal of memory: every entry of \<open>m\<close> reads.\<close>

definition limping :: "DispatchEnv \<Rightarrow> cache \<Rightarrow> Server \<Rightarrow> bool" where
  "limping v m s \<longleftrightarrow> map_readable (host_target (de_host v)) (sv_map s) m \<and> de_thread v < length (per (sv_stats s))"

text \<open>One value was appended to the reply, and the cache is now \<open>m\<close>.\<close>

definition answered :: "DispatchEnv \<Rightarrow> Server \<Rightarrow> Value \<Rightarrow> cache \<Rightarrow> Server \<Rightarrow> bool" where
  "answered v s r m s' \<longleftrightarrow> serving v m s' \<and> framed (sv_map s) (sv_map s') \<and> sv_reply s' = sv_reply (put_reply r s)"

definition out_of_memory :: "DispatchEnv \<Rightarrow> Server \<Rightarrow> cache \<Rightarrow> Server \<Rightarrow> bool" where
  "out_of_memory v s m s' \<longleftrightarrow> limping v m s' \<and> framed (sv_map s) (sv_map s') \<and> sv_reply s' = sv_reply (put_reply OOM s)"

text \<open>
  What a write leaves of the cache \<open>m\<close> it meant to make: all of it, less what was evicted from the
  shard of the key it wrote; the key stays, and nothing is evicted when there is no ceiling.
\<close>

definition after_write :: "Map \<Rightarrow> bytes \<Rightarrow> cache \<Rightarrow> cache \<Rightarrow> bool" where
  "after_write Mp key m m' \<longleftrightarrow> m' \<subseteq>\<^sub>m m \<and> m' key = m key \<and>
     (\<forall>k. key_shard Mp k \<noteq> key_shard Mp key \<longrightarrow> m' k = m k) \<and> (mp_shard_budget Mp = 0 \<longrightarrow> m' = m)"

lemma map_wrote_alt: "map_wrote p t Mp key m Mp' \<longleftrightarrow> (\<exists>m'. map_inv p t Mp' m' \<and> after_write Mp key m m')"
  by (auto simp: map_wrote_def after_write_def)

lemma after_write_refl: "after_write Mp key m m"
  by (simp add: after_write_def)

lemma framed_refl [simp]: "framed Mp Mp"
  by (simp add: framed_def)

lemma framed_trans: "framed a b \<Longrightarrow> framed b c \<Longrightarrow> framed a c"
  unfolding framed_def by (metis Map.surjective Map.update_convs(1))

lemma framed_now: "framed a b \<Longrightarrow> clock_now (mp_clock b) = clock_now (mp_clock a)"
  by (metis Map.select_convs(6) Map.surjective Map.update_convs(1) framed_def)

lemma host_env_simps [simp]: "env_target (host_env H n) = host_target H" "env_platform (host_env H n) = host_platform H"
  by (simp_all add: host_env_def)

section \<open>Calls on the map\<close>

lemma returns_on_map:
  "returns (on_map v f s) Q \<longleftrightarrow>
     returns (f (host_env (de_host v) (sv_calls s)) (sv_map s)) (\<lambda>(r, Mp). Q (r, s\<lparr> sv_map := Mp, sv_calls := sv_calls s + 1 \<rparr>))"
  by (cases "f (host_env (de_host v) (sv_calls s)) (sv_map s)") (auto simp: on_map_def)

lemma serving_inv:
  "serving v m s \<Longrightarrow> map_inv (env_platform (host_env (de_host v) n)) (env_target (host_env (de_host v) n)) (sv_map s) m"
  by (simp add: serving_def)

abbreviation now_of :: "Server \<Rightarrow> u32" where
  "now_of s \<equiv> clock_now (mp_clock (sv_map s))"

lemma on_get:
  assumes "serving v m s"
  shows "returns (on_map v (\<lambda>ev Mp. map_get ev Mp key) s) (\<lambda>(r, s'). serving v (purge (now_of s) key m) s' \<and>
    framed (sv_map s) (sv_map s') \<and> r = map_option fst (purge (now_of s) key m key) \<and> sv_stats s' = sv_stats s \<and> sv_reply s' = sv_reply s)"
  unfolding returns_on_map by (rule returns_mono [OF map_get_spec [OF serving_inv [OF assms]]]) (use assms in \<open>auto simp: serving_def\<close>)

lemma on_contains:
  assumes "serving v m s"
  shows "returns (on_map v (\<lambda>ev Mp. map_contains ev Mp key) s) (\<lambda>(r, s'). serving v (purge (now_of s) key m) s' \<and>
    framed (sv_map s) (sv_map s') \<and> r = (purge (now_of s) key m key \<noteq> None) \<and> sv_reply s' = sv_reply s)"
  unfolding returns_on_map by (rule returns_mono [OF map_contains_spec [OF serving_inv [OF assms]]]) (use assms in \<open>auto simp: serving_def\<close>)

lemma on_remove:
  assumes "serving v m s"
  shows "returns (on_map v (\<lambda>ev Mp. map_remove ev Mp key) s) (\<lambda>(r, s'). serving v (m(key := None)) s' \<and>
    framed (sv_map s) (sv_map s') \<and> r = (m key \<noteq> None) \<and> sv_reply s' = sv_reply s)"
  unfolding returns_on_map by (rule returns_mono [OF map_remove_spec [OF serving_inv [OF assms]]]) (use assms in \<open>auto simp: serving_def\<close>)

lemma on_deadline:
  assumes "serving v m s"
  shows "returns (on_map v (\<lambda>ev Mp. map_deadline ev Mp key) s) (\<lambda>(r, s'). serving v (purge (now_of s) key m) s' \<and>
    framed (sv_map s) (sv_map s') \<and> r = map_option (\<lambda>(x, e, u). e) (purge (now_of s) key m key) \<and> sv_reply s' = sv_reply s)"
  unfolding returns_on_map by (rule returns_mono [OF map_deadline_spec [OF serving_inv [OF assms]]]) (use assms in \<open>auto simp: serving_def\<close>)

lemma on_clear:
  assumes "serving v m s"
  shows "returns (on_map v (\<lambda>ev Mp. map_option (\<lambda>Mp. ((), Mp)) (map_clear ev Mp)) s) (\<lambda>(r, s'). serving v Map.empty s' \<and>
    framed (sv_map s) (sv_map s') \<and> sv_reply s' = sv_reply s)"
proof -
  have lift: "returns (map_option (\<lambda>Mp. ((), Mp)) o') Q \<longleftrightarrow> returns o' (\<lambda>Mp. Q ((), Mp))" for o' :: "Map option" and Q
    by (cases o') auto
  show ?thesis unfolding returns_on_map lift
    by (rule returns_mono [OF map_clear_spec [OF serving_inv [OF assms]]]) (use assms in \<open>auto simp: serving_def\<close>)
qed

text \<open>The calls that write: an answer with the cache they made, or an error that leaves the entries readable.\<close>

definition wrote_call :: "DispatchEnv \<Rightarrow> Server \<Rightarrow> bytes \<Rightarrow> ('e \<Rightarrow> bool) \<Rightarrow> cache \<Rightarrow> ('x \<Rightarrow> cache) \<Rightarrow> ('e + 'x) \<times> Server \<Rightarrow> bool" where
  "wrote_call v s key hard me mw = (\<lambda>(r, s'). framed (sv_map s) (sv_map s') \<and> sv_reply s' = sv_reply s \<and>
     (case r of
        Inl e \<Rightarrow> limping v me s' \<and> (\<not> hard e \<longrightarrow> serving v me s')
      | Inr x \<Rightarrow> \<exists>m'. serving v m' s' \<and> after_write (sv_map s) key (mw x) m'))"

lemma write_post_call:
  assumes "write_post (host_platform (de_host v)) (host_target (de_host v)) (sv_map s) key hard me mw (r, sv_map s')"
    "sv_stats s' = sv_stats s" "sv_reply s' = sv_reply s" "serving v m s"
  shows "wrote_call v s key hard me mw (r, s')"
  using assms by (auto simp: wrote_call_def write_post_def serving_def limping_def map_wrote_alt split: sum.splits)

lemma on_set:
  assumes "serving v m s" "fits (length key)" "fits (length val)"
  shows "returns (on_map v (\<lambda>ev Mp. map_set ev Mp key val e u) s) (wrote_call v s key (\<lambda>_. True) m (\<lambda>_. m(key \<mapsto> (val, e, u))))"
  unfolding returns_on_map
  by (rule returns_mono [OF map_set_spec [OF serving_inv [OF assms(1)] assms(2,3), of _ e u]])
     (auto intro: write_post_call [OF _ _ _ assms(1)])

lemma on_set_when:
  fixes m :: cache and s :: Server and key :: bytes
  defines "m' \<equiv> purge (now_of s) key m"
  assumes "serving v m s" "fits (length key)" "fits (length val)"
  shows "returns (on_map v (\<lambda>ev Mp. map_set_when ev Mp key val when expiry u) s) (\<lambda>(r, s').
    wrote_call v s key (\<lambda>_. True) m' (\<lambda>x. if x = None then m' else m'(key \<mapsto> (val, set_when_expiry m' key expiry, u))) (r, s') \<and>
    (\<forall>x. r = Inr x \<longrightarrow> (x \<noteq> None \<longleftrightarrow> set_when_allowed m' key when)))"
  unfolding m'_def returns_on_map
  by (rule returns_mono [OF map_set_when_spec [OF serving_inv [OF assms(2)] assms(3,4), of _ "when" expiry u]])
     (auto intro: write_post_call [OF _ _ _ assms(2)] split: if_splits)

lemma on_expire:
  fixes m :: cache and s :: Server and key :: bytes
  defines "m' \<equiv> purge (now_of s) key m"
  assumes "serving v m s"
  shows "returns (on_map v (\<lambda>ev Mp. map_expire ev Mp key expiry) s) (\<lambda>(r, s').
    wrote_call v s key (\<lambda>_. True) m' (\<lambda>_. expire_cache m' key expiry) (r, s') \<and> (\<forall>b. r = Inr b \<longrightarrow> b = (m' key \<noteq> None)))"
  unfolding m'_def returns_on_map
  by (rule returns_mono [OF map_expire_spec [OF serving_inv [OF assms(2)], of _ key expiry]])
     (auto intro: write_post_call [OF _ _ _ assms(2)])

lemma on_increment:
  fixes m :: cache and s :: Server and key :: bytes
  defines "m' \<equiv> purge (now_of s) key m"
  assumes "serving v m s" "fits (length key)"
  shows "returns (on_map v (\<lambda>ev Mp. map_increment ev Mp key delta) s) (\<lambda>(r, s').
    wrote_call v s key (\<lambda>e. e = UncountedFull) m' (\<lambda>_. case counted_of m' key delta of Inr (_, x) \<Rightarrow> m'(key \<mapsto> x) | Inl _ \<Rightarrow> m') (r, s') \<and>
    (case counted_of m' key delta of Inl e \<Rightarrow> r = Inl e | Inr (n, _) \<Rightarrow> r = Inl UncountedFull \<or> r = Inr n))"
  unfolding m'_def returns_on_map
  by (rule returns_mono [OF map_increment_spec [OF serving_inv [OF assms(2)] assms(3), of _ delta]])
     (auto intro: write_post_call [OF _ _ _ assms(2)])


section \<open>Answers\<close>

lemma answeredI: "serving v m s1 \<Longrightarrow> framed (sv_map s) (sv_map s1) \<Longrightarrow> sv_reply s1 = sv_reply s \<Longrightarrow> answered v s r m (put_reply r s1)"
  by (simp add: answered_def serving_def)

lemma out_of_memoryI:
  "limping v m s1 \<Longrightarrow> framed (sv_map s) (sv_map s1) \<Longrightarrow> sv_reply s1 = sv_reply s \<Longrightarrow> out_of_memory v s m (put_reply OOM s1)"
  by (simp add: out_of_memory_def limping_def)

text \<open>The shape of every handler: one well-formed value and the state in order, or the refusal of memory.\<close>

definition settled :: "DispatchEnv \<Rightarrow> Server \<Rightarrow> Server \<Rightarrow> bool" where
  "settled v s s' \<longleftrightarrow> (\<exists>r m'. well_formed r \<and> answered v s r m' s') \<or> (\<exists>m'. out_of_memory v s m' s')"

lemma settledI: "answered v s r m' s' \<Longrightarrow> well_formed r \<Longrightarrow> settled v s s'"
  by (auto simp: settled_def)

lemma settled_oom: "out_of_memory v s m' s' \<Longrightarrow> settled v s s'"
  by (auto simp: settled_def)

lemma settled_put: "serving v m s \<Longrightarrow> well_formed r \<Longrightarrow> settled v s (put_reply r s)"
  by (rule settledI) (auto intro: answeredI)

abbreviation OK :: Value where
  "OK \<equiv> VSimple (ascii ''OK'')"

lemma well_formed_replies [simp]: "well_formed OK" "well_formed not_an_integer"
    "CHR 0x0D \<notin> set name \<Longrightarrow> CHR 0x0A \<notin> set name \<Longrightarrow> well_formed (wrong_arity name)"
  by (simp_all add: not_an_integer_def wrong_arity_def quoted_def one_line_ascii)

lemma returns_ifI: "(b \<Longrightarrow> returns m Q) \<Longrightarrow> (\<not> b \<Longrightarrow> returns n Q) \<Longrightarrow> returns (if b then m else n) Q"
  by simp

lemma arg_fits [simp]: "fits (length (dispatch_arg cmd buf n))"
proof (cases "arg cmd n buf")
  case (Some a)
  then have "\<exists>w :: u32. length a = unat w" by (auto simp: arg_def bind_eq_Some_conv slice_def Let_def split: if_splits)
  then obtain w :: u32 where w: "length a = unat w" by blast
  have "unat w < 2 ^ 35" by (rule order_less_le_trans [OF unsigned_less]) simp
  then show ?thesis using Some w by (simp add: dispatch_arg_def fits_def)
qed (simp add: dispatch_arg_def fits_def)

lemma counters_spec:
  "serving v m s \<Longrightarrow> counters v f s = Some (s\<lparr> sv_stats := (sv_stats s)\<lparr> per := (per (sv_stats s))[de_thread v := f (per (sv_stats s) ! de_thread v)] \<rparr> \<rparr>)"
  by (simp add: serving_def counters_def thread_counters_def idx_def set_idx_def)

section \<open>Reading\<close>

definition value_of :: "stored option \<Rightarrow> Value" where
  "value_of x = (case x of Some (val, e, u) \<Rightarrow> VBulk val | None \<Rightarrow> VNull)"

lemma well_formed_value_of [simp]: "well_formed (value_of x)"
  by (auto simp: value_of_def split: option.splits)

definition counted_as :: "DispatchEnv \<Rightarrow> (Counters \<Rightarrow> Counters) \<Rightarrow> Server \<Rightarrow> Server \<Rightarrow> bool" where
  "counted_as v f s s' \<longleftrightarrow> sv_stats s' = (sv_stats s)\<lparr> per := (per (sv_stats s))[de_thread v := f (per (sv_stats s) ! de_thread v)] \<rparr>"

lemma put_value_spec:
  assumes "serving v m s"
  shows "returns (put_value v key s) (\<lambda>s'. answered v s (value_of (purge (now_of s) key m key)) (purge (now_of s) key m) s' \<and>
    counted_as v (if purge (now_of s) key m key = None then miss else hit) s s')"
proof -
  let ?m = "purge (now_of s) key m"
  obtain r s1 where s1: "on_map v (\<lambda>ev Mp. map_get ev Mp key) s = Some (r, s1)" "serving v ?m s1" "framed (sv_map s) (sv_map s1)"
      "r = map_option fst (?m key)" "sv_stats s1 = sv_stats s" "sv_reply s1 = sv_reply s"
    using on_get [OF assms, of key] by (auto elim!: returnsE)
  show ?thesis
  proof (cases "?m key")
    case None
    then show ?thesis using s1
      by (simp add: put_value_def replying counters_spec [OF s1(2)] answered_def serving_def value_of_def counted_as_def)
  next
    case (Some x)
    have "serving v ?m (put_reply (VBulk (fst x)) s1)" using s1(2) by (simp add: serving_def)
    from counters_spec [OF this] Some show ?thesis using s1
      by (cases x) (simp add: put_value_def replying answered_def serving_def value_of_def counted_as_def)
  qed
qed

lemma purge_lookup: "purge now k (purge now k' m) k = purge now k m k"
  by (auto simp: purge_def split: option.splits)

abbreviation purge_all :: "u32 \<Rightarrow> bytes list \<Rightarrow> cache \<Rightarrow> cache" where
  "purge_all now ks m \<equiv> fold (purge now) ks m"

lemma mget_loop_spec:
  assumes "serving v m s"
  shows "returns (mget_loop v cmd buf ns s) (\<lambda>s'. serving v (purge_all (now_of s) (map (dispatch_arg cmd buf) ns) m) s' \<and>
    framed (sv_map s) (sv_map s') \<and>
    sv_reply s' = out_extend (concat (map (\<lambda>n. encode (dialect (sv_reply s)) (value_of (purge (now_of s) (dispatch_arg cmd buf n) m (dispatch_arg cmd buf n)))) ns)) (sv_reply s))"
  using assms
proof (induction ns arbitrary: m s)
  case (Cons n ns)
  let ?k = "dispatch_arg cmd buf n" and ?now = "now_of s"
  obtain s1 where s1: "put_value v ?k s = Some s1" "answered v s (value_of (purge ?now ?k m ?k)) (purge ?now ?k m) s1"
    using put_value_spec [OF Cons.prems, of ?k] by (auto elim!: returnsE)
  then have a: "serving v (purge ?now ?k m) s1" "framed (sv_map s) (sv_map s1)" "now_of s1 = ?now"
    "sv_reply s1 = out_extend (encode (dialect (sv_reply s)) (value_of (purge ?now ?k m ?k))) (sv_reply s)"
    by (auto simp: answered_def framed_now)
  show ?case using Cons.IH [OF a(1)] s1(1) a(2-) by (auto simp: purge_lookup elim!: returns_mono intro: framed_trans)
qed simp

section \<open>Writing\<close>

lemma wrote_call_Inr: "wrote_call v s key hard me mw (Inr x, s1) \<Longrightarrow> \<exists>m'. after_write (sv_map s) key (mw x) m' \<and> answered v s r m' (put_reply r s1)"
  by (auto simp: wrote_call_def intro: answeredI)

lemma wrote_call_Inl: "wrote_call v s key hard me mw (Inl e, s1) \<Longrightarrow> out_of_memory v s me (put_reply OOM s1)"
  by (auto simp: wrote_call_def intro: out_of_memoryI)

lemma plain_set_spec:
  assumes "serving v m s" "fits (length key)" "fits (length val)"
  shows "returns (do { (r, s) \<leftarrow> on_map v (\<lambda>ev Mp. map_set ev Mp key val None None) s;
      (case r of Inr _ \<Rightarrow> Some (say (put_simple (ascii ''OK'')) s) | Inl _ \<Rightarrow> Some (oom s)) })
    (\<lambda>s'. (\<exists>m'. after_write (sv_map s) key (m(key \<mapsto> (val, None, None))) m' \<and> answered v s OK m' s') \<or> out_of_memory v s m s')"
proof -
  obtain r s1 where s1: "on_map v (\<lambda>ev Mp. map_set ev Mp key val None None) s = Some (r, s1)"
      "wrote_call v s key (\<lambda>_. True) m (\<lambda>_. m(key \<mapsto> (val, None, None))) (r, s1)"
    using on_set [OF assms, of None None] by (auto elim!: returnsE)
  show ?thesis
  proof (cases r)
    case (Inl e)
    then show ?thesis using s1(1) wrote_call_Inl [OF s1(2) [unfolded Inl]] by (simp add: replying)
  next
    case (Inr x)
    then show ?thesis using s1(1) wrote_call_Inr [OF s1(2) [unfolded Inr], of OK] by (auto simp: replying)
  qed
qed


lemma map_set_when_refused:
  fixes m :: cache and Mp :: Map and key :: bytes
  defines "m' \<equiv> purge (map_now Mp) key m"
  assumes inv: "map_inv (env_platform ev) (env_target ev) Mp m" and no: "\<not> set_when_allowed m' key when"
  shows "returns (map_set_when ev Mp key val when expiry u) (\<lambda>(r, Mp'). map_inv (env_platform ev) (env_target ev) Mp' m' \<and> framed Mp Mp' \<and> r = Inr None)"
  unfolding map_set_when_def map_hash_def hash_eq Option.bind.bind_lunit
proof (rule map_op [OF inv])
  let ?i = "key_shard Mp key" and ?p = "env_platform ev" and ?t = "env_target ev"
  fix T M E assume rep: "rep_holds ?p ?t T M E (part Mp ?i m)" and seed: "tb_seed T = mp_seed Mp"
  obtain seen T1 where view: "table_view ?t T key (hash_of (mp_seed Mp) key) (map_now Mp) = Some (seen, T1)"
      "table_inv ?p ?t T1 (part Mp ?i m')" "tb_seed T1 = mp_seed Mp" "seen = map_option (view_of key) (m' key)"
    using tgt.view_spec [OF rep, of key "map_now Mp"] seed by (auto simp: part_purge m'_def view_of_def [abs_def] elim!: returnsE)
  have none: "map_option view_expiry seen = None \<longleftrightarrow> m' key = None" unfolding view(4) by simp
  have refuse: "(when = Absent \<and> map_option view_expiry seen \<noteq> None) \<or> (when = Present \<and> map_option view_expiry seen = None)"
    using no unfolding none by (cases "when") (simp_all add: set_when_allowed_def del: split_paired_All split_paired_Ex not_None_eq not_Some_eq)
  show "returns (do {
       (seen, T) \<leftarrow> table_view ?t T key (hash_of (mp_seed Mp) key) (map_now Mp);
       let kept = map_option view_expiry seen;
       if (when = Absent \<and> kept \<noteq> None) \<or> (when = Present \<and> kept = None) then Some (Inr None, T)
       else do {
         let expiry = (case expiry of At at \<Rightarrow> Some at | Never \<Rightarrow> None | Keep \<Rightarrow> Option.bind kept (\<lambda>e. e));
         (r, T) \<leftarrow> table_set ?t ?p (env_grants ev) T key val (hash_of (mp_seed Mp) key) expiry u;
         (case r of
            Inl e \<Rightarrow> Some (Inl e, T)
          | Inr wrote \<Rightarrow> do {
              T \<leftarrow> evict_to_fit ?t T (mp_shard_budget Mp) key (hash_of (mp_seed Mp) key);
              Some (Inr (Some wrote), T) }) } })
      (\<lambda>(r, T'). table_inv ?p ?t T' (part Mp ?i m') \<and> tb_seed T' = tb_seed T \<and> r = Inr None)"
    unfolding view(1) Option.bind.bind_lunit Let_def prod.case if_P [OF refuse] using view(2,3) seed by simp
qed (auto simp: m'_def part_purge_other)

text \<open>A conditional write: what the condition refuses is a null and changes nothing; what it allows is a write.\<close>

definition set_when_post :: "DispatchEnv \<Rightarrow> Server \<Rightarrow> cache \<Rightarrow> bytes \<Rightarrow> bytes \<Rightarrow> When \<Rightarrow> Expiry \<Rightarrow> Server \<Rightarrow> bool" where
  "set_when_post v s m key val when expiry s' \<longleftrightarrow>
     (let m1 = purge (now_of s) key m
      in if set_when_allowed m1 key when
         then (\<exists>m'. after_write (sv_map s) key (m1(key \<mapsto> (val, set_when_expiry m1 key expiry, None))) m' \<and> answered v s OK m' s') \<or>
              out_of_memory v s m1 s'
         else answered v s VNull m1 s')"

lemma on_set_when_cases:
  fixes m :: cache and s :: Server and key :: bytes
  defines "m1 \<equiv> purge (now_of s) key m"
  assumes "serving v m s" "fits (length key)" "fits (length val)"
  obtains (null) s1 where "on_map v (\<lambda>ev Mp. map_set_when ev Mp key val cond expiry None) s = Some (Inr None, s1)"
      "\<not> set_when_allowed m1 key cond" "answered v s VNull m1 (put_reply VNull s1)"
  | (wrote) w s1 m' where "on_map v (\<lambda>ev Mp. map_set_when ev Mp key val cond expiry None) s = Some (Inr (Some w), s1)"
      "set_when_allowed m1 key cond" "after_write (sv_map s) key (m1(key \<mapsto> (val, set_when_expiry m1 key expiry, None))) m'"
      "answered v s OK m' (put_reply OK s1)"
  | (full) e s1 where "on_map v (\<lambda>ev Mp. map_set_when ev Mp key val cond expiry None) s = Some (Inl e, s1)"
      "set_when_allowed m1 key cond" "out_of_memory v s m1 (put_reply OOM s1)"
proof (cases "set_when_allowed m1 key cond")
  case False
  have "returns (on_map v (\<lambda>ev Mp. map_set_when ev Mp key val cond expiry None) s) (\<lambda>(r, s'). r = Inr None \<and> serving v m1 s' \<and>
      framed (sv_map s) (sv_map s') \<and> sv_reply s' = sv_reply s)"
    unfolding returns_on_map
    by (rule returns_mono [OF map_set_when_refused [OF serving_inv [OF assms(2)] False [unfolded m1_def]]])
       (use assms(2) in \<open>auto simp: serving_def m1_def\<close>)
  then show ?thesis using null False answeredI by (auto elim!: returnsE)
next
  case True
  obtain r s1 where s1: "on_map v (\<lambda>ev Mp. map_set_when ev Mp key val cond expiry None) s = Some (r, s1)"
      "wrote_call v s key (\<lambda>_. True) m1 (\<lambda>x. if x = None then m1 else m1(key \<mapsto> (val, set_when_expiry m1 key expiry, None))) (r, s1)"
      "\<forall>x. r = Inr x \<longrightarrow> x \<noteq> None"
    using on_set_when [OF assms(2-4), of cond expiry None] True unfolding m1_def by (auto elim!: returnsE simp del: not_None_eq)
  show ?thesis
  proof (cases r)
    case (Inl e)
    then show ?thesis using full s1(1) True wrote_call_Inl [OF s1(2) [unfolded Inl]] by blast
  next
    case (Inr x)
    then obtain w where "x = Some w" using s1(3) by auto
    then show ?thesis using wrote s1(1) True Inr wrote_call_Inr [OF s1(2) [unfolded Inr], of OK] by auto
  qed
qed

lemma conditional_set_spec:
  assumes "serving v m s" "fits (length key)" "fits (length val)"
  shows "returns (do {
      (r, s) \<leftarrow> on_map v (\<lambda>ev Mp. map_set_when ev Mp key val cond expiry None) s;
      (case r of
         Inr None \<Rightarrow> Some (say put_null s)
       | Inr (Some _) \<Rightarrow> Some (say (put_simple (ascii ''OK'')) s)
       | Inl _ \<Rightarrow> Some (oom s)) }) (set_when_post v s m key val cond expiry)"
  by (rule on_set_when_cases [OF assms, where cond = cond and expiry = expiry])
     (auto simp: set_when_post_def replying Let_def)

lemma timed_write_spec:
  assumes "serving v m s" "fits (length key)" "fits (length val)"
  shows "returns (do {
      (r, s) \<leftarrow> on_map v (\<lambda>ev Mp. map_set_when ev Mp key val Always expiry None) s;
      (case r of
         Inr _ \<Rightarrow> Some (say (put_simple (ascii ''OK'')) s)
       | Inl _ \<Rightarrow> Some (oom s)) }) (set_when_post v s m key val Always expiry)"
  by (rule on_set_when_cases [OF assms, where cond = Always and expiry = expiry])
     (auto simp: set_when_post_def replying Let_def set_when_allowed_def)

definition bad_expire :: "string \<Rightarrow> Value" where
  "bad_expire wd = VError (ascii (''ERR invalid expire time in '' @ quoted wd @ '' command''))"

definition syntax_error :: Value where
  "syntax_error = VError (ascii ''ERR syntax error'')"

lemma set_options_refusals:
  "set_options now cmd buf n when expiry = Inl e \<Longrightarrow> VError (ascii e) \<in> {bad_expire ''set'', syntax_error}"
proof (induction now cmd buf n "when" expiry rule: set_options.induct)
  case (1 now cmd buf n "when" expiry)
  let ?opt = "dispatch_arg cmd buf n"
  note IH = 1(1-4) [OF _ refl]
  show ?case
  proof (cases "n < command_len cmd \<and> \<not> eq_ignore_ascii_case ?opt (ascii ''NX'') \<and>
      \<not> eq_ignore_ascii_case ?opt (ascii ''XX'') \<and> \<not> eq_ignore_ascii_case ?opt (ascii ''KEEPTTL'')")
    case True
    note 1(5) [unfolded set_options.simps [of now cmd buf n "when" expiry] Let_def]
    then show ?thesis using True IH(4) [OF _ _ _ _]
      by (auto simp: bad_expire_def syntax_error_def split: option.split_asm if_split_asm prod.split_asm)
  next
    case False
    note 1(5) [unfolded set_options.simps [of now cmd buf n "when" expiry] Let_def]
    then show ?thesis using False IH(1-3) by (auto split: if_split_asm)
  qed
qed

text \<open>What \<^verbatim>\<open>SET\<close> does, by the shape of its arguments.\<close>

definition set_cmd_post :: "DispatchEnv \<Rightarrow> Command \<Rightarrow> bytes \<Rightarrow> Server \<Rightarrow> cache \<Rightarrow> Server \<Rightarrow> bool" where
  "set_cmd_post v cmd buf s m s' \<longleftrightarrow>
     (let key = dispatch_arg cmd buf 1; val = dispatch_arg cmd buf 2
      in if command_len cmd < 3 then answered v s (wrong_arity ''set'') m s'
         else if command_len cmd = 3
         then (\<exists>m'. after_write (sv_map s) key (m(key \<mapsto> (val, None, None))) m' \<and> answered v s OK m' s') \<or> out_of_memory v s m s'
         else case set_options (now_of s) cmd buf 3 Always Never of
            Inl refusal \<Rightarrow> answered v s (VError (ascii refusal)) m s'
          | Inr (when, expiry) \<Rightarrow> set_when_post v s m key val when expiry s')"

lemma set_cmd_spec:
  assumes "serving v m s"
  shows "returns (set_cmd v cmd buf s) (set_cmd_post v cmd buf s m)"
proof -
  let ?key = "dispatch_arg cmd buf 1" and ?val = "dispatch_arg cmd buf 2"
  consider (few) "command_len cmd < 3" | (plain) "command_len cmd = 3" | (options) "3 < command_len cmd" by linarith
  then show ?thesis
  proof cases
    case few
    then show ?thesis using assms by (simp add: set_cmd_def set_cmd_post_def replying answeredI)
  next
    case plain
    then show ?thesis using plain_set_spec [OF assms, of ?key ?val] by (auto simp: set_cmd_def set_cmd_post_def Let_def elim!: returns_mono)
  next
    case options
    then have code: "set_cmd v cmd buf s = (case set_options (now_of s) cmd buf 3 Always Never of
            Inl refusal \<Rightarrow> Some (say (put_error (ascii refusal)) s)
          | Inr (when, expiry) \<Rightarrow> do {
              (r, s) \<leftarrow> on_map v (\<lambda>ev Mp. map_set_when ev Mp ?key ?val when expiry None) s;
              (case r of
                 Inr None \<Rightarrow> Some (say put_null s)
               | Inr (Some _) \<Rightarrow> Some (say (put_simple (ascii ''OK'')) s)
               | Inl _ \<Rightarrow> Some (oom s)) })"
      by (simp add: set_cmd_def server_now_def Let_def del: One_nat_def)
    show ?thesis
    proof (cases "set_options (now_of s) cmd buf 3 Always Never")
      case (Inl e)
      then show ?thesis using assms options by (simp add: code set_cmd_post_def replying answeredI)
    next
      case (Inr we)
      obtain wh ex where we: "we = (wh, ex)" by (cases we)
      have eq: "set_when_post v s m ?key ?val wh ex = set_cmd_post v cmd buf s m"
        by (rule ext) (use Inr we options in \<open>simp add: set_cmd_post_def Let_def\<close>)
      show ?thesis
        using conditional_set_spec [OF assms arg_fits arg_fits, of cmd buf 1 cmd buf 2 wh ex] Inr we unfolding eq code by simp
    qed
  qed
qed


definition timed_set_post :: "DispatchEnv \<Rightarrow> bool \<Rightarrow> Command \<Rightarrow> bytes \<Rightarrow> Server \<Rightarrow> cache \<Rightarrow> Server \<Rightarrow> bool" where
  "timed_set_post v millis cmd buf s m s' \<longleftrightarrow>
     (let wd = (if millis then ''psetex'' else ''setex'')
      in if command_len cmd \<noteq> 4 then answered v s (wrong_arity wd) m s'
         else case integer_of (dispatch_arg cmd buf 2) of
           None \<Rightarrow> answered v s not_an_integer m s'
         | Some val \<Rightarrow>
             if val \<le> 0 then answered v s (bad_expire wd) m s'
             else set_when_post v s m (dispatch_arg cmd buf 1) (dispatch_arg cmd buf 3) Always
               (At (stamp (moment (now_of s) val (if millis then 1000 else 1) False))) s')"

lemma timed_set_spec:
  assumes "serving v m s"
  shows "returns (timed_set v millis cmd buf s) (timed_set_post v millis cmd buf s m)"
proof -
  note W = timed_write_spec [OF assms arg_fits arg_fits]
  show ?thesis
  proof (cases "command_len cmd = 4 \<and> (\<exists>val>0. integer_of (dispatch_arg cmd buf 2) = Some val)")
    case True
    then obtain val where val: "command_len cmd = 4" "integer_of (dispatch_arg cmd buf 2) = Some val" "0 < val" by blast
    let ?e = "At (stamp (moment (now_of s) val (if millis then 1000 else 1) False))"
    have eq: "set_when_post v s m (dispatch_arg cmd buf 1) (dispatch_arg cmd buf 3) Always ?e = timed_set_post v millis cmd buf s m"
      by (rule ext) (use val in \<open>simp add: timed_set_post_def Let_def\<close>)
    show ?thesis
      using W [of cmd buf 1 cmd buf 3 ?e] val unfolding eq by (simp add: timed_set_def Let_def replying server_now_def)
  next
    case False
    then show ?thesis
      using assms by (auto simp: timed_set_def timed_set_post_def Let_def replying answeredI bad_expire_def split: option.split)
  qed
qed

text \<open>Several writes, one after another; each may evict what stands beside it.\<close>

fun wrote_all :: "Map \<Rightarrow> (bytes \<times> bytes) list \<Rightarrow> cache \<Rightarrow> cache \<Rightarrow> bool" where
  "wrote_all Mp [] m m' \<longleftrightarrow> m' = m"
| "wrote_all Mp ((key, val) # pairs) m m' \<longleftrightarrow>
     (\<exists>m1. after_write Mp key (m(key \<mapsto> (val, None, None))) m1 \<and> wrote_all Mp pairs m1 m')"

definition mset_post :: "DispatchEnv \<Rightarrow> Server \<Rightarrow> (bytes \<times> bytes) list \<Rightarrow> cache \<Rightarrow> Server \<Rightarrow> bool" where
  "mset_post v s pairs m s' \<longleftrightarrow> (\<exists>m'. wrote_all (sv_map s) pairs m m' \<and> answered v s OK m' s') \<or>
     (\<exists>n m'. n < length pairs \<and> wrote_all (sv_map s) (take n pairs) m m' \<and> out_of_memory v s m' s')"

lemma framed_key_shard: "framed a b \<Longrightarrow> key_shard b k = key_shard a k \<and> mp_shard_budget b = mp_shard_budget a"
  unfolding framed_def shard_of_def
  by (metis Map.select_convs(2,3,5) Map.surjective Map.update_convs(1))

lemma after_write_framed: "framed a b \<Longrightarrow> after_write b key m m' = after_write a key m m'"
  using framed_key_shard by (simp add: after_write_def)

lemma wrote_all_framed: "framed a b \<Longrightarrow> wrote_all b pairs m m' = wrote_all a pairs m m'"
  by (induction pairs arbitrary: m) (auto simp: after_write_framed)

lemma answered_trans:
  "framed (sv_map s) (sv_map s1) \<Longrightarrow> sv_reply s1 = sv_reply s \<Longrightarrow> answered v s1 r m s' \<Longrightarrow> answered v s r m s'"
  by (auto simp: answered_def intro: framed_trans)

lemma out_of_memory_trans:
  "framed (sv_map s) (sv_map s1) \<Longrightarrow> sv_reply s1 = sv_reply s \<Longrightarrow> out_of_memory v s1 m s' \<Longrightarrow> out_of_memory v s m s'"
  by (auto simp: out_of_memory_def intro: framed_trans)

lemma mset_loop_spec:
  assumes "serving v m s"
  shows "returns (mset_loop v cmd buf ns s) (mset_post v s (map (\<lambda>n. (dispatch_arg cmd buf n, dispatch_arg cmd buf (n + 1))) ns) m)"
  using assms
proof (induction ns arbitrary: m s)
  case Nil
  then show ?case by (auto simp: mset_post_def replying intro: answeredI)
next
  case (Cons n ns)
  let ?k = "dispatch_arg cmd buf n" and ?x = "dispatch_arg cmd buf (n + 1)"
  let ?ps = "map (\<lambda>n. (dispatch_arg cmd buf n, dispatch_arg cmd buf (n + 1))) ns"
  obtain r s1 where s1: "on_map v (\<lambda>ev Mp. map_set ev Mp ?k ?x None None) s = Some (r, s1)"
      "wrote_call v s ?k (\<lambda>_. True) m (\<lambda>_. m(?k \<mapsto> (?x, None, None))) (r, s1)"
    using on_set [OF Cons.prems arg_fits arg_fits, of cmd buf n cmd buf "n + 1" None None] by (auto elim!: returnsE)
  show ?case
  proof (cases r)
    case (Inl e)
    then show ?thesis using s1(1) wrote_call_Inl [OF s1(2) [unfolded Inl]] by (auto simp: mset_post_def replying)
  next
    case (Inr w)
    then obtain m1 where m1: "serving v m1 s1" "after_write (sv_map s) ?k (m(?k \<mapsto> (?x, None, None))) m1"
        "framed (sv_map s) (sv_map s1)" "sv_reply s1 = sv_reply s"
      using s1(2) by (auto simp: wrote_call_def)
    have step: "mset_post v s ((?k, ?x) # ?ps) m s'" if "mset_post v s1 ?ps m1 s'" for s'
      using that unfolding mset_post_def wrote_all_framed [OF m1(3)]
    proof (elim disjE exE conjE)
      fix m' assume "wrote_all (sv_map s) ?ps m1 m'" "answered v s1 OK m' s'"
      then show "(\<exists>m'. wrote_all (sv_map s) ((?k, ?x) # ?ps) m m' \<and> answered v s OK m' s') \<or>
          (\<exists>n m'. n < length ((?k, ?x) # ?ps) \<and> wrote_all (sv_map s) (take n ((?k, ?x) # ?ps)) m m' \<and> out_of_memory v s m' s')"
        using m1(2) answered_trans [OF m1(3,4)] by auto
    next
      fix j m' assume "j < length ?ps" "wrote_all (sv_map s) (take j ?ps) m1 m'" "out_of_memory v s1 m' s'"
      then show "(\<exists>m'. wrote_all (sv_map s) ((?k, ?x) # ?ps) m m' \<and> answered v s OK m' s') \<or>
          (\<exists>n m'. n < length ((?k, ?x) # ?ps) \<and> wrote_all (sv_map s) (take n ((?k, ?x) # ?ps)) m m' \<and> out_of_memory v s m' s')"
        using m1(2) out_of_memory_trans [OF m1(3,4)] by (intro disjI2 exI [of _ "Suc j"] exI [of _ m']) auto
    qed
    show ?thesis using Cons.IH [OF m1(1)] s1(1) Inr step by (auto elim!: returns_mono)
  qed
qed

section \<open>Counting\<close>

definition count_post :: "DispatchEnv \<Rightarrow> Server \<Rightarrow> bytes \<Rightarrow> int \<Rightarrow> cache \<Rightarrow> Server \<Rightarrow> bool" where
  "count_post v s key delta m s' \<longleftrightarrow>
     (let m1 = purge (now_of s) key m
      in case counted_of m1 key delta of
           Inr (n, x) \<Rightarrow> (\<exists>m'. after_write (sv_map s) key (m1(key \<mapsto> x)) m' \<and> answered v s (VInteger n) m' s') \<or> out_of_memory v s m1 s'
         | Inl NotANumber \<Rightarrow> answered v s not_an_integer m1 s'
         | Inl _ \<Rightarrow> answered v s (VError (ascii ''ERR increment or decrement would overflow'')) m1 s')"

lemma counted_of_range: "counted_of m key delta = Inr (n, x) \<Longrightarrow> i64_MIN \<le> n \<and> n \<le> i64_MAX"
  by (auto simp: counted_of_def i64_checked_def split: option.splits if_splits)

lemma counted_of_soft: "counted_of m key delta \<noteq> Inl UncountedFull"
  by (auto simp: counted_of_def split: option.splits)

lemma count_by_spec:
  assumes "serving v m s" "fits (length key)"
  shows "returns (count_by v key delta s) (count_post v s key delta m)"
proof -
  let ?m = "purge (now_of s) key m"
  let ?mw = "\<lambda>_ :: int. case counted_of ?m key delta of Inr (_, x) \<Rightarrow> ?m(key \<mapsto> x) | Inl _ \<Rightarrow> ?m"
  obtain r s1 where s1: "on_map v (\<lambda>ev Mp. map_increment ev Mp key delta) s = Some (r, s1)"
      "wrote_call v s key (\<lambda>e. e = UncountedFull) ?m ?mw (r, s1)"
      "case counted_of ?m key delta of Inl e \<Rightarrow> r = Inl e | Inr (n, _) \<Rightarrow> r = Inl UncountedFull \<or> r = Inr n"
    using on_increment [OF assms, of delta] by (auto elim!: returnsE)
  show ?thesis
  proof (cases "counted_of ?m key delta")
    case (Inl e)
    then have r: "r = Inl e" "e \<noteq> UncountedFull" using s1(3) counted_of_soft by auto
    then have "serving v ?m s1" "framed (sv_map s) (sv_map s1)" "sv_reply s1 = sv_reply s" using s1(2) by (auto simp: wrote_call_def)
    then show ?thesis using s1(1) r Inl
      by (cases e) (auto simp: count_by_def count_post_def replying not_an_integer_def Let_def intro: answeredI)
  next
    case (Inr nx)
    obtain n x where nx: "nx = (n, x)" by (cases nx)
    note range = counted_of_range [OF Inr [unfolded nx]]
    show ?thesis
    proof (cases r)
      case (Inl e)
      then have "e = UncountedFull" using s1(3) Inr nx by auto
      then show ?thesis using s1(1) Inr nx Inl wrote_call_Inl [OF s1(2) [unfolded Inl]]
        by (simp add: count_by_def count_post_def replying Let_def)
    next
      case (Inr i)
      then have i: "i = n" using s1(3) \<open>counted_of ?m key delta = Inr nx\<close> nx by auto
      obtain m' where "after_write (sv_map s) key (?m(key \<mapsto> x)) m'" "answered v s (VInteger n) m' (put_reply (VInteger n) s1)"
        using wrote_call_Inr [OF s1(2) [unfolded Inr], of "VInteger n"] \<open>counted_of ?m key delta = Inr nx\<close> nx by auto
      then show ?thesis using s1(1) Inr i range \<open>counted_of ?m key delta = Inr nx\<close> nx
        by (auto simp: count_by_def count_post_def replying Let_def)
    qed
  qed
qed


section \<open>Keys\<close>

lemma serving_finite: "serving v m s \<Longrightarrow> finite (dom m)"
  unfolding serving_def by (blast dest: map_len_spec(1))

lemma card_dom_less: "finite (dom m) \<Longrightarrow> card (insert k K \<inter> dom m) = (if m k = None then 0 else 1) + card (K \<inter> dom (m(k := None)))"
proof -
  assume fin: "finite (dom m)"
  have "insert k K \<inter> dom m = (if m k = None then {} else {k}) \<union> (K \<inter> dom (m(k := None)))" by auto
  moreover have "k \<notin> K \<inter> dom (m(k := None))" by simp
  ultimately show ?thesis using fin by simp
qed

lemma remove_loop_spec:
  assumes "serving v m s"
  shows "returns (remove_loop v cmd buf ns went s) (\<lambda>(n, s'). n = went + card (set (map (dispatch_arg cmd buf) ns) \<inter> dom m) \<and>
    serving v (m |` (- set (map (dispatch_arg cmd buf) ns))) s' \<and> framed (sv_map s) (sv_map s') \<and> sv_reply s' = sv_reply s)"
  using assms
proof (induction ns arbitrary: m s went)
  case (Cons n ns)
  let ?k = "dispatch_arg cmd buf n"
  obtain s1 where s1: "on_map v (\<lambda>ev Mp. map_remove ev Mp ?k) s = Some (m ?k \<noteq> None, s1)" "serving v (m(?k := None)) s1"
      "framed (sv_map s) (sv_map s1)" "sv_reply s1 = sv_reply s"
    using on_remove [OF Cons.prems, of ?k] by (auto elim!: returnsE)
  let ?K = "set (map (dispatch_arg cmd buf) ns)" and ?went = "if m ?k \<noteq> None then went + 1 else went"
  have r: "m(?k := None) |` (- ?K) = m |` (- set (map (dispatch_arg cmd buf) (n # ns)))" by (auto simp: restrict_map_def)
  have c: "?went + card (?K \<inter> dom (m(?k := None))) = went + card (set (map (dispatch_arg cmd buf) (n # ns)) \<inter> dom m)"
    using card_dom_less [OF serving_finite [OF Cons.prems], of ?k ?K] by (simp del: dom_fun_upd)
  have code: "remove_loop v cmd buf (n # ns) went s = remove_loop v cmd buf ns ?went s1" using s1(1) by simp
  show ?case unfolding code
    by (rule returns_mono [OF Cons.IH [OF s1(2), of ?went, unfolded r c]]) (use s1(3,4) framed_trans in auto)
qed (simp add: restrict_map_def)

lemma exists_loop_spec:
  assumes "serving v m s"
  shows "returns (exists_loop v cmd buf ns there s) (\<lambda>(n, s').
    n = there + length (filter (\<lambda>n. purge (now_of s) (dispatch_arg cmd buf n) m (dispatch_arg cmd buf n) \<noteq> None) ns) \<and>
    serving v (purge_all (now_of s) (map (dispatch_arg cmd buf) ns) m) s' \<and> framed (sv_map s) (sv_map s') \<and> sv_reply s' = sv_reply s)"
  using assms
proof (induction ns arbitrary: m s there)
  case (Cons n ns)
  let ?k = "dispatch_arg cmd buf n" and ?now = "now_of s"
  obtain s1 where s1: "on_map v (\<lambda>ev Mp. map_contains ev Mp ?k) s = Some (purge ?now ?k m ?k \<noteq> None, s1)" "serving v (purge ?now ?k m) s1"
      "framed (sv_map s) (sv_map s1)" "sv_reply s1 = sv_reply s"
    using on_contains [OF Cons.prems, of ?k] by (auto elim!: returnsE)
  note now = framed_now [OF s1(3)]
  have code: "exists_loop v cmd buf (n # ns) there s = exists_loop v cmd buf ns (if purge ?now ?k m ?k \<noteq> None then there + 1 else there) s1"
    using s1(1) by simp
  show ?case unfolding code
    by (rule returns_mono [OF Cons.IH [OF s1(2)]]) (use s1(3,4) framed_trans in \<open>auto simp: purge_lookup now simp del: not_None_eq\<close>)
qed simp

definition expire_cmd_post :: "DispatchEnv \<Rightarrow> Server \<Rightarrow> bytes \<Rightarrow> int \<Rightarrow> cache \<Rightarrow> Server \<Rightarrow> bool" where
  "expire_cmd_post v s key at m s' \<longleftrightarrow>
     (if at \<le> int (unat (now_of s))
      then answered v s (VInteger (if m key = None then 0 else 1)) (m(key := None)) s'
      else let m1 = purge (now_of s) key m
        in (\<exists>m'. after_write (sv_map s) key (expire_cache m1 key (Some (stamp at))) m' \<and>
              answered v s (VInteger (if m1 key = None then 0 else 1)) m' s') \<or> out_of_memory v s m1 s')"

lemma expire_cmd_spec:
  assumes "serving v m s"
  shows "returns (expire_cmd v key val millis absolute s)
    (expire_cmd_post v s key (moment (now_of s) val (if millis then 1000 else 1) absolute) m)"
proof -
  let ?at = "moment (now_of s) val (if millis then 1000 else 1) absolute" and ?m = "purge (now_of s) key m"
  show ?thesis
  proof (cases "?at \<le> int (unat (now_of s))")
    case True
    then have code: "expire_cmd v key val millis absolute s = do {
           (gone, s) \<leftarrow> on_map v (\<lambda>ev Mp. map_remove ev Mp key) s;
           tell (put_integer (if gone then 1 else 0)) s }"
      by (simp add: expire_cmd_def server_now_def Let_def)
    obtain s1 where "on_map v (\<lambda>ev Mp. map_remove ev Mp key) s = Some (m key \<noteq> None, s1)" "serving v (m(key := None)) s1"
        "framed (sv_map s) (sv_map s1)" "sv_reply s1 = sv_reply s"
      using on_remove [OF assms, of key] by (auto elim!: returnsE)
    then show ?thesis unfolding code using True
      by (cases "m key = None") (auto simp: replying tell_small(2) [of True] tell_integer i64_MIN_def i64_MAX_def expire_cmd_post_def intro: answeredI)
  next
    case False
    then have code: "expire_cmd v key val millis absolute s = do {
           (r, s) \<leftarrow> on_map v (\<lambda>ev Mp. map_expire ev Mp key (Some (stamp ?at))) s;
           (case r of
              Inr changed \<Rightarrow> tell (put_integer (if changed then 1 else 0)) s
            | Inl _ \<Rightarrow> Some (oom s)) }"
      by (simp add: expire_cmd_def server_now_def Let_def)
    obtain r s1 where s1: "on_map v (\<lambda>ev Mp. map_expire ev Mp key (Some (stamp ?at))) s = Some (r, s1)"
        "wrote_call v s key (\<lambda>_. True) ?m (\<lambda>_. expire_cache ?m key (Some (stamp ?at))) (r, s1)" "\<forall>b. r = Inr b \<longrightarrow> b = (?m key \<noteq> None)"
      using on_expire [OF assms, of key "Some (stamp ?at)"] by (auto elim!: returnsE simp del: not_None_eq)
    show ?thesis
    proof (cases r)
      case (Inl e)
      then show ?thesis unfolding code using False s1(1) wrote_call_Inl [OF s1(2) [unfolded Inl]] by (simp add: replying expire_cmd_post_def Let_def)
    next
      case (Inr b)
      let ?r = "VInteger (if b then 1 else 0)"
      have "b = (?m key \<noteq> None)" using s1(3) Inr by blast
      then show ?thesis unfolding code using False s1(1) Inr wrote_call_Inr [OF s1(2) [unfolded Inr], of ?r]
        by (auto simp: replying expire_cmd_post_def Let_def)
    qed
  qed
qed


section \<open>Every handler settles\<close>

lemma well_formed_errors [simp]: "well_formed (bad_expire ''set'')" "well_formed (bad_expire ''setex'')" "well_formed (bad_expire ''psetex'')"
    "well_formed syntax_error" "well_formed OOM"
  by (simp_all add: bad_expire_def syntax_error_def OOM_def quoted_def one_line_ascii)

lemma set_when_settled: "set_when_post v s m key val cond expiry s' \<Longrightarrow> settled v s s'"
  by (auto simp: set_when_post_def Let_def one_line_ascii intro: settledI settled_oom split: if_splits)

lemma set_cmd_settled: "set_cmd_post v cmd buf s m s' \<Longrightarrow> settled v s s'"
proof -
  have refusal: "well_formed (VError (ascii e))" if "set_options (now_of s) cmd buf 3 Always Never = Inl e" for e
    using set_options_refusals [OF that] by (auto simp del: well_formed.simps)
  show "settled v s s'" if "set_cmd_post v cmd buf s m s'"
    using that refusal
    by (auto simp: set_cmd_post_def Let_def one_line_ascii simp del: well_formed.simps(2)
        intro: settledI settled_oom set_when_settled split: if_splits sum.splits prod.splits)
qed

lemma timed_set_settled: "timed_set_post v millis cmd buf s m s' \<Longrightarrow> settled v s s'"
  by (auto simp: timed_set_post_def Let_def intro: settledI settled_oom set_when_settled split: if_splits option.splits)

lemma mset_settled: "mset_post v s pairs m s' \<Longrightarrow> settled v s s'"
  by (auto simp: mset_post_def one_line_ascii intro: settledI settled_oom)

lemma count_settled: "count_post v s key delta m s' \<Longrightarrow> settled v s s'"
  using counted_of_range [of "purge (now_of s) key m" key delta]
  by (auto simp: count_post_def Let_def one_line_ascii intro: settledI settled_oom split: sum.splits Uncounted.splits)

lemma expire_settled: "expire_cmd_post v s key at m s' \<Longrightarrow> settled v s s'"
  by (auto simp: expire_cmd_post_def Let_def i64_MIN_def i64_MAX_def intro: settledI settled_oom split: if_splits)

lemma small_integer [simp]: "well_formed (VInteger (if b then 1 else 0))" "well_formed (VInteger (i64_saturate n))"
  by (simp_all add: i64_saturate_def i64_MIN_def i64_MAX_def)

text \<open>A family of commands: what is its own it settles, and what is not it leaves alone.\<close>

definition family :: "DispatchEnv \<Rightarrow> Server \<Rightarrow> bool \<times> Server \<Rightarrow> bool" where
  "family v s = (\<lambda>(known, s'). if known then settled v s s' else s' = s)"

lemma family_known: "returns x (settled v s) \<Longrightarrow> returns (do { s' \<leftarrow> x; Some (True, s') }) (family v s)"
  by (simp add: family_def)

lemma family_arity:
  assumes "serving v m s" "CHR 0x0D \<notin> set name" "CHR 0x0A \<notin> set name" "command_len cmd = n \<Longrightarrow> returns (f s) (family v s)"
  shows "returns (case arity cmd n name s of (False, s) \<Rightarrow> Some (True, s) | (True, s) \<Rightarrow> f s) (family v s)"
  using assms by (auto simp: replying family_def intro: settled_put)

lemma mget_spec:
  assumes "serving v m s" "0 < command_len cmd"
  shows "returns (do { s \<leftarrow> tell (put_array (command_len cmd - 1)) s; mget_loop v cmd buf [1..<command_len cmd] s })
    (answered v s (VArray (map (\<lambda>n. value_of (purge (now_of s) (dispatch_arg cmd buf n) m (dispatch_arg cmd buf n))) [1..<command_len cmd]))
       (purge_all (now_of s) (map (dispatch_arg cmd buf) [1..<command_len cmd]) m))"
proof -
  let ?e = "out_extend (42 # count_bytes (command_len cmd - 1)) (sv_reply s)"
  have "serving v m (s\<lparr> sv_reply := ?e \<rparr>)" using assms by (simp add: serving_def)
  from mget_loop_spec [OF this, of cmd buf "[1..<command_len cmd]"] show ?thesis
    by (simp add: tell_def put_array_header) (auto simp: answered_def o_def elim!: returns_mono)
qed

lemma on_get_length:
  assumes "serving v m s"
  shows "returns (do {
      (r, s) \<leftarrow> on_map v (\<lambda>ev Mp. map_get ev Mp key) s;
      let len = (case r of Some val \<Rightarrow> length val | None \<Rightarrow> 0);
      tell (put_integer (i64_saturate len)) s })
    (answered v s (VInteger (i64_saturate (case purge (now_of s) key m key of Some (val, _) \<Rightarrow> length val | None \<Rightarrow> 0))) (purge (now_of s) key m))"
  by (auto simp: replying Let_def intro!: returns_mono [OF on_get [OF assms, of key]] answeredI split: option.splits)

end
