(* ===== verification/Rugo_Abstract.thy ===== *)
theory Rugo_Abstract
  imports Rugo_Room Rugo_Serving
begin

text \<open>
  The contract of the map as an abstract machine. Its state is the second the clock shows and a partial
  function from keys to values with their expiry and flags; its steps say what every operation of
  \<^verbatim>\<open>crates/rugo-map/src/lib.rs\<close> may answer and leave, eviction included. An implementation is anything
  that simulates it, and what follows from the machine for histories of calls is proved once for
  all implementations and then read off for the map.
\<close>

section \<open>Calls, answers and steps\<close>

datatype Call =
    Get bytes | Look bytes | Contains bytes | Deadline bytes | Remove bytes
  | Put bytes bytes "u32 option" "u32 option"
  | PutWhen bytes bytes When Expiry "u32 option"
  | Retime bytes "u32 option"
  | Count bytes int
  | Clear | Sweep nat | Tick "nat option"

datatype Answer =
    AValue "bytes option" | AView "View option" | AThere bool | ADeadline "u32 option option"
  | AWrote Wrote | AConditional "Wrote option" | AChanged bool | ANumber int | AUncounted Uncounted
  | ACleared | ASwept nat | ATicked u32 | ARefused

text \<open>What a write keeps of the cache it meant to leave: its own key, and of the rest what is not evicted.\<close>

definition keeps :: "bytes \<Rightarrow> cache \<Rightarrow> cache \<Rightarrow> bool" where
  "keeps k m m' \<longleftrightarrow> m' \<subseteq>\<^sub>m m \<and> m' k = m k"

inductive cache_step :: "u32 \<Rightarrow> cache \<Rightarrow> Call \<Rightarrow> Answer \<Rightarrow> u32 \<Rightarrow> cache \<Rightarrow> bool" where
  get: "m1 = purge now k m \<Longrightarrow> cache_step now m (Get k) (AValue (map_option fst (m1 k))) now m1"
| look: "m1 = purge now k m \<Longrightarrow> cache_step now m (Look k) (AView (map_option (view_of k) (m1 k))) now m1"
| contains: "m1 = purge now k m \<Longrightarrow> cache_step now m (Contains k) (AThere (m1 k \<noteq> None)) now m1"
| deadline: "m1 = purge now k m \<Longrightarrow> cache_step now m (Deadline k) (ADeadline (map_option (\<lambda>(x, e, u). e) (m1 k))) now m1"
| remove: "cache_step now m (Remove k) (AThere (m k \<noteq> None)) now (m(k := None))"
| put: "keeps k (m(k \<mapsto> (x, e, u))) m' \<Longrightarrow>
    cache_step now m (Put k x e u) (AWrote (if m k = None then Inserted else Replaced)) now m'"
| put_when: "m1 = purge now k m \<Longrightarrow> set_when_allowed m1 k wh \<Longrightarrow> keeps k (m1(k \<mapsto> (x, set_when_expiry m1 k ex, u))) m' \<Longrightarrow>
    cache_step now m (PutWhen k x wh ex u) (AConditional (Some (if m1 k = None then Inserted else Replaced))) now m'"
| put_not: "m1 = purge now k m \<Longrightarrow> \<not> set_when_allowed m1 k wh \<Longrightarrow> keeps k m1 m' \<Longrightarrow>
    cache_step now m (PutWhen k x wh ex u) (AConditional None) now m'"
| retime: "m1 = purge now k m \<Longrightarrow> keeps k (expire_cache m1 k e) m' \<Longrightarrow> cache_step now m (Retime k e) (AChanged (m1 k \<noteq> None)) now m'"
| count: "m1 = purge now k m \<Longrightarrow> counted_of m1 k delta = Inr (n, x) \<Longrightarrow> keeps k (m1(k \<mapsto> x)) m' \<Longrightarrow>
    cache_step now m (Count k delta) (ANumber n) now m'"
| count_not: "m1 = purge now k m \<Longrightarrow> counted_of m1 k delta = Inl e \<Longrightarrow> cache_step now m (Count k delta) (AUncounted e) now m1"
| clear: "cache_step now m Clear ACleared now Map.empty"
| sweep: "m' \<subseteq>\<^sub>m m \<Longrightarrow> \<forall>k. m' k = None \<longrightarrow> m k = None \<or> due now m k \<Longrightarrow> removed + card (dom m') = card (dom m) \<Longrightarrow>
    cache_step now m (Sweep budget) (ASwept removed) now m'"
| tick: "cache_step now m (Tick since) (ATicked (unix_now since)) (unix_now since) m"

text \<open>A history: calls, and what each answered.\<close>

inductive history :: "u32 \<Rightarrow> cache \<Rightarrow> (Call \<times> Answer) list \<Rightarrow> u32 \<Rightarrow> cache \<Rightarrow> bool" where
  start: "history now m [] now m"
| call: "cache_step now m c a now1 m1 \<Longrightarrow> history now1 m1 h now' m' \<Longrightarrow> history now m ((c, a) # h) now' m'"

text \<open>
  The value a history of calls and answers has last written at a key, if the key was not removed or
  the cache cleared since: a put that answered, a conditional put that answered it wrote, a counter
  that answered a number. It looks at the calls and their answers only, not at any state.
\<close>

definition effect :: "bytes \<Rightarrow> Call \<times> Answer \<Rightarrow> bytes option \<Rightarrow> bytes option" where
  "effect k = (\<lambda>(c, a) v. case c of
       Put k' x _ _ \<Rightarrow> if k' = k then Some x else v
     | PutWhen k' x _ _ _ \<Rightarrow> if k' = k \<and> a \<noteq> AConditional None then Some x else v
     | Count k' _ \<Rightarrow> (case a of ANumber n \<Rightarrow> if k' = k then Some (dec_int n) else v | _ \<Rightarrow> v)
     | Remove k' \<Rightarrow> if k' = k then None else v
     | Clear \<Rightarrow> None
     | _ \<Rightarrow> v)"

lemma effect_simps [simp]:
  "effect k (Put k' x e u, a) v = (if k' = k then Some x else v)"
  "effect k (PutWhen k' x wh ex u, AConditional None) v = v"
  "effect k (PutWhen k' x wh ex u, AConditional (Some w)) v = (if k' = k then Some x else v)"
  "effect k (Count k' d, ANumber n) v = (if k' = k then Some (dec_int n) else v)"
  "effect k (Count k' d, AUncounted bad) v = v"
  "effect k (Remove k', a) v = (if k' = k then None else v)"
  "effect k (Clear, a) v = None"
  "effect k (Get k', a) v = v" "effect k (Look k', a) v = v" "effect k (Contains k', a) v = v"
  "effect k (Deadline k', a) v = v" "effect k (Retime k' e, a) v = v" "effect k (Sweep b, a) v = v" "effect k (Tick s, a) v = v"
  by (simp_all add: effect_def)

definition last_write :: "bytes \<Rightarrow> (Call \<times> Answer) list \<Rightarrow> bytes option" where
  "last_write k h = fold (effect k) h None"

lemma purge_le: "purge now k m k' = Some x \<Longrightarrow> m k' = Some x"
  by (auto simp: purge_def split: option.splits if_splits)

lemma keepsD: "keeps k m m' \<Longrightarrow> m' k' = Some x \<Longrightarrow> m k' = Some x"
  unfolding keeps_def map_le_def by (metis domI)

lemma expire_cache_value: "expire_cache m k e k' = Some (x, e', u) \<Longrightarrow> \<exists>e''. m k' = Some (x, e'', u)"
  by (auto simp: expire_cache_def split: option.splits if_splits)

lemma counted_of_text: "counted_of m k delta = Inr (n, x, e, u) \<Longrightarrow> x = dec_int n"
  by (auto simp: counted_of_def split: option.splits prod.splits)

text \<open>A cache agrees with a value at a key: the key is gone, by expiry or eviction, or has that value.\<close>

definition agrees :: "bytes \<Rightarrow> bytes option \<Rightarrow> cache \<Rightarrow> bool" where
  "agrees k v m \<longleftrightarrow> (\<forall>x e u. m k = Some (x, e, u) \<longrightarrow> v = Some x)"

lemma agrees_sub:
  assumes "agrees k v m" "\<And>x e u. m' k = Some (x, e, u) \<Longrightarrow> \<exists>e' u'. m k = Some (x, e', u')"
  shows "agrees k v m'"
  using assms unfolding agrees_def by blast

lemma agrees_purge: "agrees k v m \<Longrightarrow> agrees k v (purge now k' m)"
  by (erule agrees_sub) (blast dest: purge_le)

lemma agrees_keeps: "agrees k v m \<Longrightarrow> keeps k' m m' \<Longrightarrow> agrees k v m'"
  by (erule agrees_sub) (blast dest: keepsD)

lemma agrees_upd: "agrees k v m \<Longrightarrow> agrees k (if k' = k then Some x else v) (m(k' \<mapsto> (x, e, u)))"
  by (simp add: agrees_def)

lemma step_agrees:
  assumes "cache_step now m c a now' m'" "agrees k v m"
  shows "agrees k (effect k (c, a) v) m'"
  using assms
proof (cases rule: cache_step.cases)
  case (put key x e u)
  then show ?thesis using agrees_keeps [OF agrees_upd [OF assms(2)]] by simp
next
  case (put_when m1 key wh x ex u)
  then show ?thesis using agrees_keeps [OF agrees_upd [OF agrees_purge [OF assms(2)]]] by simp
next
  case (put_not m1 key wh x ex u)
  then show ?thesis using agrees_keeps [OF agrees_purge [OF assms(2)]] by simp
next
  case (retime m1 key e1)
  have "agrees k v m1" using agrees_purge [OF assms(2)] retime(4) by simp
  then have "agrees k v (expire_cache m1 key e1)" by (rule agrees_sub) (blast dest: expire_cache_value)
  then show ?thesis using agrees_keeps retime by simp
next
  case (count m1 key delta n y)
  obtain x e u where y: "y = (x, e, u)" by (cases y)
  then have "x = dec_int n" using count(5) counted_of_text by simp
  then show ?thesis using agrees_keeps [OF agrees_upd [OF agrees_purge [OF assms(2)]]] count y by simp
next
  case (sweep budget removed)
  then show ?thesis using assms(2) by (auto simp: agrees_def map_le_def dom_def)
next
  case (remove key)
  then show ?thesis using assms(2) by (simp add: agrees_def)
next
  case clear
  then show ?thesis by (simp add: agrees_def)
qed (use assms(2) agrees_purge [OF assms(2)] in simp_all)

lemma history_agrees: "history now m h now' m' \<Longrightarrow> agrees k v m \<Longrightarrow> agrees k (fold (effect k) h v) m'"
proof (induction arbitrary: v rule: history.induct)
  case (call now m c a now1 m1 h now' m')
  then show ?case using step_agrees [OF call(1)] by simp
qed simp

inductive_cases step_getE: "cache_step now m (Get k) a now' m'"

section \<open>Implementations\<close>

text \<open>Playing calls one after another on an implementation, up to the first that is refused memory.\<close>

fun play :: "('e \<Rightarrow> Call \<Rightarrow> 's \<Rightarrow> (Answer \<times> 's) option) \<Rightarrow> ('e \<times> Call) list \<Rightarrow> 's \<Rightarrow> ((Call \<times> Answer) list \<times> 's) option" where
  "play exec [] s = Some ([], s)"
| "play exec ((e, c) # cs) s = do {
     (a, s) \<leftarrow> exec e c s;
     if a = ARefused then Some ([(c, a)], s)
     else do {
       (h, s) \<leftarrow> play exec cs s;
       Some ((c, a) # h, s) } }"

definition was_refused :: "(Call \<times> Answer) list \<Rightarrow> bool" where
  "was_refused h \<longleftrightarrow> ARefused \<in> snd ` set h"

lemma was_refused_simps [simp]: "\<not> was_refused []" "was_refused ((c, a) # h) \<longleftrightarrow> a = ARefused \<or> was_refused h"
  by (auto simp: was_refused_def)

locale cache_machine =
  fixes inv :: "'s \<Rightarrow> cache \<Rightarrow> bool"
    and now_at :: "'s \<Rightarrow> u32"
    and exec :: "'e \<Rightarrow> Call \<Rightarrow> 's \<Rightarrow> (Answer \<times> 's) option"
    and accepts :: "Call \<Rightarrow> bool"
  assumes simulates: "inv s m \<Longrightarrow> accepts c \<Longrightarrow>
    returns (exec e c s) (\<lambda>(a, s'). a = ARefused \<or> (\<exists>m'. cache_step (now_at s) m c a (now_at s') m' \<and> inv s' m'))"
begin

lemma plays:
  "inv s m \<Longrightarrow> list_all (accepts \<circ> snd) cs \<Longrightarrow>
   returns (play exec cs s) (\<lambda>(h, s'). was_refused h \<or>
     (map fst h = map snd cs \<and> (\<exists>m'. history (now_at s) m h (now_at s') m' \<and> inv s' m')))"
proof (induction cs arbitrary: s m)
  case Nil
  then show ?case by (auto intro: history.start)
next
  case (Cons ec cs)
  obtain e c where ec: "ec = (e, c)" by force
  obtain a s1 where a: "exec e c s = Some (a, s1)" "a = ARefused \<or> (\<exists>m'. cache_step (now_at s) m c a (now_at s1) m' \<and> inv s1 m')"
    using simulates [OF Cons.prems(1), of c e] Cons.prems(2) ec by (auto elim!: returnsE)
  show ?case
  proof (cases "a = ARefused")
    case True
    then show ?thesis using a ec by simp
  next
    case False
    then obtain m1 where m1: "cache_step (now_at s) m c a (now_at s1) m1" "inv s1 m1" using a(2) by blast
    from Cons.IH [OF m1(2)] Cons.prems(2) obtain h s2 where "play exec cs s1 = Some (h, s2)"
        "was_refused h \<or> (map fst h = map snd cs \<and> (\<exists>m'. history (now_at s1) m1 h (now_at s2) m' \<and> inv s2 m'))"
      by (auto elim!: returnsE)
    then show ?thesis using a(1) False ec m1(1) by (auto intro: history.call)
  qed
qed

lemma answers_last_write:
  assumes "inv s Map.empty" "list_all (accepts \<circ> snd) cs" "accepts (Get k)"
  shows "returns (play exec cs s) (\<lambda>(h, s'). was_refused h \<or>
    returns (exec e (Get k) s') (\<lambda>(a, s''). a = ARefused \<or> a = AValue None \<or> a = AValue (last_write k h)))"
proof -
  have read: "returns (exec e (Get k) s') (\<lambda>(a, s''). a = ARefused \<or> a = AValue None \<or> a = AValue (last_write k h))"
    if h: "history (now_at s) Map.empty h (now_at s') m'" and inv: "inv s' m'" for h s' m'
  proof -
    have m': "agrees k (last_write k h) m'"
      unfolding last_write_def by (rule history_agrees [OF h]) (simp add: agrees_def)
    have "a = AValue None \<or> a = AValue (last_write k h)" if "cache_step (now_at s') m' (Get k) a now'' m''" for a now'' m''
    proof -
      have "a = AValue (map_option fst (purge (now_at s') k m' k))" using that by (elim step_getE) simp
      then show ?thesis
        using agrees_purge [OF m', of "now_at s'" k] by (cases "purge (now_at s') k m' k") (auto simp: agrees_def)
    qed
    then show ?thesis by (intro returns_mono [OF simulates [OF inv assms(3), of e]]) auto
  qed
  show ?thesis by (rule returns_mono [OF plays [OF assms(1,2)]]) (use read in blast)
qed

end

text \<open>An implementation that also counts its entries.\<close>

locale counted_machine = cache_machine +
  fixes size_of :: "'a \<Rightarrow> nat"
  assumes counts: "inv s m \<Longrightarrow> finite (dom m) \<and> size_of s = card (dom m)"
begin

lemma plays_counted:
  assumes "inv s m" "list_all (accepts \<circ> snd) cs"
  shows "returns (play exec cs s) (\<lambda>(h, s'). was_refused h \<or>
    (map fst h = map snd cs \<and> (\<exists>m'. history (now_at s) m h (now_at s') m' \<and> inv s' m' \<and> size_of s' = card (dom m'))))"
  by (rule returns_mono [OF plays [OF assms]]) (use counts in blast)

end

section \<open>The map is one\<close>

definition answering :: "('r \<Rightarrow> Answer) \<Rightarrow> ('r \<times> Map) option \<Rightarrow> (Answer \<times> Map) option" where
  "answering f = map_option (\<lambda>(r, Mp). (f r, Mp))"

text \<open>The operations of the map by call. What the system decides of each call is given with it.\<close>

definition map_exec :: "Platform \<Rightarrow> target \<Rightarrow> bool \<times> (nat \<Rightarrow> Capacities) \<Rightarrow> Call \<Rightarrow> Map \<Rightarrow> (Answer \<times> Map) option" where
  "map_exec p t given c Mp =
     (let ev = \<lparr> env_target = t, env_platform = p, env_grants = fst given, env_caps = snd given \<rparr>
      in case c of
        Get k \<Rightarrow> answering AValue (map_get ev Mp k)
      | Look k \<Rightarrow> answering AView (map_view ev Mp k)
      | Contains k \<Rightarrow> answering AThere (map_contains ev Mp k)
      | Deadline k \<Rightarrow> answering ADeadline (map_deadline ev Mp k)
      | Remove k \<Rightarrow> answering AThere (map_remove ev Mp k)
      | Put k x e u \<Rightarrow> answering (case_sum (\<lambda>_. ARefused) AWrote) (map_set ev Mp k x e u)
      | PutWhen k x wh ex u \<Rightarrow> answering (case_sum (\<lambda>_. ARefused) AConditional) (map_set_when ev Mp k x wh ex u)
      | Retime k e \<Rightarrow> answering (case_sum (\<lambda>_. ARefused) AChanged) (map_expire ev Mp k e)
      | Count k delta \<Rightarrow> answering (case_sum (\<lambda>e. if e = UncountedFull then ARefused else AUncounted e) ANumber) (map_increment ev Mp k delta)
      | Clear \<Rightarrow> map_option (\<lambda>Mp. (ACleared, Mp)) (map_clear ev Mp)
      | Sweep budget \<Rightarrow> answering ASwept (map_sweep ev Mp budget)
      | Tick since \<Rightarrow> (let (now, ck) = clock_tick since (mp_clock Mp) in Some (ATicked now, Mp\<lparr> mp_clock := ck \<rparr>)))"

fun call_fits :: "Call \<Rightarrow> bool" where
  "call_fits (Put k x _ _) = (fits (length k) \<and> fits (length x))"
| "call_fits (PutWhen k x _ _ _) = (fits (length k) \<and> fits (length x))"
| "call_fits (Count k _) = fits (length k)"
| "call_fits _ = True"

lemma returns_answering [simp]: "returns (answering f m) Q \<longleftrightarrow> returns m (\<lambda>(r, Mp). Q (f r, Mp))"
  by (cases m) (auto simp: answering_def)

lemma wrote_keeps: "map_wrote p t Mp k m Mp' \<Longrightarrow> \<exists>m'. keeps k m m' \<and> map_inv p t Mp' m'"
  by (auto simp: map_wrote_def keeps_def)

lemma write_post_keeps:
  "write_post p t Mp k hard me mw (r, Mp') \<Longrightarrow> r = Inr x \<Longrightarrow> map_now Mp' = map_now Mp \<and> (\<exists>m'. keeps k (mw x) m' \<and> map_inv p t Mp' m')"
  by (auto simp: write_post_def framed_now dest!: wrote_keeps)

text \<open>One call does a step of the cache, or was refused memory.\<close>

definition simulates :: "Platform \<Rightarrow> target \<Rightarrow> bool \<times> (nat \<Rightarrow> Capacities) \<Rightarrow> Call \<Rightarrow> Map \<Rightarrow> cache \<Rightarrow> bool" where
  "simulates p t given c Mp m \<longleftrightarrow> returns (map_exec p t given c Mp) (\<lambda>(a, Mp'). a = ARefused \<or>
     (\<exists>m'. cache_step (map_now Mp) m c a (map_now Mp') m' \<and> map_inv p t Mp' m'))"

lemma put_simulates:
  assumes "map_inv p t Mp m" "call_fits (Put k x e u)"
  shows "simulates p t given (Put k x e u) Mp m"
proof -
  let ?ev = "\<lparr> env_target = t, env_platform = p, env_grants = fst given, env_caps = snd given \<rparr>"
  have inv: "map_inv (env_platform ?ev) (env_target ?ev) Mp m" using assms(1) by simp
  obtain r Mp' where r: "map_set ?ev Mp k x e u = Some (r, Mp')" "write_post p t Mp k (\<lambda>_. True) m (\<lambda>_. m(k \<mapsto> (x, e, u))) (r, Mp')"
    "\<forall>w. r = Inr w \<longrightarrow> w = (if m k = None then Inserted else Replaced)"
    using map_set_spec [OF inv, of k x e u] assms(2) by (auto elim!: returnsE)
  show ?thesis
  proof (cases r)
    case (Inr w)
    obtain m' where m': "map_now Mp' = map_now Mp" "keeps k (m(k \<mapsto> (x, e, u))) m'" "map_inv p t Mp' m'" using write_post_keeps [OF r(2) Inr] by blast
    have "cache_step (map_now Mp) m (Put k x e u) (AWrote w) (map_now Mp') m'" using r(3) Inr cache_step.put [OF m'(2)] unfolding m'(1) by simp
    then show ?thesis using r(1) Inr m'(3) by (auto simp: simulates_def map_exec_def answering_def)
  qed (use r(1) in \<open>simp add: simulates_def map_exec_def answering_def\<close>)
qed

lemma put_when_simulates:
  assumes "map_inv p t Mp m" "call_fits (PutWhen k x wh ex u)"
  shows "simulates p t given (PutWhen k x wh ex u) Mp m"
proof -
  let ?ev = "\<lparr> env_target = t, env_platform = p, env_grants = fst given, env_caps = snd given \<rparr>"
  have inv: "map_inv (env_platform ?ev) (env_target ?ev) Mp m" using assms(1) by simp
  let ?m = "purge (map_now Mp) k m"
  obtain r Mp' where r: "map_set_when ?ev Mp k x wh ex u = Some (r, Mp')"
    "write_post p t Mp k (\<lambda>_. True) ?m (\<lambda>y. if y = None then ?m else ?m(k \<mapsto> (x, set_when_expiry ?m k ex, u))) (r, Mp')"
    "\<forall>y. r = Inr y \<longrightarrow> y = (if set_when_allowed ?m k wh then Some (if ?m k = None then Inserted else Replaced) else None)"
    using map_set_when_spec [OF inv, of k x wh ex u] assms(2) by (auto elim!: returnsE)
  show ?thesis
  proof (cases r)
    case (Inl e)
    then show ?thesis using r(1) by (simp add: simulates_def map_exec_def answering_def)
  next
    case (Inr y)
    have now: "map_now Mp' = map_now Mp" using r(2) by (simp add: write_post_def framed_now)
    obtain m' where m': "keeps k (if y = None then ?m else ?m(k \<mapsto> (x, set_when_expiry ?m k ex, u))) m'" "map_inv p t Mp' m'"
      using write_post_keeps [OF r(2) Inr] by blast
    have "cache_step (map_now Mp) m (PutWhen k x wh ex u) (AConditional y) (map_now Mp') m'"
    proof (cases "set_when_allowed ?m k wh")
      case True
      then have y: "y = Some (if ?m k = None then Inserted else Replaced)" using r(3) Inr by simp
      then have "keeps k (?m(k \<mapsto> (x, set_when_expiry ?m k ex, u))) m'" using m'(1) by simp
      from cache_step.put_when [OF refl True this] show ?thesis unfolding now y .
    next
      case False
      then have y: "y = None" using r(3) Inr by simp
      then have "keeps k ?m m'" using m'(1) by simp
      from cache_step.put_not [OF refl False this] show ?thesis unfolding now y .
    qed
    then show ?thesis using r(1) Inr m'(2) by (auto simp: simulates_def map_exec_def answering_def)
  qed
qed

lemma retime_simulates:
  assumes "map_inv p t Mp m"
  shows "simulates p t given (Retime k e) Mp m"
proof -
  let ?ev = "\<lparr> env_target = t, env_platform = p, env_grants = fst given, env_caps = snd given \<rparr>"
  have inv: "map_inv (env_platform ?ev) (env_target ?ev) Mp m" using assms(1) by simp
  let ?m = "purge (map_now Mp) k m"
  obtain r Mp' where r: "map_expire ?ev Mp k e = Some (r, Mp')" "write_post p t Mp k (\<lambda>_. True) ?m (\<lambda>_. expire_cache ?m k e) (r, Mp')"
    "\<forall>b. r = Inr b \<longrightarrow> b = (?m k \<noteq> None)"
    using map_expire_spec [OF inv, of k e] by (auto elim!: returnsE)
  show ?thesis
  proof (cases r)
    case (Inr b)
    obtain m' where m': "map_now Mp' = map_now Mp" "keeps k (expire_cache ?m k e) m'" "map_inv p t Mp' m'" using write_post_keeps [OF r(2) Inr] by blast
    have "cache_step (map_now Mp) m (Retime k e) (AChanged b) (map_now Mp') m'"
      using r(3) Inr cache_step.retime [OF refl m'(2)] unfolding m'(1) by (simp del: not_None_eq)
    then show ?thesis using r(1) Inr m'(3) by (auto simp: simulates_def map_exec_def answering_def)
  qed (use r(1) in \<open>simp add: simulates_def map_exec_def answering_def\<close>)
qed

lemma count_simulates:
  assumes "map_inv p t Mp m" "call_fits (Count k delta)"
  shows "simulates p t given (Count k delta) Mp m"
proof -
  let ?ev = "\<lparr> env_target = t, env_platform = p, env_grants = fst given, env_caps = snd given \<rparr>"
  have inv: "map_inv (env_platform ?ev) (env_target ?ev) Mp m" using assms(1) by simp
  let ?m = "purge (map_now Mp) k m"
  obtain r Mp' where r: "map_increment ?ev Mp k delta = Some (r, Mp')"
    "write_post p t Mp k (\<lambda>e. e = UncountedFull) ?m (\<lambda>_. case counted_of ?m k delta of Inr (_, x) \<Rightarrow> ?m(k \<mapsto> x) | Inl _ \<Rightarrow> ?m) (r, Mp')"
    "case counted_of ?m k delta of Inl e \<Rightarrow> r = Inl e | Inr (n, _) \<Rightarrow> r = Inl UncountedFull \<or> r = Inr n"
    using map_increment_spec [OF inv, of k delta] assms(2) by (auto elim!: returnsE)
  have now: "map_now Mp' = map_now Mp" using r(2) by (simp add: write_post_def framed_now)
  show ?thesis
  proof (cases r)
    case (Inl e)
    then have "map_inv p t Mp' ?m \<and> cache_step (map_now Mp) m (Count k delta) (AUncounted e) (map_now Mp') ?m" if "e \<noteq> UncountedFull"
      using that r(2,3) cache_step.count_not [OF refl, of "map_now Mp" k m delta e] unfolding now
      by (auto simp: write_post_def split: sum.splits prod.splits)
    then show ?thesis using r(1) Inl by (auto simp: simulates_def map_exec_def answering_def)
  next
    case (Inr n)
    then obtain x where x: "counted_of ?m k delta = Inr (n, x)" using r(3) by (auto split: sum.splits prod.splits)
    obtain m' where m': "keeps k (?m(k \<mapsto> x)) m'" "map_inv p t Mp' m'" using write_post_keeps [OF r(2) Inr] x by auto
    have "cache_step (map_now Mp) m (Count k delta) (ANumber n) (map_now Mp') m'" using cache_step.count [OF refl x m'(1)] unfolding now .
    then show ?thesis using r(1) Inr m'(2) by (auto simp: simulates_def map_exec_def answering_def)
  qed
qed

lemma map_exec_simulates:
  assumes "map_inv p t Mp m" "call_fits c"
  shows "returns (map_exec p t given c Mp) (\<lambda>(a, Mp'). a = ARefused \<or>
    (\<exists>m'. cache_step (map_now Mp) m c a (map_now Mp') m' \<and> map_inv p t Mp' m'))"
proof -
  let ?ev = "\<lparr> env_target = t, env_platform = p, env_grants = fst given, env_caps = snd given \<rparr>"
  have inv: "map_inv (env_platform ?ev) (env_target ?ev) Mp m" using assms(1) by simp
  show ?thesis
  proof (cases c)
    case (Get k)
    then show ?thesis using map_get_spec [OF inv, of k] by (auto simp: map_exec_def framed_now elim!: returns_mono
        intro!: exI [of _ "purge (map_now Mp) k m"] cache_step.get [OF refl])
  next
    case (Look k)
    then show ?thesis using map_view_spec [OF inv, of k] by (auto simp: map_exec_def framed_now elim!: returns_mono
        intro!: exI [of _ "purge (map_now Mp) k m"] cache_step.look [OF refl])
  next
    case (Contains k)
    then show ?thesis using map_contains_spec [OF inv, of k] by (auto simp: map_exec_def framed_now simp del: not_None_eq elim!: returns_mono
        intro!: exI [of _ "purge (map_now Mp) k m"] cache_step.contains [OF refl])
  next
    case (Deadline k)
    then show ?thesis using map_deadline_spec [OF inv, of k] by (auto simp: map_exec_def framed_now elim!: returns_mono
        intro!: exI [of _ "purge (map_now Mp) k m"] cache_step.deadline [OF refl])
  next
    case (Remove k)
    then show ?thesis using map_remove_spec [OF inv, of k] by (auto simp: map_exec_def framed_now simp del: not_None_eq elim!: returns_mono
        intro!: exI [of _ "m(k := None)"] cache_step.remove)
  next
    case (Put k x e u)
    then show ?thesis using put_simulates assms by (simp add: simulates_def)
  next
    case Clear
    then show ?thesis using map_clear_spec [OF inv] by (auto simp: map_exec_def framed_now elim!: returnsE intro!: exI [of _ Map.empty] cache_step.clear)
  next
    case (Sweep budget)
    then show ?thesis
      using map_sweep_spec [OF inv, of budget] by (auto simp: map_exec_def map_swept_def elim!: returns_mono intro!: cache_step.sweep)
  next
    case (Tick since)
    then show ?thesis
      using assms(1) cache_step.tick [of "map_now Mp" m since] by (auto simp: map_exec_def clock_tick_def Let_def clock_now_def map_inv_clock)
  next
    case (PutWhen k x wh ex u)
    then show ?thesis using put_when_simulates assms by (simp add: simulates_def)
  next
    case (Retime k e)
    then show ?thesis using retime_simulates assms by (simp add: simulates_def)
  next
    case (Count k delta)
    then show ?thesis using count_simulates assms by (simp add: simulates_def)
  qed
qed

interpretation mapc: counted_machine "map_inv p t" "\<lambda>Mp. map_now Mp" "map_exec p t" call_fits map_len for p t
  by unfold_locales (use map_exec_simulates map_len_spec in auto)

section \<open>Properties\<close>

text \<open>A platform, what it grants, and some calls.\<close>

abbreviation some_platform :: Platform where
  "some_platform \<equiv> \<lparr> lazy = True, page = 4096 \<rparr>"

lemma some_platform_ok: "platform_ok some_platform"
  by (simp add: platform_ok_def granule_def)

definition some_grant :: "bool \<times> (nat \<Rightarrow> Capacities)" where
  "some_grant = (True, \<lambda>i. \<lparr> cap_tail = 0, cap_large = 0, cap_large_free = 0, cap_free = 0 \<rparr>)"

definition some_calls :: "((bool \<times> (nat \<Rightarrow> Capacities)) \<times> Call) list" where
  "some_calls = map (Pair some_grant) [Put [107] [55] (Some 9) None, Count [107] 35, Tick (Some 9), Get [107], Sweep 8]"

lemma some_calls_fit: "list_all (call_fits \<circ> snd) some_calls"
  by (simp add: some_calls_def fits_def)

text \<open>
  C7: The sharded map simulates the abstract cache. From any state that represents a cache, every operation
  of the map returns; unless it is refused memory, its answer and the cache it leaves are a step of the
  abstract machine, with reads dropping exactly the entry that has expired, conditional writes,
  expiries and counters doing what they say, and a write able to push out other entries but never
  its own.
\<close>

theorem map_simulates_cache:
  assumes "map_inv p t Mp m" "call_fits c"
  shows "returns (map_exec p t given c Mp) (\<lambda>(a, Mp'). a = ARefused \<or>
    (\<exists>m'. cache_step (map_now Mp) m c a (map_now Mp') m' \<and> map_inv p t Mp' m'))"
  by (rule mapc.simulates [OF assms])

theorem map_simulates_cache_witness:
  "returns (map_exec some_platform Sse2 some_grant (Put [107] [55] (Some 9) None) (map_with_seed 8 0 5 (Some 3))) (\<lambda>(a, Mp'). a = ARefused \<or>
    (\<exists>m'. cache_step (map_now (map_with_seed 8 0 5 (Some 3))) Map.empty (Put [107] [55] (Some 9) None) a (map_now Mp') m' \<and>
       map_inv some_platform Sse2 Mp' m'))"
  by (rule map_simulates_cache [OF map_new_spec [OF some_platform_ok]]) (simp add: fits_def)

text \<open>
  C8: The invariant holds at every moment of every history. A map made with any number of shards, any
  ceiling and any seed returns from every sequence of calls; up to the first refusal of memory the
  answers are a history of the abstract cache from empty, the map represents the cache at its end,
  and the length it reports is the number of entries there.
\<close>

theorem map_histories:
  assumes "platform_ok p" "list_all (call_fits \<circ> snd) cs"
  shows "returns (play (map_exec p t) cs (map_with_seed n mx sd since)) (\<lambda>(h, Mp'). was_refused h \<or>
    (map fst h = map snd cs \<and>
     (\<exists>m'. history (map_now (map_with_seed n mx sd since)) Map.empty h (map_now Mp') m' \<and> map_inv p t Mp' m' \<and> map_len Mp' = card (dom m'))))"
  by (rule mapc.plays_counted [OF map_new_spec [OF assms(1)] assms(2)])

theorem map_histories_witness:
  "returns (play (map_exec some_platform Neon) some_calls (map_with_seed 8 4096 5 (Some 3))) (\<lambda>(h, Mp'). was_refused h \<or>
    (map fst h = map snd some_calls \<and>
     (\<exists>m'. history (map_now (map_with_seed 8 4096 5 (Some 3))) Map.empty h (map_now Mp') m' \<and> map_inv some_platform Neon Mp' m' \<and>
        map_len Mp' = card (dom m'))))"
  by (rule map_histories [OF some_platform_ok some_calls_fit])

text \<open>
  C9: A read answers the last write or nothing: after any calls on a new map that were not refused memory,
  a read of a key returns, and answers either no value (the key was never written, was removed or
  cleared, has expired or was evicted) or exactly the value that the last put, conditional put that
  wrote, or counter on that key left, as the calls and their answers tell; a key removed or a map
  cleared since then reads as nothing.
\<close>

theorem reads_answer_what_was_written:
  assumes "platform_ok p" "list_all (call_fits \<circ> snd) cs"
  shows "returns (play (map_exec p t) cs (map_with_seed n mx sd since)) (\<lambda>(h, Mp'). was_refused h \<or>
    returns (map_exec p t given (Get k) Mp') (\<lambda>(a, Mp''). a = AValue None \<or> a = AValue (last_write k h)))"
proof -
  have "a \<noteq> ARefused" if "map_exec p t given (Get k) Mp' = Some (a, Mp'')" for a Mp' Mp''
    using that by (auto simp: map_exec_def answering_def)
  then show ?thesis
    by (intro returns_mono [OF mapc.answers_last_write [OF map_new_spec [OF assms(1)] assms(2), where k = k and e = given and t = t]])
      (auto elim!: returnsE)
qed

theorem reads_answer_what_was_written_witness:
  "returns (play (map_exec some_platform Portable) some_calls (map_with_seed 1 0 5 (Some 3))) (\<lambda>(h, Mp'). was_refused h \<or>
    returns (map_exec some_platform Portable some_grant (Get [107]) Mp')
      (\<lambda>(a, Mp''). a = AValue None \<or> a = AValue (last_write [107] h)))"
  by (rule reads_answer_what_was_written [OF some_platform_ok some_calls_fit])

end
