(* ===== verification/Rugo_Memory.thy ===== *)
theory Rugo_Memory
  imports Rugo_Store
begin

text \<open>
  The properties of the slab allocator, \<^verbatim>\<open>crates/rugo-arena/src/lib.rs\<close>, read off the interpretation of
  \<open>block_store\<close>, and the run that shows why a refusal of memory leaves less than the invariant.
\<close>

section \<open>Blocks are apart\<close>

text \<open>
  C10: Blocks handed out by the arena never overlap and never move. From any state in order an allocation
  of any length returns; the reference it gives names no block in use, every other block still reads
  the same, and the arena is in order with the new block among the others; when it is refused, every
  block in use still reads the same.
\<close>

theorem alloc_keeps_blocks:
  assumes "arena_holds p A M"
  shows "returns (alloc p os A len) (\<lambda>(r, A').
    (\<forall>at bs. M at = Some bs \<longrightarrow> arena_get A' at (length bs) = Some bs) \<and>
    (case r of
       Inl _ \<Rightarrow> True
     | Inr new \<Rightarrow> M new = None \<and> (\<exists>bs. length bs = len \<and> arena_holds p A' (M(new \<mapsto> bs)) \<and> arena_get A' new len = Some bs)))"
proof (rule returns_mono [OF ar.alloc_law [OF assms, of os len]])
  fix x assume x: "case x of (r, A') \<Rightarrow> case r of Inl _ \<Rightarrow> arena_readable A' M
      | Inr at \<Rightarrow> M at = None \<and> (\<exists>bs. length bs = len \<and> arena_holds p A' (M(at \<mapsto> bs)))"
  obtain r A' where ra: "x = (r, A')" by force
  show "case x of (r, A') \<Rightarrow> (\<forall>at bs. M at = Some bs \<longrightarrow> arena_get A' at (length bs) = Some bs) \<and>
    (case r of Inl _ \<Rightarrow> True
     | Inr new \<Rightarrow> M new = None \<and> (\<exists>bs. length bs = len \<and> arena_holds p A' (M(new \<mapsto> bs)) \<and> arena_get A' new len = Some bs))"
  proof (cases r)
    case (Inl e)
    then show ?thesis using x ra ar.get_law by fastforce
  next
    case (Inr new)
    then obtain bs where bs: "M new = None" "length bs = len" "arena_holds p A' (M(new \<mapsto> bs))" using x ra by auto
    note rd = ar.holds_readable [OF bs(3)]
    have "arena_get A' new len = Some bs" using ar.get_law [OF rd, of new bs] bs(2) by simp
    moreover have "arena_get A' at (length b) = Some b" if "M at = Some b" for at b
      using ar.get_law [OF rd, of at b] that bs(1) by (cases "at = new") auto
    ultimately show ?thesis using bs ra Inr by auto
  qed
qed

theorem alloc_keeps_blocks_witness:
  "returns (alloc \<lparr> lazy = True, page = 4096 \<rparr> True arena_new 24) (\<lambda>(r, A').
    (\<forall>at bs. (Map.empty :: blocks) at = Some bs \<longrightarrow> arena_get A' at (length bs) = Some bs) \<and>
    (case r of
       Inl _ \<Rightarrow> True
     | Inr new \<Rightarrow> (Map.empty :: blocks) new = None \<and>
         (\<exists>bs. length bs = 24 \<and> arena_holds \<lparr> lazy = True, page = 4096 \<rparr> A' (Map.empty(new \<mapsto> bs)) \<and> arena_get A' new 24 = Some bs)))"
  by (rule alloc_keeps_blocks, rule arena_new_holds) (simp add: platform_ok_def granule_def)

section \<open>A block given out twice\<close>

abbreviation mmap :: Platform where
  "mmap \<equiv> \<lparr> lazy = True, page = 4096 \<rparr>"

fun alloc_all :: "Arena \<Rightarrow> nat list \<Rightarrow> Arena option" where
  "alloc_all A [] = Some A"
| "alloc_all A (len # lens) = do {
     (r, A) \<leftarrow> alloc mmap True A len;
     (case r of Inl _ \<Rightarrow> None | Inr _ \<Rightarrow> alloc_all A lens) }"

text \<open>One segment with its first \<open>n\<close> units cut, and nothing freed.\<close>

definition blank :: bytes where
  "blank = replicate (2 ^ 20) 0"

definition packed :: "nat \<Rightarrow> Arena" where
  "packed n = \<lparr> ar_head = [blank, [], [], []], ar_tail = [], ar_made = 1, ar_seg = 0, ar_off = of_nat n,
     ar_free = replicate 512 NONE, ar_large = [], ar_large_free = [], ar_live = n * 4, ar_dead = 0, ar_large_live = 0, ar_segment_bytes = 2 ^ 20 \<rparr>"

lemma length_blank [simp]: "length blank = 1048576"
  by (simp add: blank_def)

lemma blank_not_nil [simp]: "blank \<noteq> []"
  by (simp add: blank_def)

lemma packed_first: "alloc mmap True arena_new 2048 = Some (Inr 0, packed 512)"
proof -
  have size: "next_segment_size mmap 0 = 1048576" by (simp add: next_segment_size_def GROWTH_def MIN_SEGMENT_def MAX_SEGMENT_def next_multiple_of_def)
  have "segment_new mmap True 1048576 = Some blank"
    by (simp add: segment_new_def next_multiple_of_def granule_def blank_def)
  then have grown: "grow mmap True A = Some (Inr (), A\<lparr> ar_segment_bytes := 1048576, ar_head := [blank, [], [], []], ar_seg := 0, ar_made := 1, ar_off := 0 \<rparr>)"
    if "ar_made A = 0" "ar_segment_bytes A = 0" "ar_head A = [[], [], [], []]" for A
    using that size by (simp add: grow_def MAX_SEGMENTS_def SEG_BITS_def set_idx_def narrow_def)
  have new: "arena_new = \<lparr> ar_head = [[], [], [], []], ar_tail = [], ar_made = 0, ar_seg = 0, ar_off = 0,
     ar_free = [], ar_large = [], ar_large_free = [], ar_live = 0, ar_dead = 0, ar_large_live = 0, ar_segment_bytes = 0 \<rparr>"
    by (simp add: arena_new_def segment_empty_def numeral_eq_Suc)
  show ?thesis
    unfolding new by (simp add: alloc_def class_of_def segment_def idx_def narrow_def grown packed_def ref_make_def Let_def)
qed

lemma unat_small: "n \<le> 262144 \<Longrightarrow> unat (of_nat n :: u32) = n"
  by (simp add: unat_of_nat take_bit_nat_eq_self)

lemma packed_bump:
  assumes "0 < k" "k \<le> 512" "n + k \<le> 262144"
  shows "alloc mmap os (packed n) (4 * k) = Some (Inr (ref_make 0 (of_nat n)), packed (n + k))"
proof -
  have cls: "class_of (4 * k) = Some (k - 1)" using assms(1,2) by (simp add: class_of_def)
  have k: "k - 1 < 512" "k - 1 + 1 = k" using assms(1,2) by simp_all
  have "unat (of_nat n :: u32) = n" "unat (of_nat k :: u32) = k" using assms by (simp_all add: unat_small)
  moreover have "unat (of_nat 262144 :: u32) = 262144" by (rule unat_small) simp
  moreover have "\<not> 262144 - n < k" using assms(3) by simp
  ultimately show ?thesis
    using assms cls k by (simp add: alloc_def packed_def segment_def idx_def usub_def narrow_def Let_def add_mult_distrib add.commute)
qed

lemma packed_many: "n + 512 * j \<le> 262144 \<Longrightarrow> alloc_all (packed n) (replicate j 2048 @ lens) = alloc_all (packed (n + 512 * j)) lens"
proof (induction j arbitrary: n)
  case (Suc j)
  have "alloc mmap True (packed n) 2048 = Some (Inr (ref_make 0 (of_nat n)), packed (n + 512))"
    using packed_bump [of 512 n True] Suc.prems by simp
  then show ?case using Suc.IH [of "n + 512"] Suc.prems by (simp add: add.assoc)
qed simp

text \<open>The last four bytes of the segment, and the arena once they are on the free list of their class.\<close>

definition tail :: Ref where
  "tail = 262143"

definition tail_freed :: Arena where
  "tail_freed = (packed 262143)\<lparr> ar_head := [splice blank 1048572 (u32_to_le_bytes NONE), [], [], []], ar_free := (replicate 512 NONE)[0 := tail], ar_dead := 4 \<rparr>"

lemma unat_tail: "unat tail = 262143" "unat (262144 :: u32) = 262144" "unat (262143 :: u32) = 262143"
  using unat_small [of 262143] unat_small [of 262144] by (simp_all add: tail_def)

lemma ref_make_0: "ref_make 0 x = x"
  by (simp add: ref_make_def)

lemma place_tail: "place tail = (0, 1048572)"
  by (simp add: place_eq ref_seg_def ref_off_def unat_tail)

lemma tail_not_none: "tail \<noteq> NONE"
proof -
  have "unat NONE = 4294967295" by (simp add: NONE_def unsigned_minus_1_eq_mask mask_eq_exp_minus_1)
  then show ?thesis using unat_tail(1) by auto
qed

lemmas tail_facts = unat_tail ref_make_0 place_tail tail_not_none

lemma spliced_length: "length (splice blank 1048572 (u32_to_le_bytes NONE)) = 1048576"
  by simp

lemma spliced_not_nil: "splice blank 1048572 (u32_to_le_bytes NONE) \<noteq> []"
  using spliced_length by (metis length_0_conv zero_neq_numeral)

lemma refused_leaves_tail_freed: "alloc mmap False (packed 262143) 8 = Some (Inl Memory, tail_freed)"
proof -
  have push: "push_free (packed 262143) tail 4 = Some tail_freed"
    by (simp add: push_free_def usub_def idx_def set_next_free_def tail_facts segment_def packed_def copy_into_def segment_mut_def set_idx_def tail_freed_def Let_def)
  have "grow mmap False tail_freed = Some (Inl Memory, tail_freed)"
    by (simp add: grow_def tail_freed_def packed_def segment_new_def MAX_SEGMENTS_def SEG_BITS_def)
  moreover have "ar_seg (packed 262143) = 0" "ar_off (packed 262143) = 262143" by (simp_all add: packed_def)
  ultimately show ?thesis
    using tail_facts push [unfolded tail_def] by (simp add: alloc_def class_of_def Let_def idx_def segment_def usub_def narrow_def) (simp add: packed_def)
qed

text \<open>
  C28: When the system refuses a segment the arena forgets that it has put the tail of the last segment on a
  free list: the same block is then given out twice. A shard that has cut all but four bytes of its
  first segment is asked for eight and is refused; the next two requests for four bytes, both
  granted, are answered with the same reference.
\<close>

theorem refused_growth_gives_a_block_twice:
  "\<exists>A A1 A2 A3 r. alloc_all arena_new (replicate 511 2048 @ [2044]) = Some A \<and>
     alloc mmap False A 8 = Some (Inl Memory, A1) \<and>
     alloc mmap True A1 4 = Some (Inr r, A2) \<and>
     alloc mmap True A2 4 = Some (Inr r, A3)"
proof -
  let ?A = "packed 262143"
  have "replicate 511 2048 = (2048 :: nat) # replicate 510 2048" by (simp add: numeral_eq_Suc)
  then have "alloc_all arena_new (replicate 511 2048 @ [2044]) = alloc_all (packed 512) (replicate 510 2048 @ [2044])"
    using packed_first by simp
  also have "\<dots> = alloc_all (packed 261632) [2044]" using packed_many [of 512 510 "[2044]"] by simp
  also have "\<dots> = Some ?A" using packed_bump [of 511 261632 True] by simp
  finally have A: "alloc_all arena_new (replicate 511 2048 @ [2044]) = Some ?A" .
  have "drop 1048572 (splice blank 1048572 (u32_to_le_bytes NONE)) = u32_to_le_bytes NONE" by (simp add: splice_def)
  then have "next_free tail_freed tail = Some NONE"
    by (simp add: next_free_def place_tail segment_def idx_def tail_freed_def slice_def)
  then have first: "alloc mmap True tail_freed 4 = Some (Inr tail, tail_freed\<lparr> ar_free := (replicate 512 NONE)[0 := NONE], ar_dead := 0, ar_live := 1048576 \<rparr>)"
    using tail_not_none by (simp add: alloc_def class_of_def Let_def idx_def set_idx_def usub_def) (simp add: tail_freed_def packed_def)
  have "\<exists>A3. alloc mmap True (tail_freed\<lparr> ar_free := (replicate 512 NONE)[0 := NONE], ar_dead := 0, ar_live := 1048576 \<rparr>) 4 = Some (Inr tail, A3)"
    using tail_facts spliced_not_nil by (simp add: alloc_def class_of_def Let_def idx_def segment_def usub_def narrow_def tail_freed_def packed_def tail_def)
  then show ?thesis using A first refused_leaves_tail_freed by blast
qed

end
