(* ===== verification/Rugo_Setup.thy ===== *)
theory Rugo_Setup
  imports Rugo_Config Rugo_Sharded
begin

text \<open>
  What a configuration that came out of \<^verbatim>\<open>Config::parse\<close> may hold, and what the map made of it is.
\<close>

definition config_ok :: "Config \<Rightarrow> bool" where
  "config_ok c \<longleftrightarrow> 1 \<le> cf_threads c \<and> cf_threads c < 2 ^ 64 \<and> cf_maxmemory c < 2 ^ 64 \<and>
     (case cf_port c of Some n \<Rightarrow> n < 2 ^ 16 | None \<Rightarrow> True)"

abbreviation fits_bits :: "nat \<Rightarrow> int \<Rightarrow> int option" where
  "fits_bits bits \<equiv> (\<lambda>v. if 0 \<le> v \<and> v < 2 ^ bits then Some v else None)"

lemma parse_digits_bound:
  "parse_digits (fits_bits bits) neg ds acc = Some n \<Longrightarrow> 0 \<le> acc \<Longrightarrow> acc < 2 ^ bits \<Longrightarrow> 0 \<le> n \<and> n < 2 ^ bits"
  by (induction ds arbitrary: acc) (auto simp: bind_eq_Some_conv split: if_splits)

lemma parse_unsigned_bound: "parse_unsigned bits txt = Some n \<Longrightarrow> n < 2 ^ bits"
proof -
  have digits: "0 \<le> v \<and> v < 2 ^ bits" if "parse_digits (fits_bits bits) neg ds 0 = Some v" for neg ds v
    by (rule parse_digits_bound [OF that]) simp_all
  have "0 \<le> v \<and> v < 2 ^ bits" if "parse_int (fits_bits bits) False txt = Some v" for v
  proof (cases "txt")
    case (Cons x xs)
    then show ?thesis using that unfolding parse_int_def Cons list.case by (auto split: if_split_asm dest: digits simp del: parse_digits.simps)
  qed (use that in \<open>simp add: parse_int_def\<close>)
  note bound = this
  assume "parse_unsigned bits txt = Some n"
  then obtain v where v: "parse_int (fits_bits bits) False txt = Some v" "n = nat v" by (auto simp: parse_unsigned_def)
  show "n < 2 ^ bits" using bound [OF v(1)] unfolding v(2) by (simp add: nat_less_iff)
qed

lemma config_number_bound: "config_number bits txt flag = Inr n \<Longrightarrow> n < 2 ^ bits"
  by (auto simp: config_number_def parse_unsigned_bound split: option.splits)

lemma config_bytes_bound: "config_bytes txt = Inr n \<Longrightarrow> n < 2 ^ 64"
  by (auto simp: config_bytes_def Let_def usize_MAX_def split: option.splits prod.splits if_splits)

lemma default_ok: "1 \<le> cores \<Longrightarrow> cores < 2 ^ 64 \<Longrightarrow> config_ok (config_default cores)"
  by (simp add: config_ok_def config_default_def DEFAULT_PORT_def)

lemma config_ok_updates:
  assumes "config_ok c"
  shows "config_number 16 v f = Inr n \<Longrightarrow> config_ok (c\<lparr> cf_port := Some n \<rparr>)"
    and "config_number 64 v f = Inr n \<Longrightarrow> config_ok (c\<lparr> cf_threads := max n 1 \<rparr>)"
    and "config_bytes v = Inr n \<Longrightarrow> config_ok (c\<lparr> cf_maxmemory := n \<rparr>)"
    and "config_ok (c\<lparr> cf_unixsocket := path \<rparr>)" "config_ok (c\<lparr> cf_uring := u \<rparr>)" "config_ok (c\<lparr> cf_shards := k \<rparr>)" "config_ok (c\<lparr> cf_port := None \<rparr>)"
  using assms by (auto simp: config_ok_def dest: config_number_bound config_bytes_bound)

lemma parse_flags_ok:
  "parse_flags given config asked np = Inr (Inr (config', asked', np')) \<Longrightarrow> config_ok config \<Longrightarrow> (\<And>n. asked = Some n \<Longrightarrow> 1 \<le> n) \<Longrightarrow>
   config_ok config' \<and> (\<forall>n. asked' = Some n \<longrightarrow> 1 \<le> n) \<and> (chars ''--shards'' \<notin> set given \<longrightarrow> asked' = asked)"
proof (induction given arbitrary: config asked np rule: length_induct)
  case (1 given)
  show ?case
  proof (cases given)
    case Nil
    then show ?thesis using "1.prems" by simp
  next
    case (Cons flag rest)
    note U = config_ok_updates [OF "1.prems"(2)]
    have IH: "config_ok config' \<and> (\<forall>n. asked' = Some n \<longrightarrow> 1 \<le> n) \<and> (chars ''--shards'' \<notin> set given \<longrightarrow> asked' = asked)"
      if "parse_flags g c a n = Inr (Inr (config', asked', np'))" "g = rest \<or> tl rest = g" "config_ok c"
        "a = asked \<or> (flag = chars ''--shards'' \<and> (\<exists>k. a = Some (max k 1)))" for g c a n
    proof -
      have g: "length g < length given" "set g \<subseteq> set given" using that(2) Cons by (cases rest; auto)+
      have a: "\<And>k. a = Some k \<Longrightarrow> 1 \<le> k" using that(4) "1.prems"(3) by auto
      have keep: "a = asked" if "chars ''--shards'' \<notin> set given" using that \<open>a = asked \<or> _\<close> Cons by auto
      have "config_ok config' \<and> (\<forall>n. asked' = Some n \<longrightarrow> 1 \<le> n) \<and> (chars ''--shards'' \<notin> set g \<longrightarrow> asked' = a)"
        using "1.IH" g(1) that(1,3) a by blast
      then show ?thesis using g(2) keep by blast
    qed
    have "parse_flags (flag # rest) config asked np = Inr (Inr (config', asked', np'))" using "1.prems"(1) Cons by (simp only:)
    from this [unfolded parse_flags.simps(2)] show ?thesis
      by (simp_all only: sum.distinct sum.inject split: if_split_asm list.split_asm sum.split_asm)
        (drule IH, (rule disjI1, rule refl | simp only: list.sel simp_thms), (rule "1.prems"(2) | rule U(4,5) | (rule U, assumption)),
          (rule disjI1, rule refl | (rule disjI2, rule conjI, assumption, rule exI, rule refl)), assumption)+
  qed
qed

section \<open>Shards\<close>

lemma parse_flags_asked: "parse_flags given config asked np = Inr (Inl x) \<Longrightarrow> x = Version \<or> x = Usage"
proof (induction given arbitrary: config asked np rule: length_induct)
  case (1 given)
  show ?case
  proof (cases given)
    case Nil
    then show ?thesis using "1.prems" by simp
  next
    case (Cons flag rest)
    have IH: "x = Version \<or> x = Usage" if "parse_flags g c a n = Inr (Inl x)" "g = rest \<or> tl rest = g" for g c a n
    proof -
      have "length g < length given" using that(2) Cons by (cases rest) auto
      then show ?thesis using "1.IH" that(1) by blast
    qed
    have "parse_flags (flag # rest) config asked np = Inr (Inl x)" using "1.prems"(1) Cons by (simp only:)
    from this [unfolded parse_flags.simps(2)] show ?thesis
      by (simp_all only: sum.distinct sum.inject split: if_split_asm list.split_asm sum.split_asm)
        (simp_all only: simp_thms, (drule IH, (rule disjI1, rule refl | simp only: list.sel simp_thms), assumption)+)
  qed
qed

lemma next_power_exact: "next_power_of_two (2 ^ c) = 2 ^ c"
proof (rule antisym)
  show "next_power_of_two (2 ^ c) \<le> 2 ^ c" using next_power_below [of "2 ^ c" c 0] by (simp add: next_power_of_two_def)
  show "2 ^ c \<le> next_power_of_two (2 ^ c)" using next_power_from [of 0 "2 ^ c"] by (auto simp: next_power_of_two_def)
qed

lemma shards_for_power: "\<exists>b\<ge>6. b \<le> 12 \<and> shards_for n = 2 ^ b"
proof -
  let ?k = "min (max (min (n * SHARDS_PER_THREAD) usize_MAX) MIN_SHARDS) MAX_SHARDS"
  obtain b where b: "shards_for n = 2 ^ b" "?k \<le> 2 ^ b" using next_power_from [of 0 ?k] by (auto simp: shards_for_def next_power_of_two_def)
  have k: "64 \<le> ?k" "?k \<le> 2 ^ 12" by (auto simp: MIN_SHARDS_def MAX_SHARDS_def)
  then have "shards_for n \<le> 2 ^ 12" unfolding shards_for_def next_power_of_two_def using next_power_below [of ?k 12 0] by simp
  moreover have "64 \<le> (2 :: nat) ^ b" using k(1) b(2) by (rule order_trans)
  ultimately have p: "(2 :: nat) ^ 6 \<le> 2 ^ b" "(2 :: nat) ^ b \<le> 2 ^ 12" unfolding b(1) by simp_all
  have "6 \<le> b" "b \<le> 12" by (rule power_le_imp_le_exp [OF _ p(1)], simp) (rule power_le_imp_le_exp [OF _ p(2)], simp)
  then show ?thesis using b(1) by blast
qed

lemma map_shards: "length (mp_shards (map_with_seed n mx sd since)) = next_power_of_two (min (max n 1) MAX_SHARDS)"
  by (simp add: map_with_seed_def Let_def)

lemma next_power_least:
  assumes "0 < k"
  shows "\<exists>b. next_power_of_two k = 2 ^ b \<and> k \<le> 2 ^ b \<and> 2 ^ b < 2 * k"
proof -
  obtain b where b: "next_power_of_two k = 2 ^ b" "k \<le> 2 ^ b" using next_power_from [of 0 k] by (auto simp: next_power_of_two_def)
  have "2 ^ b < 2 * k"
  proof (cases b)
    case (Suc a)
    show ?thesis
    proof (rule ccontr)
      assume "\<not> 2 ^ b < 2 * k"
      then have "next_power_of_two k \<le> 2 ^ a" using next_power_below [of k a 0] Suc by (simp add: next_power_of_two_def)
      then show False using b(1) Suc by simp
    qed
  qed (use assms in simp)
  then show ?thesis using b by blast
qed

lemma map_shards_least:
  assumes "1 \<le> n"
  shows "\<exists>b\<le>12. length (mp_shards (map_with_seed n mx sd since)) = 2 ^ b \<and> min n MAX_SHARDS \<le> 2 ^ b \<and> 2 ^ b < 2 * min n MAX_SHARDS"
proof -
  have k: "min (max n 1) MAX_SHARDS = min n MAX_SHARDS" "0 < min n MAX_SHARDS" "min n MAX_SHARDS \<le> 2 ^ 12" using assms by (auto simp: MAX_SHARDS_def)
  obtain b where b: "next_power_of_two (min n MAX_SHARDS) = 2 ^ b" "min n MAX_SHARDS \<le> 2 ^ b" "2 ^ b < 2 * min n MAX_SHARDS"
    using next_power_least [OF k(2)] by blast
  have "(2 :: nat) ^ b \<le> 2 ^ 12" using next_power_below [of "min n MAX_SHARDS" 12 0] k(3) b(1) by (simp add: next_power_of_two_def)
  then have "b \<le> 12" by (rule power_le_imp_le_exp [rotated]) simp
  then show ?thesis using b k(1) by (auto simp: map_shards)
qed

text \<open>
  C29: Every configuration the flags can produce is one the server can run: at least one thread, a port that
  is a port, a ceiling that fits a word, at least one address to listen on and at least one shard.
  The map made of it, whatever its seed and clock, satisfies the invariant of the map and represents
  the empty cache; its number of shards is the least power of two that is not below the number asked
  for, 4096 at most; and unless the flags name a number of shards themselves, the number the
  configuration reports is a power of two from 64 to 4096 and is exactly the number of shards the map has.
\<close>

theorem configurations_are_sound:
  assumes "1 \<le> cores" "cores < 2 ^ 64" "config_parse cores given = Inr (Serve c)" "platform_ok p"
  shows "config_ok c \<and> 1 \<le> cf_shards c \<and> (cf_port c \<noteq> None \<or> cf_unixsocket c \<noteq> None) \<and>
    map_inv p t (map_with_seed (cf_shards c) (cf_maxmemory c) sd since) Map.empty \<and>
    (\<exists>b\<le>12. length (mp_shards (map_with_seed (cf_shards c) (cf_maxmemory c) sd since)) = 2 ^ b \<and>
       min (cf_shards c) MAX_SHARDS \<le> 2 ^ b \<and> 2 ^ b < 2 * min (cf_shards c) MAX_SHARDS) \<and>
    (chars ''--shards'' \<in> set given \<or>
     (\<exists>b\<ge>6. b \<le> 12 \<and> cf_shards c = 2 ^ b \<and> length (mp_shards (map_with_seed (cf_shards c) (cf_maxmemory c) sd since)) = cf_shards c))"
proof -
  obtain c1 asked no_port where f: "parse_flags given (config_default cores) None False = Inr (Inr (c1, asked, no_port))"
    and c: "c = (let c1 = c1\<lparr> cf_shards := (case asked of Some n \<Rightarrow> n | None \<Rightarrow> shards_for (cf_threads c1)) \<rparr>
        in if no_port then c1\<lparr> cf_port := None \<rparr> else c1)" "cf_port c \<noteq> None \<or> cf_unixsocket c \<noteq> None"
    using assms(3) parse_flags_asked [of given "config_default cores" None False "Serve c"]
    by (auto simp: config_parse_def Let_def split: sum.splits if_splits)
  have ok: "config_ok c1" "\<forall>n. asked = Some n \<longrightarrow> 1 \<le> n" "chars ''--shards'' \<notin> set given \<longrightarrow> asked = None"
    using parse_flags_ok [OF f default_ok [OF assms(1,2)]] by simp_all
  obtain b where b: "6 \<le> b" "b \<le> 12" "shards_for (cf_threads c1) = 2 ^ b" using shards_for_power by blast
  have "config_ok c" using c(1) config_ok_updates(6,7) ok(1) by (simp add: Let_def)
  moreover have shards: "cf_shards c = (case asked of Some n \<Rightarrow> n | None \<Rightarrow> 2 ^ b)" using c(1) b(3) by (simp add: Let_def split: option.splits)
  moreover have "next_power_of_two (min (max (2 ^ b) 1) MAX_SHARDS) = 2 ^ b"
  proof -
    have "(2 :: nat) ^ b \<le> 2 ^ 12" using b(2) by (rule power_increasing) simp
    then have "min (max (2 ^ b) 1) MAX_SHARDS = 2 ^ b" by (simp add: MAX_SHARDS_def)
    then show ?thesis by (simp add: next_power_exact)
  qed
  ultimately have "config_ok c \<and> (chars ''--shards'' \<in> set given \<or>
     (\<exists>b\<ge>6. b \<le> 12 \<and> cf_shards c = 2 ^ b \<and> length (mp_shards (map_with_seed (cf_shards c) (cf_maxmemory c) sd since)) = cf_shards c))"
    using ok(3) b(1,2) unfolding map_shards by (cases asked) auto
  moreover have one: "1 \<le> cf_shards c" using shards ok(2) by (cases asked) auto
  ultimately show ?thesis using map_new_spec [OF assms(4)] map_shards_least [OF one] c(2) by blast
qed

theorem configurations_are_sound_witness:
  "config_parse 8 [] = Inr (Serve ((config_default 8)\<lparr> cf_shards := shards_for 8 \<rparr>)) \<and>
   config_ok ((config_default 8)\<lparr> cf_shards := shards_for 8 \<rparr>) \<and>
   map_inv \<lparr> lazy = True, page = 4096 \<rparr> Sse2 (map_with_seed (cf_shards ((config_default 8)\<lparr> cf_shards := shards_for 8 \<rparr>))
     (cf_maxmemory ((config_default 8)\<lparr> cf_shards := shards_for 8 \<rparr>)) 3 None) Map.empty \<and>
   (\<exists>b\<ge>6. b \<le> 12 \<and> cf_shards ((config_default 8)\<lparr> cf_shards := shards_for 8 \<rparr>) = 2 ^ b \<and>
      length (mp_shards (map_with_seed (cf_shards ((config_default 8)\<lparr> cf_shards := shards_for 8 \<rparr>))
        (cf_maxmemory ((config_default 8)\<lparr> cf_shards := shards_for 8 \<rparr>)) 3 None)) = cf_shards ((config_default 8)\<lparr> cf_shards := shards_for 8 \<rparr>))"
proof -
  have p: "config_parse 8 [] = Inr (Serve ((config_default 8)\<lparr> cf_shards := shards_for 8 \<rparr>))"
    by (simp add: config_parse_def config_default_def DEFAULT_PORT_def)
  have "platform_ok \<lparr> lazy = True, page = 4096 \<rparr>" by (simp add: platform_ok_def granule_def)
  from configurations_are_sound [OF _ _ p this, of Sse2 3 None] p show ?thesis by simp
qed

end
