(* ===== verification/Rugo_Commands.thy ===== *)
theory Rugo_Commands
  imports Rugo_Serving
begin

text \<open>
  The four families of commands and the dispatcher over them: what is a family's own it settles with
  one reply, what is not it leaves alone, and \<^verbatim>\<open>run\<close> answers every command with exactly one value.
\<close>

section \<open>The families\<close>

named_theorems settling \<open>handlers that answer with one value\<close>

lemma put_value_settled [settling]: "serving v m s \<Longrightarrow> returns (put_value v key s) (settled v s)"
  by (erule returns_mono [OF put_value_spec]) (auto intro: settledI)

lemma set_cmd_returns [settling]: "serving v m s \<Longrightarrow> returns (set_cmd v cmd buf s) (settled v s)"
  by (rule returns_mono [OF set_cmd_spec set_cmd_settled])

lemma timed_set_returns [settling]: "serving v m s \<Longrightarrow> returns (timed_set v millis cmd buf s) (settled v s)"
  by (rule returns_mono [OF timed_set_spec timed_set_settled])

lemma mset_returns [settling]: "serving v m s \<Longrightarrow> returns (mset_loop v cmd buf ns s) (settled v s)"
  by (rule returns_mono [OF mset_loop_spec mset_settled])

lemma count_by_returns [settling]: "serving v m s \<Longrightarrow> returns (count_by v (dispatch_arg cmd buf n) delta s) (settled v s)"
  by (rule returns_mono [OF count_by_spec count_settled]) simp_all

lemma expire_cmd_returns [settling]: "serving v m s \<Longrightarrow> returns (expire_cmd v key val millis absolute s) (settled v s)"
  by (rule returns_mono [OF expire_cmd_spec expire_settled])

lemma put_reply_returns [settling]: "serving v m s \<Longrightarrow> well_formed r \<Longrightarrow> returns (Some (put_reply r s)) (settled v s)"
  by (auto intro: settled_put)

lemma mget_returns:
  assumes "serving v m s" "0 < command_len cmd"
  shows "returns (do { s \<leftarrow> tell (put_array (command_len cmd - 1)) s; s \<leftarrow> mget_loop v cmd buf [1..<command_len cmd] s; Some (True, s) }) (family v s)"
  using mget_spec [OF assms, of buf] by (auto simp: family_def list_all_iff elim!: returns_mono intro!: settledI)

lemma strlen_returns:
  assumes "serving v m s"
  shows "returns (do {
      (r, s) \<leftarrow> on_map v (\<lambda>ev Mp. map_get ev Mp key) s;
      let len = (case r of Some val \<Rightarrow> length val | None \<Rightarrow> 0);
      s \<leftarrow> tell (put_integer (i64_saturate len)) s;
      Some (True, s) }) (family v s)"
  using on_get_length [OF assms, of key]
  by (auto simp: family_def Let_def simp del: well_formed.simps elim!: returns_mono intro!: settledI)

lemma family_said: "serving v m s \<Longrightarrow> well_formed r \<Longrightarrow> returns (Some (True, put_reply r s)) (family v s)"
  by (auto simp: family_def intro: settled_put)

lemma family_no: "returns (Some (False, s)) (family v s)"
  by (simp add: family_def)

lemma family_few:
  "serving v m s \<Longrightarrow> CHR 0x0D \<notin> set name \<Longrightarrow> CHR 0x0A \<notin> set name \<Longrightarrow> command_len cmd \<noteq> n \<Longrightarrow>
   returns (Some (True, snd (arity cmd n name s))) (family v s)"
  by (simp add: replying family_def settled_put)

lemma family_integer:
  assumes "serving v m s" "\<And>i. integer_of txt = Some i \<Longrightarrow> returns (f i s) (family v s)"
  shows "returns (case dispatch_integer txt s of (None, s) \<Rightarrow> Some (True, s) | (Some i, s) \<Rightarrow> f i s) (family v s)"
proof (cases "integer_of txt")
  case None
  then show ?thesis using assms(1) by (simp add: replying family_def settled_put)
next
  case (Some i)
  then show ?thesis using assms(2) by (simp add: replying)
qed

lemma strings_spec:
  assumes "serving v m s"
  shows "returns (strings v name cmd buf s) (family v s)"
proof -
  have by_amount: "returns (case (if b then Some given else i64_checked (- given)) of
        None \<Rightarrow> Some (True, say (put_error (ascii ''ERR decrement would overflow'')) s)
      | Some delta \<Rightarrow> do { s \<leftarrow> count_by v (dispatch_arg cmd buf 1) delta s; Some (True, s) }) (family v s)" for b given
  proof (cases "if b then Some given else i64_checked (- given)")
    case None
    then show ?thesis using family_said [OF assms, of "VError (ascii ''ERR decrement would overflow'')"] by (simp add: replying one_line_ascii)
  next
    case (Some delta)
    then show ?thesis using family_known [OF count_by_returns [OF assms]] by simp
  qed
  show ?thesis
    unfolding strings_def Let_def
    by (intro returns_ifI family_arity [OF assms] family_integer [OF assms] family_known settling [OF assms]
        family_few [OF assms] family_no mget_returns [OF assms] strlen_returns [OF assms, unfolded Let_def] by_amount) auto
qed

lemma remove_returns:
  assumes "serving v m s"
  shows "returns (do {
      (went, s) \<leftarrow> remove_loop v cmd buf ns 0 s;
      s \<leftarrow> tell (put_integer (i64_saturate went)) s;
      Some (True, s) })
    (\<lambda>(known, s'). known \<and> answered v s (VInteger (i64_saturate (card (set (map (dispatch_arg cmd buf) ns) \<inter> dom m))))
       (m |` (- set (map (dispatch_arg cmd buf) ns))) s')"
  using remove_loop_spec [OF assms, of cmd buf ns 0] by (auto simp: replying elim!: returns_mono intro!: answeredI)

lemma exists_returns:
  assumes "serving v m s"
  shows "returns (do {
      (there, s) \<leftarrow> exists_loop v cmd buf ns 0 s;
      s \<leftarrow> tell (put_integer (i64_saturate there)) s;
      Some (True, s) })
    (\<lambda>(known, s'). known \<and> answered v s
       (VInteger (i64_saturate (length (filter (\<lambda>n. purge (now_of s) (dispatch_arg cmd buf n) m (dispatch_arg cmd buf n) \<noteq> None) ns))))
       (purge_all (now_of s) (map (dispatch_arg cmd buf) ns) m) s')"
  using exists_loop_spec [OF assms, of cmd buf ns 0] by (auto simp: replying simp del: not_None_eq elim!: returns_mono intro!: answeredI)

text \<open>How long a key has left, as \<^verbatim>\<open>TTL\<close> answers it.\<close>

definition left_of :: "u32 \<Rightarrow> stored option \<Rightarrow> int \<Rightarrow> int" where
  "left_of now x scale = (case x of
     None \<Rightarrow> - 2
   | Some (val, None, u) \<Rightarrow> - 1
   | Some (val, Some at, u) \<Rightarrow> int (unat (saturating_sub at now)) * scale)"

lemma left_range: "scale \<in> {1, 1000} \<Longrightarrow> i64_MIN \<le> left_of now x scale \<and> left_of now x scale \<le> i64_MAX"
proof -
  assume s: "scale \<in> {1, 1000}"
  have n: "i64_MIN \<le> int n * scale \<and> int n * scale \<le> i64_MAX" if "n < 2 ^ 32" for n
    using s that by (auto simp: i64_MIN_def i64_MAX_def)
  have "unat w < 2 ^ 32" for w :: u32 by (rule order_less_le_trans [OF unsigned_less]) simp
  from n [OF this] show ?thesis by (simp add: left_of_def i64_MIN_def i64_MAX_def split: option.split)
qed

lemma ttl_returns:
  assumes "serving v m s"
  shows "returns (do {
      (r, s) \<leftarrow> on_map v (\<lambda>ev Mp. map_deadline ev Mp key) s;
      s \<leftarrow> tell (put_integer (case r of
           None \<Rightarrow> - 2
         | Some None \<Rightarrow> - 1
         | Some (Some due_at) \<Rightarrow>
             (let left = int (unat (saturating_sub due_at now)) in if b then left else left * 1000))) s;
      Some (True, s) })
    (\<lambda>(known, s'). known \<and> answered v s (VInteger (left_of now (purge (now_of s) key m key) (if b then 1 else 1000))) (purge (now_of s) key m) s')"
proof -
  let ?m = "purge (now_of s) key m" and ?scale = "if b then 1 else 1000 :: int"
  obtain r s1 where s1: "on_map v (\<lambda>ev Mp. map_deadline ev Mp key) s = Some (r, s1)" "serving v ?m s1" "framed (sv_map s) (sv_map s1)"
      "r = map_option (\<lambda>(x, e, u). e) (?m key)" "sv_reply s1 = sv_reply s"
    using on_deadline [OF assms, of key] by (auto elim!: returnsE)
  have eq: "(case r of None \<Rightarrow> - 2 | Some None \<Rightarrow> - 1 | Some (Some due_at) \<Rightarrow>
      (let left = int (unat (saturating_sub due_at now)) in if b then left else left * 1000)) = left_of now (?m key) ?scale"
    unfolding s1(4) by (auto simp: left_of_def Let_def split: option.splits)
  have "i64_MIN \<le> left_of now (?m key) ?scale" "left_of now (?m key) ?scale \<le> i64_MAX" using left_range [of ?scale] by auto
  then show ?thesis using s1 eq by (simp add: tell_integer answeredI)
qed

lemma deadline_had: "(case map_option (\<lambda>(x, e, u). e) o' of Some (Some _) \<Rightarrow> True | _ \<Rightarrow> False) \<longleftrightarrow> (\<exists>x e u. o' = Some (x, Some e, u))"
  by (auto split: option.splits)

definition persist_post :: "DispatchEnv \<Rightarrow> Server \<Rightarrow> bytes \<Rightarrow> cache \<Rightarrow> Server \<Rightarrow> bool" where
  "persist_post v s key m s' \<longleftrightarrow>
     (let m1 = purge (now_of s) key m
      in (\<exists>m'. after_write (sv_map s) key (expire_cache m1 key None) m' \<and>
            answered v s (VInteger (if \<exists>x e u. m1 key = Some (x, Some e, u) then 1 else 0)) m' s') \<or> out_of_memory v s m1 s')"

lemma purge_again: "purge now key (purge now key m) = purge now key m"
  by (auto simp: purge_def split: option.splits)

lemma persist_returns:
  assumes "serving v m s"
  shows "returns (do {
      (r, s) \<leftarrow> on_map v (\<lambda>ev Mp. map_deadline ev Mp key) s;
      let had = (case r of Some (Some _) \<Rightarrow> True | _ \<Rightarrow> False);
      (r, s) \<leftarrow> on_map v (\<lambda>ev Mp. map_expire ev Mp key None) s;
      (case r of
         Inr _ \<Rightarrow> do { s \<leftarrow> tell (put_integer (if had then 1 else 0)) s; Some (True, s) }
       | Inl _ \<Rightarrow> Some (True, oom s)) })
    (\<lambda>(known, s'). known \<and> persist_post v s key m s')"
proof -
  let ?m = "purge (now_of s) key m"
  obtain r s1 where s1: "on_map v (\<lambda>ev Mp. map_deadline ev Mp key) s = Some (r, s1)" "serving v ?m s1" "framed (sv_map s) (sv_map s1)"
      "r = map_option (\<lambda>(x, e, u). e) (?m key)" "sv_reply s1 = sv_reply s"
    using on_deadline [OF assms, of key] by (auto elim!: returnsE)
  have same: "purge (now_of s1) key ?m = ?m" by (simp add: framed_now [OF s1(3)] purge_again)
  obtain q s2 where s2: "on_map v (\<lambda>ev Mp. map_expire ev Mp key None) s1 = Some (q, s2)"
      "wrote_call v s1 key (\<lambda>_. True) ?m (\<lambda>_. expire_cache ?m key None) (q, s2)"
    using on_expire [OF s1(2), of key None] unfolding same by (auto elim!: returnsE)
  show ?thesis
  proof (cases q)
    case (Inl e)
    then show ?thesis
      using s1(1) s2(1) out_of_memory_trans [OF s1(3,5) wrote_call_Inl [OF s2(2) [unfolded Inl]]] by (simp add: persist_post_def Let_def replying)
  next
    case (Inr b)
    let ?r = "VInteger (if \<exists>x e u. ?m key = Some (x, Some e, u) then 1 else 0)"
    obtain m' where m': "after_write (sv_map s1) key (expire_cache ?m key None) m'" "answered v s1 ?r m' (put_reply ?r s2)"
      using wrote_call_Inr [OF s2(2) [unfolded Inr], of ?r] by blast
    have "persist_post v s key m (put_reply ?r s2)"
      using m'(1) answered_trans [OF s1(3,5) m'(2)] unfolding persist_post_def Let_def after_write_framed [OF s1(3)] by blast
    moreover have "(case r of Some (Some _) \<Rightarrow> True | _ \<Rightarrow> False) \<longleftrightarrow> (\<exists>x e u. ?m key = Some (x, Some e, u))"
      unfolding s1(4) by (rule deadline_had)
    ultimately show ?thesis
      using s1(1) s2(1) Inr by (simp add: replying del: split_paired_Ex)
  qed
qed

lemma flush_returns:
  assumes "serving v m s"
  shows "returns (do {
      (_, s) \<leftarrow> on_map v (\<lambda>ev Mp. map_option (\<lambda>Mp. ((), Mp)) (map_clear ev Mp)) s;
      Some (True, say (put_simple (ascii ''OK'')) s) }) (\<lambda>(known, s'). known \<and> answered v s OK Map.empty s')"
  using on_clear [OF assms] by (auto simp: replying elim!: returns_mono intro!: answeredI)

lemma family_answered:
  "returns x (\<lambda>(known, s'). known \<and> answered v s r m' s') \<Longrightarrow> well_formed r \<Longrightarrow> returns x (family v s)"
  by (erule returns_mono) (auto simp: family_def intro: settledI)

lemma persist_settled: "persist_post v s key m s' \<Longrightarrow> settled v s s'"
  by (auto simp: persist_post_def Let_def i64_MIN_def i64_MAX_def intro: settledI settled_oom)

lemma family_persist: "returns x (\<lambda>(known, s'). known \<and> persist_post v s key m s') \<Longrightarrow> returns x (family v s)"
  by (erule returns_mono) (auto simp: family_def intro: persist_settled)

lemma dbsize_returns:
  assumes "serving v m s"
  shows "returns (do { s \<leftarrow> tell (put_integer (i64_saturate (map_len (sv_map s)))) s; Some (True, s) })
    (\<lambda>(known, s'). known \<and> answered v s (VInteger (i64_saturate (card (dom m)))) m s')"
proof -
  have "map_len (sv_map s) = card (dom m)" using assms map_len_spec(2) unfolding serving_def by blast
  then show ?thesis using assms by (simp add: replying answeredI del: well_formed.simps)
qed

lemma keyspace_spec:
  assumes "serving v m s"
  shows "returns (keyspace v name cmd buf s) (family v s)"
proof -
  have left: "well_formed (VInteger (left_of now x (if b then 1 else 1000)))" for now x b
    using left_range [of "if b then 1 else 1000"] by auto
  show ?thesis
    unfolding keyspace_def Let_def
    by (intro returns_ifI family_arity [OF assms] family_integer [OF assms] family_known settling [OF assms]
        family_few [OF assms] family_no family_answered [OF remove_returns [OF assms]] family_answered [OF exists_returns [OF assms]]
        family_answered [OF ttl_returns [OF assms, unfolded Let_def]] family_persist [OF persist_returns [OF assms, unfolded Let_def]]
        family_answered [OF flush_returns [OF assms]] family_answered [OF dbsize_returns [OF assms]] small_integer left)
      (auto simp: one_line_ascii)
qed


section \<open>Connections and the server itself\<close>

definition greeting :: "Dialect \<Rightarrow> Value" where
  "greeting d = VMap [(VBulk (ascii ''server''), VBulk (ascii ''rugo'')), (VBulk (ascii ''version''), VBulk (ascii CARGO_PKG_VERSION)),
     (VBulk (ascii ''proto''), VInteger (if d = Resp3 then 3 else 2)), (VBulk (ascii ''id''), VInteger 0),
     (VBulk (ascii ''mode''), VBulk (ascii ''standalone'')), (VBulk (ascii ''role''), VBulk (ascii ''master'')),
     (VBulk (ascii ''modules''), VArray [])]"

lemma hello_eq: "hello d e = Some (out_extend (encode d (greeting d)) e)"
proof -
  have "i64_MIN \<le> (if d = Resp3 then 3 else 2)" "(if d = Resp3 then 3 else 2) \<le> i64_MAX" "i64_MIN \<le> 0" "0 \<le> i64_MAX"
    by (simp_all add: i64_MIN_def i64_MAX_def)
  then show ?thesis
    by (simp add: hello_def greeting_def put_map_header put_bulk_value [of _ _ d] put_integer_value [of _ _ d] put_array_header
        encoder_new_def buffer_def put_raw_def del: encode.simps(4)) (cases d; simp add: count_bytes_def eval_nat_numeral)
qed

lemma well_formed_greeting: "well_formed (greeting d)"
  by (simp add: greeting_def i64_MIN_def i64_MAX_def)

lemma put_pairs_eq:
  "put_pairs ps e = Some (out_extend (concat (map (\<lambda>(k, v). encode d k @ encode d v) (map (\<lambda>(n, x). (VBulk (ascii n), VBulk x)) ps))) e)"
  by (induction ps e rule: put_pairs.induct) (simp_all add: put_bulk_value [of _ _ d])

lemma config_get_eq:
  "config_get cmd buf s = Some (put_reply (VMap (map (\<lambda>(n, x). (VBulk (ascii n), VBulk x)) (config_found (sv_map s) cmd buf))) s)"
  by (simp add: config_get_def tell_def put_map_header put_pairs_eq [of _ _ "dialect (sv_reply s)"] put_reply_def Let_def split: Dialect.split)

text \<open>An answer that changes nothing but the reply, and the dialect it is written in.\<close>

definition greeted :: "Server \<Rightarrow> Dialect \<Rightarrow> Server \<Rightarrow> bool" where
  "greeted s d s' \<longleftrightarrow> (\<exists>r. well_formed r \<and> s' = s\<lparr> sv_reply := out_extend (encode d r) (sv_reply s) \<rparr>)"

lemma greetedI: "well_formed r \<Longrightarrow> greeted s (dialect (sv_reply s)) (put_reply r s)"
  by (auto simp: greeted_def put_reply_def)

lemma greeted_line: "one_line t \<Longrightarrow> greeted s d (put_reply (VSimple t) s)" "one_line t \<Longrightarrow> greeted s d (put_reply (VError t) s)"
  unfolding greeted_def put_reply_def by (metis encode.simps(1) well_formed.simps(1)) (metis encode.simps(2) well_formed.simps(2))

lemma greeted_arity: "CHR 0x0D \<notin> set name \<Longrightarrow> CHR 0x0A \<notin> set name \<Longrightarrow> greeted s d (put_reply (wrong_arity name) s)"
  by (simp add: wrong_arity_def quoted_def one_line_ascii greeted_line)

lemma connection_spec:
  assumes "dialect (sv_reply s) = d"
  shows "returns (connection name cmd buf s d final) (\<lambda>(known, s', d', final'). if known then greeted s d' s' else s' = s \<and> d' = d \<and> final' = final)"
proof -
  have hello: "greeted s d' (s\<lparr> sv_reply := out_extend (encode d' (greeting d')) (sv_reply s) \<rparr>)" for d'
    using well_formed_greeting by (auto simp: greeted_def)
  have tell_hello: "tell (hello d') s = Some (s\<lparr> sv_reply := out_extend (encode d' (greeting d')) (sv_reply s) \<rparr>)" for d'
    by (simp add: tell_def hello_eq)
  have bulk: "greeted s d (put_reply (VBulk b) s)" for b using greetedI [of "VBulk b" s] assms by simp
  show ?thesis
    unfolding connection_def
    by (intro returns_ifI)
       (auto simp: replying greeted_line greeted_arity one_line_ascii bulk hello tell_hello split: option.split)
qed

lemma admin_spec:
  assumes "serving v m s"
  shows "returns (admin v name cmd buf s) (\<lambda>(handled, s'). case handled of Known \<Rightarrow> settled v s s' | _ \<Rightarrow> s' = s)"
proof -
  have known: "returns (do { s' \<leftarrow> Some (put_reply r s); Some (Known, s') }) (\<lambda>(handled, s'). case handled of Known \<Rightarrow> settled v s s' | _ \<Rightarrow> s' = s)"
    if "well_formed r" for r using settled_put [OF assms that] by simp
  have wf: "well_formed (VMap [])" "well_formed (VMap (map (\<lambda>(n, x). (VBulk (ascii n), VBulk x)) ps))" for ps by (auto simp: list_all_iff)
  show ?thesis
    unfolding admin_def Let_def
    by (intro returns_ifI)
       (auto simp: replying config_get_eq one_line_ascii wf i64_MIN_def i64_MAX_def simp del: well_formed.simps(7) intro!: settled_put [OF assms])
qed


section \<open>One command\<close>

text \<open>The state a command starts from: counted, and with an encoder for the client's dialect.\<close>

definition begun :: "DispatchEnv \<Rightarrow> Dialect \<Rightarrow> Server \<Rightarrow> Server" where
  "begun v d s = s\<lparr> sv_stats := (sv_stats s)\<lparr> per := (per (sv_stats s))[de_thread v := command (per (sv_stats s) ! de_thread v)] \<rparr>,
     sv_reply := encoder_new (out (sv_reply s)) d \<rparr>"

lemma begun_simps [simp]: "sv_map (begun v d s) = sv_map s" "out (sv_reply (begun v d s)) = out (sv_reply s)"
    "dialect (sv_reply (begun v d s)) = d" "serving v m (begun v d s) = serving v m s"
  by (simp_all add: begun_def encoder_new_def serving_def)

lemma upper_name_eq: "length raw \<le> MAX_NAME \<Longrightarrow> upper_name raw = Some (map to_ascii_uppercase raw)"
  by (simp add: upper_name_def slice_def Let_def)

lemma run_eq:
  assumes "serving v m s" "arg cmd 0 buf = Some raw"
  shows "run v cmd buf d s = (if MAX_NAME < length raw then Some (Replied MoreToCome, d, put_reply (unknown_reply v raw) (begun v d s))
     else do {
       (handled, s, d, final) \<leftarrow> dispatch_name v (map to_ascii_uppercase raw) cmd buf (begun v d s) d;
       (case handled of
          Exits \<Rightarrow> Some (Exited, d, s)
        | Known \<Rightarrow> Some (Replied final, d, s)
        | NotKnown \<Rightarrow> Some (Replied final, d, put_reply (unknown_reply v raw) s)) })"
  unfolding run_def unknown_eq
  using assms counters_spec [OF assms(1), of command] by (simp add: begun_def buffer_def upper_name_eq)

text \<open>Exactly one value was written, in the dialect \<open>d\<close>, and the state is in order or memory was refused.\<close>

definition one_reply :: "DispatchEnv \<Rightarrow> Server \<Rightarrow> Dialect \<Rightarrow> Server \<Rightarrow> bool" where
  "one_reply v s d s' \<longleftrightarrow>
     (\<exists>r m'. well_formed r \<and> serving v m' s' \<and> framed (sv_map s) (sv_map s') \<and> out (sv_reply s') = out (sv_reply s) @ encode d r) \<or>
     (\<exists>m'. limping v m' s' \<and> framed (sv_map s) (sv_map s') \<and> out (sv_reply s') = out (sv_reply s) @ encode d OOM)"

lemma settled_one_reply: "settled v (begun v d s) s' \<Longrightarrow> one_reply v s d s'"
  by (auto simp: settled_def one_reply_def answered_def out_of_memory_def)

lemma greeted_one_reply: "greeted (begun v d s) d' s' \<Longrightarrow> serving v m s \<Longrightarrow> one_reply v s d' s'"
  unfolding greeted_def one_reply_def
  by (elim exE conjE, rule disjI1) (auto simp: serving_def begun_def encoder_new_def)

lemma run_spec:
  assumes "serving v m s" "arg cmd 0 buf = Some raw"
  shows "returns (run v cmd buf d s) (\<lambda>(outcome, d', s').
    if outcome = Exited then map to_ascii_uppercase raw = ascii ''SHUTDOWN'' \<and> sv_map s' = sv_map s \<and> out (sv_reply s') = out (sv_reply s)
    else one_reply v s d' s')"
proof -
  let ?s = "begun v d s" and ?name = "map to_ascii_uppercase raw"
  let ?post = "\<lambda>(outcome, d', s'). if outcome = Exited then ?name = ascii ''SHUTDOWN'' \<and> sv_map s' = sv_map s \<and> out (sv_reply s') = out (sv_reply s)
    else one_reply v s d' s'"
  have b: "serving v m ?s" using assms(1) by simp
  have un: "one_reply v s d' (put_reply (unknown_reply v raw) ?s)" if "d' = d" for d'
    using settled_one_reply [OF settled_put [OF b well_formed_unknown]] that by simp
  obtain k1 s1 where s1: "strings v ?name cmd buf ?s = Some (k1, s1)" "family v ?s (k1, s1)" using strings_spec [OF b, of ?name cmd buf] by (auto elim!: returnsE)
  obtain k2 s2 where s2: "keyspace v ?name cmd buf ?s = Some (k2, s2)" "family v ?s (k2, s2)" using keyspace_spec [OF b, of ?name cmd buf] by (auto elim!: returnsE)
  obtain k3 s3 d3 f3 where s3: "connection ?name cmd buf ?s d MoreToCome = Some (k3, s3, d3, f3)"
      "if k3 then greeted ?s d3 s3 else s3 = ?s \<and> d3 = d \<and> f3 = MoreToCome"
    using connection_spec [of ?s d ?name cmd buf MoreToCome] by (auto elim!: returnsE)
  obtain h s4 where s4: "admin v ?name cmd buf ?s = Some (h, s4)" "case h of Known \<Rightarrow> settled v ?s s4 | _ \<Rightarrow> s4 = ?s"
    using admin_spec [OF b, of ?name cmd buf] by (auto elim!: returnsE)
  have exits: "?name = ascii ''SHUTDOWN''" if "h = Exits"
    using s4(1) that by (auto simp: admin_def Let_def bind_eq_Some_conv split: if_splits)
  consider "MAX_NAME < length raw" | (first) "length raw \<le> MAX_NAME" k1 | (second) "length raw \<le> MAX_NAME" "\<not> k1" k2
    | (third) "length raw \<le> MAX_NAME" "\<not> k1" "\<not> k2" k3 | (fourth) "length raw \<le> MAX_NAME" "\<not> k1" "\<not> k2" "\<not> k3" by linarith
  then show ?thesis
  proof cases
    case 1
    then show ?thesis using run_eq [OF assms, of d] un by simp
  next
    case first
    then have "run v cmd buf d s = Some (Replied MoreToCome, d, s1)" using run_eq [OF assms, of d] s1(1) by (simp add: dispatch_name_def)
    then show ?thesis using first s1(2) settled_one_reply by (simp add: family_def)
  next
    case second
    then have "s1 = ?s" using s1(2) by (simp add: family_def)
    then have "run v cmd buf d s = Some (Replied MoreToCome, d, s2)" using run_eq [OF assms, of d] s1(1) s2(1) second by (simp add: dispatch_name_def)
    then show ?thesis using second s2(2) settled_one_reply by (simp add: family_def)
  next
    case third
    then have "s1 = ?s" "s2 = ?s" using s1(2) s2(2) by (simp_all add: family_def)
    then have "run v cmd buf d s = Some (Replied f3, d3, s3)" using run_eq [OF assms, of d] s1(1) s2(1) s3(1) third by (simp add: dispatch_name_def)
    then show ?thesis using third s3(2) greeted_one_reply [OF _ assms(1)] by simp
  next
    case fourth
    then have e: "s1 = ?s" "s2 = ?s" "s3 = ?s" "d3 = d" using s1(2) s2(2) s3(2) by (simp_all add: family_def)
    show ?thesis
      using run_eq [OF assms, of d] s1(1) s2(1) s3(1) s4 fourth e un exits settled_one_reply
      by (cases h) (simp_all add: dispatch_name_def)
  qed
qed


section \<open>Commands by name\<close>

text \<open>The request a parsed command stands for, and the name it is dispatched by.\<close>

definition asks :: "Command \<Rightarrow> bytes \<Rightarrow> string \<Rightarrow> bytes list \<Rightarrow> bool" where
  "asks cmd buf name xs \<longleftrightarrow> (\<exists>raw. command_args cmd buf = Some raw # map Some xs \<and> map to_ascii_uppercase raw = ascii name \<and> length name \<le> MAX_NAME)"

lemma asksD:
  assumes "asks cmd buf name xs"
  shows "\<exists>raw. arg cmd 0 buf = Some raw \<and> map to_ascii_uppercase raw = ascii name \<and> length raw \<le> MAX_NAME"
    and "command_len cmd = Suc (length xs)"
    and "n < length xs \<Longrightarrow> dispatch_arg cmd buf (Suc n) = xs ! n"
proof -
  obtain raw where raw: "command_args cmd buf = Some raw # map Some xs" "map to_ascii_uppercase raw = ascii name" "length name \<le> MAX_NAME"
    using assms by (auto simp: asks_def)
  have len: "command_len cmd = Suc (length xs)" using arg_cong [OF raw(1), of length] by (simp add: command_args_def)
  have nth: "arg cmd n buf = (Some raw # map Some xs) ! n" if "n < Suc (length xs)" for n
    using that len unfolding raw(1) [symmetric] by (simp add: command_args_def del: upt_Suc)
  have "length raw = length name" using arg_cong [OF raw(2), of length] by (simp add: ascii_def)
  then show "\<exists>raw. arg cmd 0 buf = Some raw \<and> map to_ascii_uppercase raw = ascii name \<and> length raw \<le> MAX_NAME"
    using nth [of 0] raw by auto
  show "command_len cmd = Suc (length xs)" by (rule len)
  show "dispatch_arg cmd buf (Suc n) = xs ! n" if "n < length xs" using nth [of "Suc n"] that by (simp add: dispatch_arg_def)
qed

lemma run_by_name:
  assumes "serving v m s" "asks cmd buf name xs"
  shows "run v cmd buf d s = do {
       (handled, s, d, final) \<leftarrow> dispatch_name v (ascii name) cmd buf (begun v d s) d;
       (case handled of
          Exits \<Rightarrow> Some (Exited, d, s)
        | Known \<Rightarrow> Some (Replied final, d, s)
        | NotKnown \<Rightarrow> Some (Replied final, d, put_reply (unknown_reply v (the (arg cmd 0 buf))) s)) }"
proof -
  obtain raw where raw: "arg cmd 0 buf = Some raw" "map to_ascii_uppercase raw = ascii name" "\<not> MAX_NAME < length raw"
    using asksD(1) [OF assms(2)] by auto
  show ?thesis unfolding run_eq [OF assms(1) raw(1)] raw(1,2) if_not_P [OF raw(3)] option.sel by (rule refl)
qed

lemma asks_args:
  assumes "asks cmd buf name xs"
  shows "map (dispatch_arg cmd buf) [1..<command_len cmd] = xs"
proof -
  have "[1..<command_len cmd] = map Suc [0..<length xs]" unfolding asksD(2) [OF assms] by (simp add: map_Suc_upt)
  then show ?thesis using asksD(3) [OF assms] by (intro nth_equalityI) simp_all
qed

lemma strings_other:
  "name \<notin> {''GET'', ''SET'', ''SETEX'', ''PSETEX'', ''MGET'', ''MSET'', ''INCR'', ''DECR'', ''INCRBY'', ''DECRBY'', ''STRLEN''} \<Longrightarrow>
   strings v (ascii name) cmd buf s = Some (False, s)"
  by (simp add: strings_def)

lemma run_strings:
  assumes "serving v m s" "asks cmd buf name xs"
    and "returns (strings v (ascii name) cmd buf (begun v d s)) (\<lambda>(known, s'). known \<and> Q s')"
  shows "returns (run v cmd buf d s) (\<lambda>(outcome, d', s'). outcome = Replied MoreToCome \<and> d' = d \<and> Q s')"
  using assms(3) unfolding run_by_name [OF assms(1,2)] dispatch_name_def by (auto elim!: returnsE)

lemma run_keyspace:
  assumes "serving v m s" "asks cmd buf name xs" "strings v (ascii name) cmd buf (begun v d s) = Some (False, begun v d s)"
    and "returns (keyspace v (ascii name) cmd buf (begun v d s)) (\<lambda>(known, s'). known \<and> Q s')"
  shows "returns (run v cmd buf d s) (\<lambda>(outcome, d', s'). outcome = Replied MoreToCome \<and> d' = d \<and> Q s')"
  using assms(3,4) unfolding run_by_name [OF assms(1,2)] dispatch_name_def by (auto elim!: returnsE)

lemma run_get:
  assumes "serving v m s" "asks cmd buf ''GET'' [key]"
  shows "returns (run v cmd buf d s) (\<lambda>(outcome, d', s'). outcome = Replied MoreToCome \<and> d' = d \<and>
    answered v (begun v d s) (value_of (purge (now_of s) key m key)) (purge (now_of s) key m) s' \<and>
    counted_as v (if purge (now_of s) key m key = None then miss else hit) (begun v d s) s')"
proof (rule run_strings [OF assms])
  have b: "serving v m (begun v d s)" using assms(1) by simp
  note a = asksD(2,3) [OF assms(2)]
  show "returns (strings v (ascii ''GET'') cmd buf (begun v d s)) (\<lambda>(known, s'). known \<and>
      answered v (begun v d s) (value_of (purge (now_of s) key m key)) (purge (now_of s) key m) s' \<and>
      counted_as v (if purge (now_of s) key m key = None then miss else hit) (begun v d s) s')"
    using put_value_spec [OF b, of key] a(1) a(2) [of 0] by (simp add: strings_def replying)
qed

lemma run_set:
  assumes "serving v m s" "asks cmd buf ''SET'' xs"
  shows "returns (run v cmd buf d s) (\<lambda>(outcome, d', s'). outcome = Replied MoreToCome \<and> d' = d \<and> set_cmd_post v cmd buf (begun v d s) m s')"
  by (rule run_strings [OF assms]) (use set_cmd_spec [of v m "begun v d s" cmd buf] assms(1) in \<open>simp add: strings_def\<close>)

lemma run_plain_set:
  assumes "serving v m s" "asks cmd buf ''SET'' [key, val]"
  shows "returns (run v cmd buf d s) (\<lambda>(outcome, d', s'). outcome = Replied MoreToCome \<and> d' = d \<and>
    ((\<exists>m'. after_write (sv_map s) key (m(key \<mapsto> (val, None, None))) m' \<and> answered v (begun v d s) OK m' s') \<or>
     out_of_memory v (begun v d s) m s'))"
proof (rule returns_mono [OF run_set [OF assms]])
  have "command_len cmd = 3" "dispatch_arg cmd buf 1 = key" "dispatch_arg cmd buf 2 = val"
    using asksD(2) [OF assms(2)] asksD(3) [OF assms(2), of 0] asksD(3) [OF assms(2), of 1] by (simp_all add: numeral_2_eq_2)
  then show "(\<lambda>(outcome, d', s'). outcome = Replied MoreToCome \<and> d' = d \<and>
      ((\<exists>m'. after_write (sv_map s) key (m(key \<mapsto> (val, None, None))) m' \<and> answered v (begun v d s) OK m' s') \<or>
       out_of_memory v (begun v d s) m s')) r"
    if "(\<lambda>(outcome, d', s'). outcome = Replied MoreToCome \<and> d' = d \<and> set_cmd_post v cmd buf (begun v d s) m s') r" for r
    using that by (auto simp: set_cmd_post_def Let_def)
qed

lemma run_count:
  assumes "serving v m s" "asks cmd buf name [key]" "(name, delta) \<in> {(''INCR'', 1), (''DECR'', - 1)}"
  shows "returns (run v cmd buf d s) (\<lambda>(outcome, d', s'). outcome = Replied MoreToCome \<and> d' = d \<and> count_post v (begun v d s) key delta m s')"
proof (rule run_strings [OF assms(1,2)])
  have b: "serving v m (begun v d s)" using assms(1) by simp
  note a = asksD(2,3) [OF assms(2)]
  have "fits (length key)" using arg_fits [of cmd buf 1] a(1) a(2) [of 0] by simp
  from count_by_spec [OF b this, of delta]
  show "returns (strings v (ascii name) cmd buf (begun v d s)) (\<lambda>(known, s'). known \<and> count_post v (begun v d s) key delta m s')"
    using a(1) a(2) [of 0] assms(3) by (auto simp: strings_def replying)
qed

lemma run_del:
  assumes "serving v m s" "asks cmd buf name ks" "ks \<noteq> []" "name \<in> {''DEL'', ''UNLINK''}"
  shows "returns (run v cmd buf d s) (\<lambda>(outcome, d', s'). outcome = Replied MoreToCome \<and> d' = d \<and>
    answered v (begun v d s) (VInteger (i64_saturate (card (set ks \<inter> dom m)))) (m |` (- set ks)) s')"
proof (rule run_keyspace [OF assms(1,2)])
  have b: "serving v m (begun v d s)" using assms(1) by simp
  note a = asksD(2,3) [OF assms(2)]
  note ks = asks_args [OF assms(2)]
  show "strings v (ascii name) cmd buf (begun v d s) = Some (False, begun v d s)" by (rule strings_other) (use assms(4) in auto)
  have "\<not> command_len cmd < 2" using a(1) assms(3) by (cases ks) auto
  then show "returns (keyspace v (ascii name) cmd buf (begun v d s)) (\<lambda>(known, s'). known \<and>
      answered v (begun v d s) (VInteger (i64_saturate (card (set ks \<inter> dom m)))) (m |` (- set ks)) s')"
    using remove_returns [OF b, of cmd buf "[1..<command_len cmd]"] assms(4) unfolding ks by (auto simp: keyspace_def elim!: returns_mono)
qed

lemma run_exists:
  assumes "serving v m s" "asks cmd buf ''EXISTS'' ks" "ks \<noteq> []"
  shows "returns (run v cmd buf d s) (\<lambda>(outcome, d', s'). outcome = Replied MoreToCome \<and> d' = d \<and>
    answered v (begun v d s) (VInteger (i64_saturate (length (filter (\<lambda>k. purge (now_of s) k m k \<noteq> None) ks)))) (purge_all (now_of s) ks m) s')"
proof (rule run_keyspace [OF assms(1,2)])
  have b: "serving v m (begun v d s)" using assms(1) by simp
  note a = asksD(2,3) [OF assms(2)]
  note ks = asks_args [OF assms(2)]
  have len: "length (filter (\<lambda>n. P (dispatch_arg cmd buf n)) [1..<command_len cmd]) = length (filter P ks)" for P
    unfolding ks [symmetric] filter_map by (simp add: o_def)
  show "strings v (ascii ''EXISTS'') cmd buf (begun v d s) = Some (False, begun v d s)" by (rule strings_other) simp
  have "\<not> command_len cmd < 2" using a(1) assms(3) by (cases ks) auto
  then show "returns (keyspace v (ascii ''EXISTS'') cmd buf (begun v d s)) (\<lambda>(known, s'). known \<and>
      answered v (begun v d s) (VInteger (i64_saturate (length (filter (\<lambda>k. purge (now_of s) k m k \<noteq> None) ks)))) (purge_all (now_of s) ks m) s')"
    using exists_returns [OF b, of cmd buf "[1..<command_len cmd]"] unfolding ks begun_simps len [of "\<lambda>k. purge (now_of s) k m k \<noteq> None"]
    by (simp add: keyspace_def del: not_None_eq)
qed

lemma run_ttl:
  assumes "serving v m s" "asks cmd buf name [key]" "(name, scale) \<in> {(''TTL'', 1), (''PTTL'', 1000)}"
  shows "returns (run v cmd buf d s) (\<lambda>(outcome, d', s'). outcome = Replied MoreToCome \<and> d' = d \<and>
    answered v (begun v d s) (VInteger (left_of (now_of s) (purge (now_of s) key m key) scale)) (purge (now_of s) key m) s')"
proof (rule run_keyspace [OF assms(1,2)])
  have b: "serving v m (begun v d s)" using assms(1) by simp
  show "strings v (ascii name) cmd buf (begun v d s) = Some (False, begun v d s)" by (rule strings_other) (use assms(3) in auto)
  have arms: "\<not> (ascii name = ascii ''DEL'' \<or> ascii name = ascii ''UNLINK'')" "ascii name \<noteq> ascii ''EXISTS''"
      "\<not> (ascii name = ascii ''EXPIRE'' \<or> ascii name = ascii ''PEXPIRE'' \<or> ascii name = ascii ''EXPIREAT'' \<or> ascii name = ascii ''PEXPIREAT'')"
      "ascii name = ascii ''TTL'' \<or> ascii name = ascii ''PTTL''" and scale: "scale = (if ascii name = ascii ''TTL'' then 1 else 1000)"
    using assms(3) by auto
  have len: "command_len cmd = 2" using asksD(2) [OF assms(2)] by simp
  have a: "dispatch_arg cmd buf 1 = key" using asksD(3) [OF assms(2), of 0] by simp
  show "returns (keyspace v (ascii name) cmd buf (begun v d s)) (\<lambda>(known, s'). known \<and>
      answered v (begun v d s) (VInteger (left_of (now_of s) (purge (now_of s) key m key) scale)) (purge (now_of s) key m) s')"
    unfolding keyspace_def if_not_P [OF arms(1)] if_not_P [OF arms(2)] if_not_P [OF arms(3)] if_P [OF arms(4)] arity_reply if_P [OF len]
      prod.case bool.case Let_def server_now_def a
    using ttl_returns [OF b, of key "now_of (begun v d s)" "ascii name = ascii ''TTL''", unfolded Let_def] scale by simp
qed

lemma run_expire:
  assumes "serving v m s" "asks cmd buf name [key, txt]" "integer_of txt = Some val"
    and "(name, millis, absolute) \<in> {(''EXPIRE'', False, False), (''PEXPIRE'', True, False), (''EXPIREAT'', False, True), (''PEXPIREAT'', True, True)}"
  shows "returns (run v cmd buf d s) (\<lambda>(outcome, d', s'). outcome = Replied MoreToCome \<and> d' = d \<and>
    expire_cmd_post v (begun v d s) key (moment (now_of s) val (if millis then 1000 else 1) absolute) m s')"
proof (rule run_keyspace [OF assms(1,2)])
  have b: "serving v m (begun v d s)" using assms(1) by simp
  have len: "command_len cmd = 3" using asksD(2) [OF assms(2)] by simp
  have a: "dispatch_arg cmd buf 1 = key" "dispatch_arg cmd buf 2 = txt" using asksD(3) [OF assms(2), of 0] asksD(3) [OF assms(2), of 1] by (simp_all add: numeral_2_eq_2)
  have shape: "(take 1 (ascii name) = ascii ''P'') = millis" "(drop (length (ascii name) - 2) (ascii name) = ascii ''AT'') = absolute"
    using assms(4) by (auto simp: ascii_def)
  show "strings v (ascii name) cmd buf (begun v d s) = Some (False, begun v d s)" by (rule strings_other) (use assms(4) in auto)
  have arms: "\<not> (ascii name = ascii ''DEL'' \<or> ascii name = ascii ''UNLINK'')" "ascii name \<noteq> ascii ''EXISTS''"
      "ascii name = ascii ''EXPIRE'' \<or> ascii name = ascii ''PEXPIRE'' \<or> ascii name = ascii ''EXPIREAT'' \<or> ascii name = ascii ''PEXPIREAT''"
    using assms(4) by auto
  show "returns (keyspace v (ascii name) cmd buf (begun v d s)) (\<lambda>(known, s'). known \<and>
      expire_cmd_post v (begun v d s) key (moment (now_of s) val (if millis then 1000 else 1) absolute) m s')"
    unfolding keyspace_def if_not_P [OF arms(1)] if_not_P [OF arms(2)] if_P [OF arms(3)] shape
      arity_reply if_P [OF len] prod.case bool.case Let_def dispatch_integer_reply a assms(3) option.case
    using expire_cmd_spec [OF b, of key val millis absolute] by simp
qed

end
