(* ===== verification/Rugo_Promises.thy ===== *)
theory Rugo_Promises
  imports Rugo_Commands Rugo_Room
begin

text \<open>
  The properties of the commands, each over \<^verbatim>\<open>dispatch::run\<close> itself, from the parsed command to the
  bytes of the reply and the cache that is left.
\<close>

section \<open>A server to look at\<close>

definition sample_env :: DispatchEnv where
  "sample_env = \<lparr> de_host = \<lparr> host_target = Portable, host_platform = \<lparr> lazy = False, page = 4096 \<rparr>, host_grants = (\<lambda>n. True),
       host_caps = (\<lambda>n i. \<lparr> cap_tail = 0, cap_large = 0, cap_large_free = 0, cap_free = 0 \<rparr>), host_os = ''linux'', host_pid = 1, host_uptime = 0,
       host_unicode = \<lparr> uni_lower = (\<lambda>x. [x]), uni_printable = (\<lambda>x. True), uni_grapheme_extended = (\<lambda>x. False) \<rparr> \<rparr>,
     de_thread = 0, de_config = config_default 1 \<rparr>"

definition sample_server :: Server where
  "sample_server = \<lparr> sv_map = map_with_seed 1 0 7 (Some 100), sv_stats = stats_new 1, sv_calls = 0, sv_reply = encoder_new [] Resp2 \<rparr>"

lemma sample_serving: "serving sample_env Map.empty sample_server"
proof -
  have "platform_ok \<lparr> lazy = False, page = 4096 \<rparr>" by (simp add: platform_ok_def granule_def)
  from map_new_spec [OF this] show ?thesis
    by (simp add: serving_def sample_env_def sample_server_def stats_new_def)
qed

lemma sample_now: "now_of sample_server = 100"
  by (simp add: sample_server_def map_with_seed_def Let_def clock_new_def clock_now_def unix_now_def)

text \<open>The same server with one entry.\<close>

lemma sample_entry:
  assumes "size_of_entry (length key) (length val) (e \<noteq> None) (u \<noteq> None) \<le> SMALL_MAX"
  shows "\<exists>s. serving sample_env [key \<mapsto> (val, e, u)] s \<and> now_of s = 100 \<and> out (sv_reply s) = []"
proof -
  let ?ev = "host_env (de_host sample_env) 0" and ?Mp = "sv_map sample_server"
  have inv: "map_inv (env_platform ?ev) (env_target ?ev) ?Mp Map.empty" using sample_serving by (simp add: serving_def)
  have "key_shard ?Mp key < length (mp_shards ?Mp)" using shard_of_less inv by (simp add: map_inv_def)
  then have "segments_of ?Mp key < MAX_SEGMENTS"
    by (simp add: segments_of_def sample_server_def map_with_seed_def Let_def table_new_def arena_new_def MAX_SEGMENTS_def)
  moreover have "env_grants ?ev" by (simp add: host_env_def sample_env_def)
  moreover have "mp_shard_budget ?Mp = 0" by (simp add: sample_server_def map_with_seed_def Let_def)
  ultimately obtain Mp' where Mp': "map_inv (env_platform ?ev) (env_target ?ev) Mp' [key \<mapsto> (val, e, u)]" "framed ?Mp Mp'"
    using small_write [OF inv _ _ assms] by (auto simp: map_wrote_def elim!: returnsE)
  have "serving sample_env [key \<mapsto> (val, e, u)] (sample_server\<lparr> sv_map := Mp' \<rparr>)"
    using Mp'(1) sample_serving by (simp add: serving_def)
  moreover have "now_of (sample_server\<lparr> sv_map := Mp' \<rparr>) = 100" using framed_now [OF Mp'(2)] sample_now by simp
  moreover have "out (sv_reply (sample_server\<lparr> sv_map := Mp' \<rparr>)) = []" by (simp add: sample_server_def encoder_new_def)
  ultimately show ?thesis by blast
qed

text \<open>A command of words that follow each other in the buffer.\<close>

definition words_cmd :: "bytes list \<Rightarrow> Command" where
  "words_cmd ws = \<lparr> args = map (\<lambda>i. \<lparr> span_at = of_nat (length (concat (take i ws))), span_len = of_nat (length (ws ! i)) \<rparr>) [0..<length ws] \<rparr>"

lemma words_args: "length (concat ws) < 2 ^ 32 \<Longrightarrow> command_args (words_cmd ws) (concat ws) = map Some ws"
proof (rule nth_equalityI)
  fix i assume small: "length (concat ws) < 2 ^ 32" and "i < length (command_args (words_cmd ws) (concat ws))"
  then have i: "i < length ws" by (simp add: command_args_def command_len_def words_cmd_def)
  have split: "concat ws = concat (take i ws) @ ws ! i @ concat (drop (Suc i) ws)"
    using id_take_nth_drop [OF i] by (metis concat.simps(2) concat_append)
  have "length (concat (take i ws)) + length (ws ! i) \<le> length (concat ws)" by (subst split) simp
  moreover have "take (length (ws ! i)) (drop (length (concat (take i ws))) (concat ws)) = ws ! i" by (subst split) simp
  ultimately
  show "command_args (words_cmd ws) (concat ws) ! i = map Some ws ! i"
    using span_slice_of_nat [OF _ small] i by (simp add: command_args_eq words_cmd_def)
qed (simp add: command_args_def command_len_def words_cmd_def)

lemma words_asks:
  "length (concat (raw # xs)) < 2 ^ 32 \<Longrightarrow> map to_ascii_uppercase raw = ascii name \<Longrightarrow> length name \<le> MAX_NAME \<Longrightarrow>
   asks (words_cmd (raw # xs)) (concat (raw # xs)) name xs"
  unfolding asks_def by (intro exI [of _ raw]) (use words_args [of "raw # xs"] in simp)

section \<open>Every command\<close>

text \<open>What a client and the next command see of an answer.\<close>

lemma answered_seen: "answered v (begun v d s) r m s' \<Longrightarrow> serving v m s' \<and> out (sv_reply s') = out (sv_reply s) @ encode d r"
  by (simp add: answered_def)

lemma oom_seen: "out_of_memory v (begun v d s) m s' \<Longrightarrow> limping v m s' \<and> out (sv_reply s') = out (sv_reply s) @ encode d OOM"
  by (simp add: out_of_memory_def)

text \<open>
  C2: On a server in order, every command with a name returns without a panic. It writes exactly one
  well-formed reply, in the dialect the connection is left in, and leaves the server in order; or the
  system refused memory, and the one reply says so and every entry still reads. A line of the reply
  never holds a line ending, whatever bytes the client sent. Only \<^verbatim>\<open>SHUTDOWN\<close> ends the process, and it
  touches nothing.
\<close>

theorem run_answers_once:
  assumes "serving v m s" "arg cmd 0 buf = Some raw"
  shows "returns (run v cmd buf d s) (\<lambda>(outcome, d', s').
    if outcome = Exited then map to_ascii_uppercase raw = ascii ''SHUTDOWN'' \<and> sv_map s' = sv_map s \<and> out (sv_reply s') = out (sv_reply s)
    else one_reply v s d' s')"
  by (rule run_spec [OF assms])

theorem run_answers_once_witness:
  "returns (run sample_env (words_cmd [ascii ''ping'']) (concat [ascii ''ping'']) Resp3 sample_server) (\<lambda>(outcome, d', s').
    if outcome = Exited then map to_ascii_uppercase (ascii ''ping'') = ascii ''SHUTDOWN'' \<and> sv_map s' = sv_map sample_server \<and>
      out (sv_reply s') = out (sv_reply sample_server)
    else one_reply sample_env sample_server d' s')"
proof (rule run_answers_once [OF sample_serving])
  have "command_args (words_cmd [ascii ''ping'']) (concat [ascii ''ping'']) = [Some (ascii ''ping'')]"
    using words_args [of "[ascii ''ping'']"] by (simp add: ascii_def)
  then show "arg (words_cmd [ascii ''ping'']) 0 (concat [ascii ''ping'']) = Some (ascii ''ping'')"
    by (simp add: command_args_def command_len_def words_cmd_def)
qed

text \<open>
  C14: \<^verbatim>\<open>GET\<close>, in any mix of cases, answers the stored value as a bulk string, or the null of the client's
  dialect when the key is absent or its time has come, in which case the entry is gone afterwards. It
  changes no other entry, and counts one command and one hit or miss.
\<close>

theorem get_answers:
  assumes "serving v m s" "asks cmd buf ''GET'' [key]"
  shows "returns (run v cmd buf d s) (\<lambda>(outcome, d', s'). outcome = Replied MoreToCome \<and> d' = d \<and>
    serving v (purge (now_of s) key m) s' \<and>
    out (sv_reply s') = out (sv_reply s) @ encode d (value_of (purge (now_of s) key m key)) \<and>
    stats_total (sv_stats s') = (if purge (now_of s) key m key = None then total_misses_update else total_hits_update) (\<lambda>n. n + 1)
      (total_commands_update (\<lambda>n. n + 1) (stats_total (sv_stats s))))"
proof -
  have i: "de_thread v < length (per (sv_stats s))" using assms(1) by (simp add: serving_def)
  show ?thesis
    by (rule returns_mono [OF run_get [OF assms]])
       (use i in \<open>auto simp: answered_def counted_as_def begun_def total_eq sum_list_map_update command_def hit_def miss_def bump_def encoder_new_def\<close>)
qed

theorem get_answers_witness:
  "returns (run sample_env (words_cmd [ascii ''gEt'', ascii ''k'']) (concat [ascii ''gEt'', ascii ''k'']) Resp2 sample_server)
    (\<lambda>(outcome, d', s'). outcome = Replied MoreToCome \<and> d' = Resp2 \<and>
      serving sample_env (purge (now_of sample_server) (ascii ''k'') Map.empty) s' \<and>
      out (sv_reply s') = out (sv_reply sample_server) @ encode Resp2 (value_of (purge (now_of sample_server) (ascii ''k'') Map.empty (ascii ''k''))) \<and>
      stats_total (sv_stats s') = (if purge (now_of sample_server) (ascii ''k'') Map.empty (ascii ''k'') = None then total_misses_update else total_hits_update)
        (\<lambda>n. n + 1) (total_commands_update (\<lambda>n. n + 1) (stats_total (sv_stats sample_server))))"
  by (rule get_answers [OF sample_serving words_asks]) (simp_all add: ascii_def to_ascii_uppercase_def MAX_NAME_def)

text \<open>
  C13: A \<^verbatim>\<open>SET\<close> of a key to a value that answers \<^verbatim>\<open>OK\<close> leaves the key with exactly that value, no expiry and
  no flags, and no other key gains or changes an entry: what the ceiling made the write evict is all
  that may be missing, of the key's own shard only, and nothing is missing without a ceiling. A \<^verbatim>\<open>GET\<close>
  of the key then answers the value. The only other answer to the \<^verbatim>\<open>SET\<close> is the refusal of memory, which
  leaves every entry as it was.
\<close>

theorem set_then_get:
  assumes "serving v m s" "asks cmd buf ''SET'' [key, val]" "asks cmd' buf' ''GET'' [key]"
  shows "returns (run v cmd buf d s) (\<lambda>(outcome, d1, s1).
    if out (sv_reply s1) = out (sv_reply s) @ encode d OK
    then (\<exists>m'. serving v m' s1 \<and> m' key = Some (val, None, None) \<and> m' \<subseteq>\<^sub>m m(key \<mapsto> (val, None, None)) \<and>
        after_write (sv_map s) key (m(key \<mapsto> (val, None, None))) m') \<and>
      returns (run v cmd' buf' d1 s1) (\<lambda>(outcome, d2, s2). out (sv_reply s2) = out (sv_reply s) @ encode d OK @ encode d (VBulk val))
    else out (sv_reply s1) = out (sv_reply s) @ encode d OOM \<and> limping v m s1)"
proof (rule returns_mono [OF run_plain_set [OF assms(1,2)]])
  fix r assume "(\<lambda>(outcome, d', s'). outcome = Replied MoreToCome \<and> d' = d \<and>
    ((\<exists>m'. after_write (sv_map s) key (m(key \<mapsto> (val, None, None))) m' \<and> answered v (begun v d s) OK m' s') \<or>
     out_of_memory v (begun v d s) m s')) r"
  then obtain s1 where r: "r = (Replied MoreToCome, d, s1)"
    and "(\<exists>m'. after_write (sv_map s) key (m(key \<mapsto> (val, None, None))) m' \<and> answered v (begun v d s) OK m' s1) \<or> out_of_memory v (begun v d s) m s1" by auto
  then consider m' where "after_write (sv_map s) key (m(key \<mapsto> (val, None, None))) m'" "answered v (begun v d s) OK m' s1"
    | "out_of_memory v (begun v d s) m s1" by auto
  then show "(\<lambda>(outcome, d1, s1). if out (sv_reply s1) = out (sv_reply s) @ encode d OK
      then (\<exists>m'. serving v m' s1 \<and> m' key = Some (val, None, None) \<and> m' \<subseteq>\<^sub>m m(key \<mapsto> (val, None, None)) \<and>
        after_write (sv_map s) key (m(key \<mapsto> (val, None, None))) m') \<and>
      returns (run v cmd' buf' d1 s1) (\<lambda>(outcome, d2, s2). out (sv_reply s2) = out (sv_reply s) @ encode d OK @ encode d (VBulk val))
      else out (sv_reply s1) = out (sv_reply s) @ encode d OOM \<and> limping v m s1) r"
  proof cases
    case (1 m')
    then have s1: "serving v m' s1" "m' key = Some (val, None, None)" "out (sv_reply s1) = out (sv_reply s) @ encode d OK"
        "m' \<subseteq>\<^sub>m m(key \<mapsto> (val, None, None))"
      by (auto simp: answered_def after_write_def)
    then have "\<exists>m'. serving v m' s1 \<and> m' key = Some (val, None, None) \<and> m' \<subseteq>\<^sub>m m(key \<mapsto> (val, None, None)) \<and>
        after_write (sv_map s) key (m(key \<mapsto> (val, None, None))) m'" using 1(1) by blast
    moreover have "purge (now_of s1) key m' key = Some (val, None, None)" using s1(2) by (simp add: purge_def expired_def)
    then have "returns (run v cmd' buf' d s1) (\<lambda>(outcome, d2, s2). out (sv_reply s2) = out (sv_reply s) @ encode d OK @ encode d (VBulk val))"
      using run_get [OF s1(1) assms(3), of d] s1(3) by (auto simp: answered_def value_of_def elim!: returns_mono)
    ultimately show ?thesis unfolding r using s1(3) by simp
  next
    case 2
    then show ?thesis unfolding r by (auto simp: out_of_memory_def OOM_def)
  qed
qed

theorem set_then_get_witness:
  "returns (run sample_env (words_cmd [ascii ''SET'', ascii ''k'', ascii ''v'']) (concat [ascii ''SET'', ascii ''k'', ascii ''v'']) Resp2 sample_server)
    (\<lambda>(outcome, d1, s1).
      if out (sv_reply s1) = out (sv_reply sample_server) @ encode Resp2 OK
      then (\<exists>m'. serving sample_env m' s1 \<and> m' (ascii ''k'') = Some (ascii ''v'', None, None) \<and>
          m' \<subseteq>\<^sub>m Map.empty(ascii ''k'' \<mapsto> (ascii ''v'', None, None)) \<and>
          after_write (sv_map sample_server) (ascii ''k'') (Map.empty(ascii ''k'' \<mapsto> (ascii ''v'', None, None))) m') \<and>
        returns (run sample_env (words_cmd [ascii ''GET'', ascii ''k'']) (concat [ascii ''GET'', ascii ''k'']) d1 s1)
        (\<lambda>(outcome, d2, s2). out (sv_reply s2) = out (sv_reply sample_server) @ encode Resp2 OK @ encode Resp2 (VBulk (ascii ''v'')))
      else out (sv_reply s1) = out (sv_reply sample_server) @ encode Resp2 OOM \<and> limping sample_env Map.empty s1)"
  by (rule set_then_get [OF sample_serving words_asks words_asks]) (simp_all add: ascii_def to_ascii_uppercase_def MAX_NAME_def)

text \<open>
  C15: A \<^verbatim>\<open>SET\<close> with \<^verbatim>\<open>NX\<close> or \<^verbatim>\<open>XX\<close>, in any case, writes exactly when the key is absent or present, where an
  entry whose time has come counts as absent. What the condition refuses is answered with a null and
  changes no live entry; what it allows drops the expiry the key had.
\<close>

theorem set_conditional:
  assumes "serving v m s" "asks cmd buf ''SET'' [key, val, opt]" "map to_ascii_lowercase opt = ascii (if nx then ''nx'' else ''xx'')"
  shows "returns (run v cmd buf d s) (\<lambda>(outcome, d', s').
    let m1 = purge (now_of s) key m
    in if (m1 key = None) = nx
       then (\<exists>m'. after_write (sv_map s) key (m1(key \<mapsto> (val, None, None))) m' \<and> serving v m' s' \<and>
               out (sv_reply s') = out (sv_reply s) @ encode d OK) \<or>
            (limping v m1 s' \<and> out (sv_reply s') = out (sv_reply s) @ encode d OOM)
       else serving v m1 s' \<and> out (sv_reply s') = out (sv_reply s) @ encode d VNull)"
proof -
  have a: "command_len cmd = 4" "dispatch_arg cmd buf 1 = key" "dispatch_arg cmd buf 2 = val" "dispatch_arg cmd buf 3 = opt"
    using asksD(2,3) [OF assms(2)] asksD(3) [OF assms(2), of 0] asksD(3) [OF assms(2), of 1] asksD(3) [OF assms(2), of 2]
    by (simp_all add: numeral_2_eq_2 numeral_3_eq_3)
  let ?when = "if nx then Absent else Present"
  have "eq_ignore_ascii_case opt (ascii ''NX'') = nx" "eq_ignore_ascii_case opt (ascii ''XX'') = (\<not> nx)"
    unfolding eq_ignore_ascii_case_def assms(3) by (auto simp: ascii_def to_ascii_lowercase_def)
  then have "set_options (now_of s) cmd buf 3 Always Never = set_options (now_of s) cmd buf 4 ?when Never"
    by (subst set_options.simps) (auto simp: a)
  also have "\<dots> = Inr (?when, Never)" by (subst set_options.simps) (simp add: a(1))
  finally have opts: "set_options (now_of s) cmd buf 3 Always Never = Inr (?when, Never)" .
  have post: "set_cmd_post v cmd buf (begun v d s) m s' = set_when_post v (begun v d s) m key val ?when Never s'" for s'
    by (simp add: set_cmd_post_def Let_def a opts del: One_nat_def)
  have allowed: "set_when_allowed m1 key ?when \<longleftrightarrow> (m1 key = None) = nx" for m1 by (auto simp: set_when_allowed_def)
  show ?thesis
    by (rule returns_mono [OF run_set [OF assms(1,2)]])
       (auto simp: post set_when_post_def Let_def allowed set_when_expiry_def simp del: encode.simps dest!: answered_seen oom_seen split: if_splits)
qed

theorem set_conditional_witness:
  "returns (run sample_env (words_cmd [ascii ''SET'', ascii ''k'', ascii ''v'', ascii ''nX'']) (concat [ascii ''SET'', ascii ''k'', ascii ''v'', ascii ''nX'']) Resp2 sample_server)
    (\<lambda>(outcome, d', s').
      let m1 = purge (now_of sample_server) (ascii ''k'') Map.empty
      in if (m1 (ascii ''k'') = None) = True
         then (\<exists>m'. after_write (sv_map sample_server) (ascii ''k'') (m1(ascii ''k'' \<mapsto> (ascii ''v'', None, None))) m' \<and> serving sample_env m' s' \<and>
                 out (sv_reply s') = out (sv_reply sample_server) @ encode Resp2 OK) \<or>
              (limping sample_env m1 s' \<and> out (sv_reply s') = out (sv_reply sample_server) @ encode Resp2 OOM)
         else serving sample_env m1 s' \<and> out (sv_reply s') = out (sv_reply sample_server) @ encode Resp2 VNull)"
  by (rule set_conditional [OF sample_serving words_asks]) (simp_all add: ascii_def to_ascii_uppercase_def to_ascii_lowercase_def MAX_NAME_def)


lemma split_due:
  "card {k \<in> set ks. m k \<noteq> None \<and> \<not> due now m k} + card {k \<in> set ks. due now m k} = card (set ks \<inter> dom m)"
proof -
  have "set ks \<inter> dom m = {k \<in> set ks. m k \<noteq> None \<and> \<not> due now m k} \<union> {k \<in> set ks. due now m k}"
    by (auto simp: due_def split: option.splits)
  then show ?thesis by (simp add: card_Un_disjoint disjoint_iff)
qed

text \<open>
  C16: \<^verbatim>\<open>DEL\<close> and \<^verbatim>\<open>UNLINK\<close> take exactly the entries of the named keys out, leave every other entry, and
  answer how many distinct entries they took out: the named keys that are live, and on top of them
  the named keys whose time has come but which nothing has read or swept since. The second count is
  where the answer differs from what \<^verbatim>\<open>EXISTS\<close> and \<^verbatim>\<open>GET\<close> say of the same keys.
\<close>

theorem del_counts:
  assumes "serving v m s" "asks cmd buf name ks" "ks \<noteq> []" "name \<in> {''DEL'', ''UNLINK''}"
  shows "returns (run v cmd buf d s) (\<lambda>(outcome, d', s'). outcome = Replied MoreToCome \<and> d' = d \<and>
    serving v (m |` (- set ks)) s' \<and> out (sv_reply s') = out (sv_reply s) @ encode d (VInteger (i64_saturate
      (card {k \<in> set ks. m k \<noteq> None \<and> \<not> due (now_of s) m k} + card {k \<in> set ks. due (now_of s) m k}))))"
  unfolding split_due by (rule returns_mono [OF run_del [OF assms]]) (auto simp: answered_def)

theorem del_counts_witness:
  "returns (run sample_env (words_cmd [ascii ''del'', ascii ''k'', ascii ''k'']) (concat [ascii ''del'', ascii ''k'', ascii ''k'']) Resp2 sample_server)
    (\<lambda>(outcome, d', s'). outcome = Replied MoreToCome \<and> d' = Resp2 \<and>
      serving sample_env (Map.empty |` (- set [ascii ''k'', ascii ''k''])) s' \<and>
      out (sv_reply s') = out (sv_reply sample_server) @
        encode Resp2 (VInteger (i64_saturate (
          card {k \<in> set [ascii ''k'', ascii ''k'']. (Map.empty :: cache) k \<noteq> None \<and> \<not> due (now_of sample_server) Map.empty k} +
          card {k \<in> set [ascii ''k'', ascii ''k'']. due (now_of sample_server) Map.empty k}))))"
  by (rule del_counts [OF sample_serving words_asks, where name = "''DEL''"]) (simp_all add: ascii_def to_ascii_uppercase_def MAX_NAME_def)

text \<open>
  A key whose time has come but which nothing has read since is there for \<^verbatim>\<open>DEL\<close> and not for
  \<^verbatim>\<open>EXISTS\<close>: the one answers one and the other answers nought on the same state.
\<close>

theorem expired_key_two_answers:
  assumes "serving v m s" "m key = Some (x, Some at, u)" "at \<le> now_of s" "asks cmd buf ''DEL'' [key]" "asks cmd' buf' ''EXISTS'' [key]"
  shows "returns (run v cmd buf d s) (\<lambda>(outcome, d', s'). out (sv_reply s') = out (sv_reply s) @ encode d (VInteger 1)) \<and>
    returns (run v cmd' buf' d s) (\<lambda>(outcome, d', s'). out (sv_reply s') = out (sv_reply s) @ encode d (VInteger 0))"
proof
  have "set [key] \<inter> dom m = {key}" using assms(2) by auto
  then have "i64_saturate (card (set [key] \<inter> dom m)) = 1" by (simp add: i64_saturate_def i64_MAX_def)
  then show "returns (run v cmd buf d s) (\<lambda>(outcome, d', s'). out (sv_reply s') = out (sv_reply s) @ encode d (VInteger 1))"
    using run_del [OF assms(1,4), of d] by (auto simp: answered_def elim!: returns_mono)
  have "purge (now_of s) key m key = None" using assms(2,3) by (simp add: purge_def expired_def)
  then have "i64_saturate (length (filter (\<lambda>k. purge (now_of s) k m k \<noteq> None) [key])) = 0" by (simp add: i64_saturate_def i64_MAX_def)
  then show "returns (run v cmd' buf' d s) (\<lambda>(outcome, d', s'). out (sv_reply s') = out (sv_reply s) @ encode d (VInteger 0))"
    using run_exists [OF assms(1,5), of d] by (auto simp: answered_def simp del: not_None_eq elim!: returns_mono)
qed

theorem expired_key_two_answers_witness:
  "\<exists>s. returns (run sample_env (words_cmd [ascii ''DEL'', ascii ''k'']) (concat [ascii ''DEL'', ascii ''k'']) Resp2 s)
      (\<lambda>(outcome, d', s'). out (sv_reply s') = out (sv_reply s) @ encode Resp2 (VInteger 1)) \<and>
    returns (run sample_env (words_cmd [ascii ''EXISTS'', ascii ''k'']) (concat [ascii ''EXISTS'', ascii ''k'']) Resp2 s)
      (\<lambda>(outcome, d', s'). out (sv_reply s') = out (sv_reply s) @ encode Resp2 (VInteger 0))"
proof -
  obtain s where s: "serving sample_env [ascii ''k'' \<mapsto> (ascii ''v'', Some 50, None)] s" "now_of s = 100"
    using sample_entry [of "ascii ''k''" "ascii ''v''" "Some 50" None]
    by (auto simp: size_of_entry_def klen_len_def varint_len_def ascii_def SMALL_MAX_def)
  have "(50 :: u32) \<le> 100" by code_simp
  then have due: "50 \<le> now_of s" unfolding s(2) .
  have m: "[ascii ''k'' \<mapsto> (ascii ''v'', Some 50, None)] (ascii ''k'') = Some (ascii ''v'', Some 50, None)" by simp
  show ?thesis
    by (intro exI [of _ s], rule expired_key_two_answers [OF s(1) m due words_asks words_asks])
       (simp_all add: ascii_def to_ascii_uppercase_def MAX_NAME_def)
qed

text \<open>
  C17: \<^verbatim>\<open>INCR\<close> and \<^verbatim>\<open>DECR\<close> of a live key that holds a printed 64-bit integer answer the next one and store
  it, with the expiry and the flags the key had; at the end of the range they answer an error and
  change nothing, and a refusal of memory leaves the old value readable.
\<close>

theorem counter_counts:
  assumes "serving v m s" "asks cmd buf name [key]" "(name, delta) \<in> {(''INCR'', 1), (''DECR'', - 1)}"
    and "m key = Some (dec_int n, e, u)" "\<not> expired e (now_of s)" "i64_MIN \<le> n" "n \<le> i64_MAX"
  shows "returns (run v cmd buf d s) (\<lambda>(outcome, d', s').
    case i64_checked (n + delta) of
      Some n' \<Rightarrow>
        (\<exists>m'. serving v m' s' \<and> m' key = Some (dec_int n', e, u) \<and> out (sv_reply s') = out (sv_reply s) @ encode d (VInteger n')) \<or>
        (limping v m s' \<and> out (sv_reply s') = out (sv_reply s) @ encode d OOM)
    | None \<Rightarrow> serving v m s' \<and>
        out (sv_reply s') = out (sv_reply s) @ encode d (VError (ascii ''ERR increment or decrement would overflow'')))"
proof -
  have m: "purge (now_of s) key m = m" using assms(4,5) by (simp add: purge_def)
  have c: "counted_of m key delta = (case i64_checked (n + delta) of None \<Rightarrow> Inl OutOfRange | Some n' \<Rightarrow> Inr (n', dec_int n', e, u))"
    using assms(4) decimal_dec_int [OF assms(6,7)] by (simp add: counted_of_def)
  show ?thesis
    by (rule returns_mono [OF run_count [OF assms(1-3)]])
       (auto simp: count_post_def m c after_write_def simp del: encode.simps dest!: answered_seen oom_seen split: option.splits)
qed

theorem counter_counts_witness:
  "\<exists>s. returns (run sample_env (words_cmd [ascii ''INCR'', ascii ''k'']) (concat [ascii ''INCR'', ascii ''k'']) Resp2 s) (\<lambda>(outcome, d', s').
    case i64_checked (41 + 1) of
      Some n' \<Rightarrow>
        (\<exists>m'. serving sample_env m' s' \<and> m' (ascii ''k'') = Some (dec_int n', Some 500, None) \<and>
           out (sv_reply s') = out (sv_reply s) @ encode Resp2 (VInteger n')) \<or>
        (limping sample_env [ascii ''k'' \<mapsto> (dec_int 41, Some 500, None)] s' \<and> out (sv_reply s') = out (sv_reply s) @ encode Resp2 OOM)
    | None \<Rightarrow> serving sample_env [ascii ''k'' \<mapsto> (dec_int 41, Some 500, None)] s' \<and>
        out (sv_reply s') = out (sv_reply s) @ encode Resp2 (VError (ascii ''ERR increment or decrement would overflow'')))"
proof -
  have "length (dec 41) \<le> 2" by (rule length_dec) simp_all
  then have "length (dec_int 41) \<le> 2" by (simp add: dec_int_def)
  then obtain s where s: "serving sample_env [ascii ''k'' \<mapsto> (dec_int 41, Some 500, None)] s" "now_of s = 100"
    using sample_entry [of "ascii ''k''" "dec_int 41" "Some 500" None]
    by (auto simp: size_of_entry_def klen_len_def varint_len_def ascii_def SMALL_MAX_def)
  show ?thesis
    by (intro exI [of _ s], rule counter_counts [OF s(1) words_asks, where name = "''INCR''"])
       (use s(2) in \<open>simp_all add: ascii_def to_ascii_uppercase_def MAX_NAME_def expired_def i64_MIN_def i64_MAX_def word_le_nat_alt\<close>)
qed

section \<open>Integer arguments\<close>

lemma utf8_chunks_ascii: "list_all (\<lambda>b. unat b < 128) bs \<Longrightarrow> utf8_chunks bs = map (\<lambda>b. Some (unat b)) bs"
proof (induction bs)
  case (Cons b bs)
  have "utf8_first (b # bs) = (1, Some (unat b))" using Cons.prems by (simp add: utf8_first_def safe_get_def)
  then show ?case using Cons by (subst utf8_chunks.simps) simp
qed (simp add: utf8_chunks.simps)

lemma unat_digit: "d < 10 \<Longrightarrow> unat (48 + of_nat d :: u8) = 48 + d"
proof -
  assume d: "d < 10"
  then have "48 + of_nat d = (of_nat (48 + d) :: u8)" by simp
  then show ?thesis using d by (simp only: unat_of_nat) (simp add: take_bit_eq_mod)
qed

lemma parse_digits_append:
  "parse_digits c neg (xs @ ys) v = Option.bind (parse_digits c neg xs v) (parse_digits c neg ys)"
  by (induction c neg xs v rule: parse_digits.induct) (auto split: bind_splits)

lemma parse_digits_dec:
  assumes "lo \<le> 0" "0 \<le> hi"
  shows "(if neg then lo \<le> - int n else int n \<le> hi) \<Longrightarrow>
    parse_digits (\<lambda>v. if lo \<le> v \<and> v \<le> hi then Some v else None) neg (map unat (dec n)) 0 = Some (if neg then - int n else int n)"
proof (induction n rule: dec.induct)
  case (1 n)
  let ?c = "\<lambda>v. if lo \<le> v \<and> v \<le> hi then Some v else None"
  have one: "parse_digits ?c neg (map unat [48 + of_nat d :: u8]) v = Some (if neg then v * 10 - int d else v * 10 + int d)"
    if "d < 10" "if neg then lo \<le> v * 10 - int d \<and> v \<le> 0 else v * 10 + int d \<le> hi \<and> 0 \<le> v" for d v
  proof -
    have "map unat [48 + of_nat d :: u8] = [48 + d]" using unat_digit [OF that(1)] by simp
    then show ?thesis using that assms by (cases neg) auto
  qed
  show ?case
  proof (cases "n < 10")
    case True
    then show ?thesis using one [of n 0] 1(2) assms by (subst dec.simps) auto
  next
    case False
    have split: "int n = int (n div 10) * 10 + int (n mod 10)" by (metis div_mult_mod_eq of_nat_add of_nat_mult of_nat_numeral)
    have IH: "parse_digits ?c neg (map unat (dec (n div 10))) 0 = Some (if neg then - int (n div 10) else int (n div 10))"
      using 1(1) [OF False] 1(2) split by (auto split: if_splits)
    have "n mod 10 < 10" by simp
    from one [OF this, of "if neg then - int (n div 10) else int (n div 10)"]
    have "parse_digits ?c neg (map unat [48 + of_nat (n mod 10) :: u8]) (if neg then - int (n div 10) else int (n div 10)) = Some (if neg then - int n else int n)"
      using 1(2) split by (auto split: if_splits)
    then show ?thesis using False IH by (subst dec.simps) (simp only: if_False map_append parse_digits_append Option.bind.bind_lunit)
  qed
qed

lemma dec_ascii: "list_all (\<lambda>b. unat b < 128) (dec n)"
  using dec_digits [of _ n] unat_digit by (fastforce simp: list_all_iff)

lemma dec_first: "48 \<le> unat (hd (dec n))"
  using dec_digits [OF hd_in_set [OF dec_not_Nil], of n] unat_digit by auto

lemma integer_of_dec_int:
  assumes "i64_MIN \<le> n" "n \<le> i64_MAX"
  shows "integer_of (dec_int n) = Some n"
proof -
  have c: "i64_checked = (\<lambda>v. if i64_MIN \<le> v \<and> v \<le> i64_MAX then Some v else None)" by (rule ext) (simp add: i64_checked_def)
  have z: "i64_MIN \<le> 0" "0 \<le> i64_MAX" by (simp_all add: i64_MIN_def i64_MAX_def)
  let ?ds = "dec (nat \<bar>n\<bar>)"
  obtain b bs where ds: "dec (nat \<bar>n\<bar>) = b # bs" and digit: "unat b \<noteq> 43" "unat b \<noteq> 45" using dec_first [of "nat \<bar>n\<bar>"] by (cases ?ds) auto
  have utf: "from_utf8 xs = Some (map unat xs)" if "list_all (\<lambda>b. unat b < 128) xs" for xs
    using that by (simp add: from_utf8_def from_utf8_lossy_def utf8_chunks_ascii list_all_iff)
  show ?thesis
  proof (cases "n < 0")
    case True
    then have "parse_i64 (map unat (45 # ?ds)) = Some n"
      using parse_digits_dec [OF z, of True "nat \<bar>n\<bar>"] assms by (simp add: parse_i64_def parse_int_def c)
    then show ?thesis using True utf [of "45 # ?ds"] dec_ascii by (simp add: integer_of_def dec_int_def)
  next
    case False
    then have "parse_i64 (map unat ?ds) = Some n"
      using parse_digits_dec [OF z, of False "nat \<bar>n\<bar>"] assms digit unfolding ds by (simp add: parse_i64_def parse_int_def c)
    then show ?thesis using False utf [of ?ds] dec_ascii by (simp add: integer_of_def dec_int_def)
  qed
qed

text \<open>
  Decimal integers survive printing and reading as arguments, over the whole range of 64 bits: what
  the server prints, it accepts.
\<close>

theorem integer_argument_round_trip:
  assumes "i64_MIN \<le> n" "n \<le> i64_MAX"
  shows "integer_of (dec_int n) = Some n"
  by (rule integer_of_dec_int [OF assms])

theorem integer_argument_round_trip_witness: "integer_of (dec_int (- (2 ^ 63))) = Some (- (2 ^ 63))"
  by (rule integer_argument_round_trip) (simp_all add: i64_MIN_def i64_MAX_def)

end
