(* ===== verification/Rugo_Deadlines.thy ===== *)
theory Rugo_Deadlines
  imports Rugo_Promises
begin

text \<open>
  Expiries through the commands: what \<^verbatim>\<open>EXPIRE\<close> and \<^verbatim>\<open>PEXPIRE\<close> promise and \<^verbatim>\<open>TTL\<close> answers, and where the
  arithmetic of \<^verbatim>\<open>moment\<close> runs over.
\<close>

lemma i64_wrap_id: "i64_MIN \<le> v \<Longrightarrow> v \<le> i64_MAX \<Longrightarrow> i64_wrap v = v"
  by (simp add: i64_wrap_def i64_MIN_def i64_MAX_def)

lemma i64_wrap_small: "0 \<le> v \<Longrightarrow> v < 2 ^ 32 \<Longrightarrow> i64_wrap v = v"
  by (rule i64_wrap_id) (simp_all add: i64_MIN_def i64_MAX_def)

text \<open>Seconds, rounded up.\<close>

definition seconds :: "int \<Rightarrow> int \<Rightarrow> int" where
  "seconds n scale = n div scale + (if n mod scale \<noteq> 0 then 1 else 0)"

lemma seconds_up: "0 < scale \<Longrightarrow> n \<le> seconds n scale * scale \<and> (seconds n scale - 1) * scale < n"
proof -
  assume s: "0 < scale"
  have n: "n = n div scale * scale + n mod scale" by simp
  have r: "0 \<le> n mod scale" "n mod scale < scale" using s by simp_all
  show ?thesis
  proof (cases "n mod scale = 0")
    case True
    have "seconds n scale * scale = n" using n True by (simp add: seconds_def)
    then show ?thesis using s by (simp add: left_diff_distrib)
  next
    case False
    have "seconds n scale * scale = n div scale * scale + scale" using False by (simp add: seconds_def distrib_right)
    moreover have "0 < n mod scale" using r(1) False by linarith
    ultimately show ?thesis using n r(2) by (simp only: left_diff_distrib) linarith
  qed
qed

lemma seconds_pos: "0 < n \<Longrightarrow> 0 < scale \<Longrightarrow> 0 < seconds n scale"
  using seconds_up [of scale n] by (metis less_le_trans linorder_not_le mult_nonpos_nonneg order_less_imp_le)

lemma moment_small:
  assumes "0 \<le> seconds n scale" "int (unat now) + seconds n scale < 2 ^ 32"
  shows "moment now n scale False = int (unat now) + seconds n scale"
proof -
  have z: "0 \<le> int (unat now)" by (rule of_nat_0_le_iff)
  have "i64_wrap (seconds n scale) = seconds n scale"
    by (rule i64_wrap_small) (use assms z in linarith)+
  moreover have "i64_wrap (int (unat now) + seconds n scale) = int (unat now) + seconds n scale"
    by (rule i64_wrap_small) (use assms z in linarith)+
  ultimately show ?thesis by (simp add: moment_def seconds_def Let_def)
qed

lemma unat_stamp: "0 \<le> at \<Longrightarrow> at < 2 ^ 32 \<Longrightarrow> int (unat (stamp at)) = at"
  by (simp add: stamp_def uint_word_of_int take_bit_eq_mod)

lemma stamp_later: "int (unat now) < at \<Longrightarrow> at < 2 ^ 32 \<Longrightarrow> \<not> stamp at \<le> now"
  unfolding word_le_nat_alt using unat_stamp [of at] by linarith

lemma left_of_stamp:
  assumes "int (unat now) \<le> at" "at < 2 ^ 32"
  shows "left_of now (Some (x, Some (stamp at), u)) 1 = at - int (unat now)"
proof -
  have s: "int (unat (stamp at)) = at" using unat_stamp assms by (metis of_nat_0_le_iff order_trans)
  then have "now \<le> stamp at" unfolding word_le_nat_alt using assms(1) by linarith
  then have "int (unat (stamp at - now)) = at - int (unat now)" using s assms(1) by (simp only: unat_sub word_le_nat_alt of_nat_diff)
  then show ?thesis using \<open>now \<le> stamp at\<close> by (simp add: left_of_def saturating_sub_def)
qed

text \<open>The moment is within the clock: the entry is restamped, or memory was refused.\<close>

lemma run_expire_live:
  assumes "serving v m s" "asks cmd buf name [key, dec_int n]" "(name, scale) \<in> {(''EXPIRE'', 1), (''PEXPIRE'', 1000)}"
    and "m key = Some (x, e, u)" "\<not> expired e (now_of s)" "0 < n" "n \<le> i64_MAX" "int (unat (now_of s)) + seconds n scale < 2 ^ 32"
  shows "returns (run v cmd buf d s) (\<lambda>(outcome, d1, s1). d1 = d \<and>
    ((\<exists>m'. after_write (sv_map s) key (expire_cache m key (Some (stamp (int (unat (now_of s)) + seconds n scale)))) m' \<and>
        answered v (begun v d s) (VInteger 1) m' s1) \<or> out_of_memory v (begun v d s) m s1))"
proof -
  let ?now = "now_of s" and ?at = "int (unat (now_of s)) + seconds n scale"
  have scale: "0 < scale" and pick: "(name, scale = 1000, False) \<in> {(''EXPIRE'', False, False), (''PEXPIRE'', True, False), (''EXPIREAT'', False, True), (''PEXPIREAT'', True, True)}"
    "(if scale = 1000 then 1000 else 1) = scale" using assms(3) by auto
  have sec: "0 < seconds n scale" by (rule seconds_pos [OF assms(6) scale])
  have mom: "moment ?now n scale False = ?at" by (rule moment_small [OF _ assms(8)]) (use sec in simp)
  have int: "integer_of (dec_int n) = Some n" by (rule integer_of_dec_int) (use assms(6,7) in \<open>simp_all add: i64_MIN_def\<close>)
  have m1: "purge ?now key m = m" using assms(4,5) by (simp add: purge_def)
  have later: "\<not> ?at \<le> int (unat ?now)" using sec by simp
  show ?thesis
    by (rule returns_mono [OF run_expire [OF assms(1,2) int pick(1)]])
       (use later in \<open>unfold pick(2) mom, auto simp: expire_cmd_post_def m1 assms(4)\<close>)
qed

text \<open>
  C18: \<^verbatim>\<open>EXPIRE\<close> or \<^verbatim>\<open>PEXPIRE\<close> of a live key by a positive number of seconds or milliseconds, as long as the
  moment is within the map's clock, answers one, keeps the value and the flags, and a \<^verbatim>\<open>TTL\<close> asked in the
  same second answers the duration in whole seconds, rounded up, so that no key is dropped early; the
  only other answer is the refusal of memory, which leaves every entry readable.
\<close>

theorem expire_then_ttl:
  assumes "serving v m s" "asks cmd buf name [key, dec_int n]" "asks cmd' buf' ''TTL'' [key]"
    and "(name, scale) \<in> {(''EXPIRE'', 1), (''PEXPIRE'', 1000)}"
    and "m key = Some (x, e, u)" "\<not> expired e (now_of s)" "0 < n" "n \<le> i64_MAX" "int (unat (now_of s)) + seconds n scale < 2 ^ 32"
  shows "returns (run v cmd buf d s) (\<lambda>(outcome, d1, s1).
    if out (sv_reply s1) = out (sv_reply s) @ encode d (VInteger 1)
    then (\<exists>m'. serving v m' s1 \<and> m' key = Some (x, Some (stamp (int (unat (now_of s)) + seconds n scale)), u)) \<and>
      n \<le> seconds n scale * scale \<and> (seconds n scale - 1) * scale < n \<and>
      returns (run v cmd' buf' d1 s1) (\<lambda>(outcome, d2, s2).
        out (sv_reply s2) = out (sv_reply s) @ encode d (VInteger 1) @ encode d (VInteger (seconds n scale)))
    else out (sv_reply s1) = out (sv_reply s) @ encode d OOM \<and> limping v m s1)"
proof (rule returns_mono [OF run_expire_live [OF assms(1,2,4-9)]], clarify)
  let ?now = "now_of s" and ?at = "int (unat (now_of s)) + seconds n scale"
  have scale: "0 < scale" using assms(4) by auto
  have sec: "0 < seconds n scale" by (rule seconds_pos [OF assms(7) scale])
  fix outcome s1
  assume "(\<exists>m'. after_write (sv_map s) key (expire_cache m key (Some (stamp ?at))) m' \<and> answered v (begun v d s) (VInteger 1) m' s1) \<or>
    out_of_memory v (begun v d s) m s1"
  then consider m' where "after_write (sv_map s) key (expire_cache m key (Some (stamp ?at))) m'" "answered v (begun v d s) (VInteger 1) m' s1"
    | "out_of_memory v (begun v d s) m s1" by auto
  then show "if out (sv_reply s1) = out (sv_reply s) @ encode d (VInteger 1)
    then (\<exists>m'. serving v m' s1 \<and> m' key = Some (x, Some (stamp ?at), u)) \<and>
      n \<le> seconds n scale * scale \<and> (seconds n scale - 1) * scale < n \<and>
      returns (run v cmd' buf' d s1) (\<lambda>(outcome, d2, s2).
        out (sv_reply s2) = out (sv_reply s) @ encode d (VInteger 1) @ encode d (VInteger (seconds n scale)))
    else out (sv_reply s1) = out (sv_reply s) @ encode d OOM \<and> limping v m s1"
  proof cases
    case (1 m')
    have m': "serving v m' s1" "m' key = Some (x, Some (stamp ?at), u)" "out (sv_reply s1) = out (sv_reply s) @ encode d (VInteger 1)" "now_of s1 = now_of s"
      using 1 assms(5) by (auto simp: answered_def after_write_def expire_cache_def simp del: encode.simps dest: framed_now)
    have "\<not> expired (Some (stamp ?at)) ?now" using stamp_later [of ?now ?at] assms(9) sec by (simp add: expired_def)
    then have "purge ?now key m' key = Some (x, Some (stamp ?at), u)" using m'(2) by (simp add: purge_def)
    then have "left_of (now_of s1) (purge (now_of s1) key m' key) 1 = seconds n scale"
      unfolding m'(4) using left_of_stamp [of ?now ?at] assms(9) sec by simp
    then have "returns (run v cmd' buf' d s1) (\<lambda>(outcome, d2, s2).
        out (sv_reply s2) = out (sv_reply s) @ encode d (VInteger 1) @ encode d (VInteger (seconds n scale)))"
      using run_ttl [OF m'(1) assms(3), of 1 d] m'(3) by (auto simp: answered_def simp del: encode.simps elim!: returns_mono)
    then show ?thesis using m' seconds_up [OF scale] by (auto simp del: encode.simps)
  next
    case 2
    then show ?thesis by (auto simp: out_of_memory_def OOM_def)
  qed
qed

theorem expire_then_ttl_witness:
  "\<exists>s. returns (run sample_env (words_cmd [ascii ''pexpire'', ascii ''k'', dec_int 1500]) (concat [ascii ''pexpire'', ascii ''k'', dec_int 1500]) Resp2 s)
    (\<lambda>(outcome, d1, s1).
      if out (sv_reply s1) = out (sv_reply s) @ encode Resp2 (VInteger 1)
      then (\<exists>m'. serving sample_env m' s1 \<and> m' (ascii ''k'') = Some (ascii ''v'', Some (stamp (int (unat (now_of s)) + seconds 1500 1000)), None)) \<and>
        1500 \<le> seconds 1500 1000 * 1000 \<and> (seconds 1500 1000 - 1) * 1000 < 1500 \<and>
        returns (run sample_env (words_cmd [ascii ''ttl'', ascii ''k'']) (concat [ascii ''ttl'', ascii ''k'']) d1 s1) (\<lambda>(outcome, d2, s2).
          out (sv_reply s2) = out (sv_reply s) @ encode Resp2 (VInteger 1) @ encode Resp2 (VInteger (seconds 1500 1000)))
      else out (sv_reply s1) = out (sv_reply s) @ encode Resp2 OOM \<and> limping sample_env [ascii ''k'' \<mapsto> (ascii ''v'', None, None)] s1)"
proof -
  obtain s where s: "serving sample_env [ascii ''k'' \<mapsto> (ascii ''v'', None, None)] s" "now_of s = 100"
    using sample_entry [of "ascii ''k''" "ascii ''v''" None None]
    by (auto simp: size_of_entry_def klen_len_def varint_len_def ascii_def SMALL_MAX_def)
  have "\<not> expired None (100 :: u32)" by (simp add: expired_def)
  moreover have "length (dec 1500) \<le> 4" by (rule length_dec) simp_all
  ultimately have l: "length (dec_int 1500) \<le> 4" "\<not> expired None (now_of s)" using s(2) by (simp_all add: dec_int_def)
  show ?thesis
    by (intro exI [of _ s], rule expire_then_ttl [OF s(1) words_asks words_asks, where name = "''PEXPIRE''"])
       (use s(2) l in \<open>simp_all add: ascii_def to_ascii_uppercase_def MAX_NAME_def i64_MAX_def seconds_def\<close>)
qed

text \<open>
  C27: A duration so long that the moment runs over 64 bits deletes the key it was to keep: \<^verbatim>\<open>EXPIRE\<close> of a
  key by the largest integer there is answers one, as if the expiry had been set, and takes the entry out,
  because the sum wraps to a moment before the epoch instead of saturating.
\<close>

theorem expire_overflow_deletes:
  assumes "serving v m s" "asks cmd buf ''EXPIRE'' [key, dec_int i64_MAX]" "m key \<noteq> None" "0 < now_of s"
  shows "returns (run v cmd buf d s) (\<lambda>(outcome, d', s').
    serving v (m(key := None)) s' \<and> out (sv_reply s') = out (sv_reply s) @ encode d (VInteger 1))"
proof -
  have int: "integer_of (dec_int i64_MAX) = Some i64_MAX" by (rule integer_of_dec_int) (simp_all add: i64_MIN_def i64_MAX_def)
  have now: "0 < uint (now_of s)" "uint (now_of s) < 2 ^ 32" using assms(4) uint_bounded [of "now_of s"] by (simp_all add: word_less_def)
  have "i64_wrap i64_MAX = i64_MAX" by (rule i64_wrap_id) (simp_all add: i64_MIN_def i64_MAX_def)
  moreover have "i64_wrap (uint (now_of s) + i64_MAX) = uint (now_of s) - 2 ^ 63 - 1"
  proof -
    have "(uint (now_of s) + i64_MAX + 2 ^ 63) = (uint (now_of s) - 1) + 2 ^ 64" by (simp add: i64_MAX_def)
    moreover have "(uint (now_of s) - 1) mod 2 ^ 64 = uint (now_of s) - 1" by (rule mod_pos_pos_trivial) (use now in simp_all)
    ultimately show ?thesis unfolding i64_wrap_def by (simp only: mod_add_self2)
  qed
  ultimately have mom: "moment (now_of s) i64_MAX 1 False \<le> int (unat (now_of s))" by (simp add: moment_def)
  show ?thesis
    by (rule returns_mono [OF run_expire [OF assms(1,2) int, where millis = False and absolute = False]])
       (use mom assms(3) in \<open>auto simp: expire_cmd_post_def simp del: encode.simps dest!: answered_seen\<close>)
qed

theorem expire_overflow_deletes_witness:
  "\<exists>s. returns (run sample_env (words_cmd [ascii ''EXPIRE'', ascii ''k'', dec_int i64_MAX]) (concat [ascii ''EXPIRE'', ascii ''k'', dec_int i64_MAX]) Resp2 s)
    (\<lambda>(outcome, d', s'). serving sample_env ([ascii ''k'' \<mapsto> (ascii ''v'', None, None)](ascii ''k'' := None)) s' \<and>
      out (sv_reply s') = out (sv_reply s) @ encode Resp2 (VInteger 1))"
proof -
  obtain s where s: "serving sample_env [ascii ''k'' \<mapsto> (ascii ''v'', None, None)] s" "now_of s = 100"
    using sample_entry [of "ascii ''k''" "ascii ''v''" None None]
    by (auto simp: size_of_entry_def klen_len_def varint_len_def ascii_def SMALL_MAX_def)
  have "length (dec (2 ^ 63 - 1)) \<le> 19" by (rule length_dec) simp_all
  then have l: "length (dec_int i64_MAX) \<le> 19" by (simp add: dec_int_def i64_MAX_def)
  show ?thesis
    by (intro exI [of _ s], rule expire_overflow_deletes [OF s(1) words_asks])
       (use s(2) l in \<open>simp_all add: ascii_def to_ascii_uppercase_def MAX_NAME_def word_less_nat_alt\<close>)
qed

end
