(* ===== verification/Rugo_Conn.thy ===== *)
theory Rugo_Conn
  imports Rugo_Dispatch
begin

text \<open>
  One client, its two buffers, and the cycle between them, \<^verbatim>\<open>crates/rugo-server/src/conn.rs\<close>: the read
  buffer and its compaction, the loop that runs every whole command in it, the write buffer, the turn
  of the readiness loop and the step of the completion loop.

  The socket is a parameter: a turn is given what each of its reads and writes meets, in order, and
  past the end of the list the socket would block. A read is given bytes that have arrived and takes as many as
  the slice it was called with holds; a write is given how many bytes the socket has room for and takes
  no more than it was called with. The cache-line hints of the look-ahead have no effect on the state; the look-ahead itself, with the
  slices and indices it takes, is modelled.
\<close>

section \<open>State\<close>

definition CHUNK :: nat where "CHUNK = 16 * 1024"
definition SPARE :: nat where "SPARE = 4 * 1024"
definition AHEAD :: nat where "AHEAD = 8"
definition MAX_REQUEST :: nat where "MAX_REQUEST = 16 * 1024 * 1024"
definition MAX_REPLY :: nat where "MAX_REPLY = 1024 * 1024"

datatype Turn = TurnRead | TurnWrite | TurnClose
datatype Step = Recv nat nat | Send nat nat | StepClose

record Conn =
  co_buf :: bytes
  co_filled :: nat
  co_at :: nat
  co_out :: bytes
  co_sent :: nat
  co_dialect :: Dialect
  co_command :: Command
  co_closing :: bool

definition conn_new :: Conn where
  "conn_new = \<lparr> co_buf = replicate CHUNK 0, co_filled = 0, co_at = 0, co_out = [], co_sent = 0,
     co_dialect = Resp2, co_command = command_new, co_closing = False \<rparr>"

text \<open>What one read or write on the socket meets.\<close>

datatype ReadResult = Arrives bytes | ReadInterrupted | ReadBlocks | ReadFails
datatype WriteResult = Took nat | WriteInterrupted | WriteBlocks | WriteFails

section \<open>Reading\<close>

text \<open>The answer says whether there is room; a request too large to buffer is refused.\<close>

definition make_room :: "Conn \<Rightarrow> (bool \<times> Conn) option" where
  "make_room c = do {
     free \<leftarrow> usub (length (co_buf c)) (co_filled c);
     if SPARE \<le> free then Some (True, c)
     else do {
       c \<leftarrow> (if 0 < co_at c then do {
               kept \<leftarrow> slice (co_buf c) (co_at c) (co_filled c);
               filled \<leftarrow> usub (co_filled c) (co_at c);
               Some (c\<lparr> co_buf := splice (co_buf c) 0 kept, co_filled := filled, co_at := 0 \<rparr>) }
             else Some c);
       free \<leftarrow> usub (length (co_buf c)) (co_filled c);
       if free < SPARE then
         (let wanted = length (co_buf c) * 2
          in if MAX_REQUEST < wanted then Some (False, c)
             else Some (True, c\<lparr> co_buf := co_buf c @ replicate (wanted - length (co_buf c)) 0 \<rparr>))
       else Some (True, c) } }"

fun fill_loop :: "ReadResult list \<Rightarrow> Conn \<Rightarrow> (bool \<times> Conn) option" where
  "fill_loop [] c = Some (True, c)"
| "fill_loop (r # rs) c =
     (case r of
        Arrives bs \<Rightarrow> do {
          free \<leftarrow> usub (length (co_buf c)) (co_filled c);
          let got = take free bs;
          if got = [] then Some (False, c)
          else do {
            buf \<leftarrow> copy_into (co_buf c) (co_filled c) (co_filled c + length got) got;
            Some (True, c\<lparr> co_buf := buf, co_filled := co_filled c + length got \<rparr>) } }
      | ReadInterrupted \<Rightarrow> fill_loop rs c
      | ReadBlocks \<Rightarrow> Some (True, c)
      | ReadFails \<Rightarrow> Some (False, c))"

definition fill :: "ReadResult list \<Rightarrow> Conn \<Rightarrow> (bool \<times> Conn) option" where
  "fill reads c = do {
     (room, c) \<leftarrow> make_room c;
     if room then fill_loop reads c else Some (False, c) }"

section \<open>Looking ahead\<close>

fun ask_loop :: "nat \<Rightarrow> bytes \<Rightarrow> nat \<Rightarrow> nat \<Rightarrow> (nat \<times> nat) list \<Rightarrow> nat \<Rightarrow> ((nat \<times> nat) list \<times> nat \<times> nat) option" where
  "ask_loop 0 buf cur filled keys found = Some (keys, found, cur)"
| "ask_loop (Suc n) buf cur filled keys found = do {
     rest \<leftarrow> slice buf cur filled;
     ahead \<leftarrow> peek rest;
     (case ahead of
        None \<Rightarrow> Some (keys, found, cur)
      | Some (used, key) \<Rightarrow> do {
          (keys, found) \<leftarrow> (case key of
              Some (at, len) \<Rightarrow> do {
                keys \<leftarrow> set_idx keys found (cur + at, len);
                Some (keys, found + 1) }
            | None \<Rightarrow> Some (keys, found));
          ask_loop n buf (cur + used) filled keys found }) }"

definition ask_ahead :: "bytes \<Rightarrow> nat \<Rightarrow> nat \<Rightarrow> nat option" where
  "ask_ahead buf at filled = do {
     (keys, found, cur) \<leftarrow> ask_loop AHEAD buf at filled (replicate AHEAD (0, 0)) 0;
     hinted \<leftarrow> (if 1 < found then slice keys 0 found else Some []);
     Some cur }"

section \<open>Executing\<close>

text \<open>One parsed command: whether the process ended, and what it left.\<close>

definition run_one :: "DispatchEnv \<Rightarrow> bytes \<Rightarrow> Conn \<Rightarrow> Server \<Rightarrow> (bool \<times> Conn \<times> Server) option" where
  "run_one v seen c s =
     (if command_is_empty (co_command c) then Some (False, c, s)
      else do {
        (outcome, d, s) \<leftarrow> run v (co_command c) seen (co_dialect c) (s\<lparr> sv_reply := encoder_new (co_out c) (co_dialect c) \<rparr>);
        Some (outcome = Exited,
              c\<lparr> co_out := buffer (sv_reply s), co_dialect := d, co_closing := (co_closing c \<or> outcome = Replied Last) \<rparr>, s) })"

lemma run_one_frame:
  "run_one v seen c s = Some (x, c', s') \<Longrightarrow>
   co_buf c' = co_buf c \<and> co_filled c' = co_filled c \<and> co_at c' = co_at c \<and> co_sent c' = co_sent c \<and> co_command c' = co_command c"
  by (auto simp: run_one_def bind_eq_Some_conv split: if_splits)

function execute_loop :: "DispatchEnv \<Rightarrow> nat \<Rightarrow> Conn \<Rightarrow> Server \<Rightarrow> (bool \<times> Conn \<times> Server) option" where
  "execute_loop v asked c s =
     (if \<not> co_closing c \<and> length (co_out c) < MAX_REPLY then do {
        asked \<leftarrow> (if asked \<le> co_at c then ask_ahead (co_buf c) (co_at c) (co_filled c) else Some asked);
        rest \<leftarrow> slice (co_buf c) (co_at c) (co_filled c);
        (r, cmd) \<leftarrow> parse rest (co_command c);
        (case r of
           Inr (Done used) \<Rightarrow> do {
             seen \<leftarrow> slice rest 0 used;
             (exited, c', s) \<leftarrow> run_one v seen (c\<lparr> co_command := cmd \<rparr>) s;
             if exited then Some (True, c', s)
             else execute_loop v asked (c'\<lparr> co_at := co_at c' + used \<rparr>) s }
         | Inr More \<Rightarrow> Some (False, c\<lparr> co_command := cmd \<rparr>, s)
         | Inl bad \<Rightarrow>
             Some (False, c\<lparr> co_command := cmd, co_closing := True,
               co_out := buffer (put_error (ascii (''ERR '' @ message bad)) (encoder_new (co_out c) (co_dialect c))) \<rparr>, s)) }
      else Some (False, c, s))"
  by pat_completeness auto
termination
proof (relation "measure (\<lambda>(v, asked, c, s). co_filled c - co_at c)", goal_cases)
  case (2 v asked c s asked' rest x r cmd y used seen z exited u c' s')
  have "0 < used \<and> used \<le> length rest"
    using parse_total [of rest "co_command c"] 2 by (auto elim!: returnsE)
  moreover have "length rest = co_filled c - co_at c" using 2(3) by (auto simp: slice_def split: if_splits)
  moreover have "co_filled c' = co_filled c \<and> co_at c' = co_at c"
    using run_one_frame [of v seen "c\<lparr> co_command := cmd \<rparr>" s exited c' s'] 2 by auto
  ultimately show ?case by auto
qed simp

declare execute_loop.simps [simp del]

definition execute :: "DispatchEnv \<Rightarrow> Conn \<Rightarrow> Server \<Rightarrow> (bool \<times> Conn \<times> Server) option" where
  "execute v c s = do {
     (exited, c, s) \<leftarrow> execute_loop v (co_at c) c s;
     Some (exited, (if \<not> exited \<and> co_at c = co_filled c then c\<lparr> co_at := 0, co_filled := 0 \<rparr> else c), s) }"

text \<open>The ways a pass of the loop goes.\<close>

lemma execute_loop_cases [consumes 1, case_names stop more bad exits onward]:
  assumes "execute_loop v asked c s = Some (x, c', s')"
  obtains "co_closing c \<or> MAX_REPLY \<le> length (co_out c)" "\<not> x" "c' = c" "s' = s"
  | rest cmd where "slice (co_buf c) (co_at c) (co_filled c) = Some rest" "parse rest (co_command c) = Some (Inr More, cmd)"
      "\<not> x" "c' = c\<lparr> co_command := cmd \<rparr>" "s' = s"
  | rest cmd bad where "slice (co_buf c) (co_at c) (co_filled c) = Some rest" "parse rest (co_command c) = Some (Inl bad, cmd)"
      "\<not> x" "c' = c\<lparr> co_command := cmd, co_closing := True,
         co_out := buffer (put_error (ascii (''ERR '' @ message bad)) (encoder_new (co_out c) (co_dialect c))) \<rparr>" "s' = s"
  | rest cmd used seen where "slice (co_buf c) (co_at c) (co_filled c) = Some rest" "parse rest (co_command c) = Some (Inr (Done used), cmd)"
      "slice rest 0 used = Some seen" "run_one v seen (c\<lparr> co_command := cmd \<rparr>) s = Some (True, c', s')" "x"
  | rest cmd used seen asked' c1 s1 where "slice (co_buf c) (co_at c) (co_filled c) = Some rest" "parse rest (co_command c) = Some (Inr (Done used), cmd)"
      "slice rest 0 used = Some seen" "run_one v seen (c\<lparr> co_command := cmd \<rparr>) s = Some (False, c1, s1)"
      "execute_loop v asked' (c1\<lparr> co_at := co_at c1 + used \<rparr>) s1 = Some (x, c', s')" "\<not> co_closing c" "length (co_out c) < MAX_REPLY"
proof (cases "\<not> co_closing c \<and> length (co_out c) < MAX_REPLY")
  case False
  then show ?thesis using assms by (intro that(1)) (auto simp: execute_loop.simps [of v asked c s])
next
  case True
  then obtain asked' rest r cmd where p: "slice (co_buf c) (co_at c) (co_filled c) = Some rest" "parse rest (co_command c) = Some (r, cmd)"
    and k: "(case r of
           Inr (Done used) \<Rightarrow> do {
             seen \<leftarrow> slice rest 0 used;
             (exited, c', s) \<leftarrow> run_one v seen (c\<lparr> co_command := cmd \<rparr>) s;
             if exited then Some (True, c', s)
             else execute_loop v asked' (c'\<lparr> co_at := co_at c' + used \<rparr>) s }
         | Inr More \<Rightarrow> Some (False, c\<lparr> co_command := cmd \<rparr>, s)
         | Inl bad \<Rightarrow>
             Some (False, c\<lparr> co_command := cmd, co_closing := True,
               co_out := buffer (put_error (ascii (''ERR '' @ message bad)) (encoder_new (co_out c) (co_dialect c))) \<rparr>, s)) = Some (x, c', s')"
    using assms unfolding execute_loop.simps [of v asked c s] by (auto simp: bind_eq_Some_conv simp del: if_split)
  show ?thesis
  proof (cases r)
    case (Inl bad)
    then show ?thesis using that(3) p k by simp
  next
    case (Inr d)
    show ?thesis
    proof (cases d)
      case (Done used)
      then obtain seen b c1 s1 where r: "slice rest 0 used = Some seen" "run_one v seen (c\<lparr> co_command := cmd \<rparr>) s = Some (b, c1, s1)"
        "(if b then Some (True, c1, s1) else execute_loop v asked' (c1\<lparr> co_at := co_at c1 + used \<rparr>) s1) = Some (x, c', s')"
        using k Inr by (auto simp: bind_eq_Some_conv simp del: if_split)
      then show ?thesis using that(4,5) p Inr Done True by (cases b) auto
    next
      case More
      then show ?thesis using that(2) p k Inr by simp
    qed
  qed
qed

lemma execute_loop_sent: "execute_loop v asked c s = Some (x, c', s') \<Longrightarrow> co_sent c' = co_sent c"
proof (induction "co_filled c - co_at c" arbitrary: asked c s rule: less_induct)
  case less
  from less(2) show ?case
  proof (cases rule: execute_loop_cases)
    case (onward rest cmd used seen asked' c1 s1)
    have "0 < used \<and> used \<le> length rest" using parse_total [of rest "co_command c"] onward(2) by (auto elim!: returnsE)
    then have "co_filled c1 - (co_at c1 + used) < co_filled c - co_at c"
      using onward(1) run_one_frame [OF onward(4)] by (auto simp: slice_def split: if_splits)
    from less(1) [OF _ onward(5)] this show ?thesis using run_one_frame [OF onward(4)] by simp
  qed (auto dest: run_one_frame)
qed

section \<open>Writing\<close>

fun flush_loop :: "WriteResult list \<Rightarrow> Conn \<Rightarrow> (bool \<times> WriteResult list \<times> Conn) option" where
  "flush_loop ws c =
     (if co_sent c < length (co_out c) then
        (case ws of
           [] \<Rightarrow> Some (True, [], c)
         | w # ws \<Rightarrow>
             (case w of
                Took n \<Rightarrow>
                  (let wrote = min n (length (co_out c) - co_sent c)
                   in if wrote = 0 then Some (False, ws, c) else flush_loop ws (c\<lparr> co_sent := co_sent c + wrote \<rparr>))
              | WriteInterrupted \<Rightarrow> flush_loop ws c
              | WriteBlocks \<Rightarrow> Some (True, ws, c)
              | WriteFails \<Rightarrow> Some (False, ws, c)))
      else Some (True, ws, c))"

declare flush_loop.simps [simp del]

definition conn_flush :: "WriteResult list \<Rightarrow> Conn \<Rightarrow> (bool \<times> WriteResult list \<times> Conn) option" where
  "conn_flush ws c = do {
     (ok, ws, c) \<leftarrow> flush_loop ws c;
     if \<not> ok then Some (False, ws, c)
     else if co_sent c = length (co_out c) then Some (True, ws, c\<lparr> co_out := [], co_sent := 0 \<rparr>)
     else if MAX_REPLY < co_sent c then Some (True, ws, c\<lparr> co_out := drop (co_sent c) (co_out c), co_sent := 0 \<rparr>)
     else Some (True, ws, c) }"

section \<open>A turn of the readiness loop\<close>

text \<open>The answer is \<open>None\<close> when a command of the turn ended the process.\<close>

definition turn :: "DispatchEnv \<Rightarrow> bool \<Rightarrow> bool \<Rightarrow> ReadResult list \<Rightarrow> WriteResult list \<Rightarrow> Conn \<Rightarrow> Server \<Rightarrow>
    (Turn option \<times> Conn \<times> Server) option" where
  "turn v readable writable reads writes c s = do {
     (ok, writes, c) \<leftarrow> (if writable then conn_flush writes c else Some (True, writes, c));
     if \<not> ok then Some (Some TurnClose, c, s)
     else do {
       (goes_on, exited, c, s) \<leftarrow> (if readable then do {
           (there, c) \<leftarrow> fill reads c;
           if \<not> there then Some (False, False, c, s)
           else do {
             (exited, c, s) \<leftarrow> execute v c s;
             if exited then Some (True, True, c, s)
             else do {
               (ok, writes, c) \<leftarrow> conn_flush writes c;
               Some (ok, False, c, s) } } }
         else Some (True, False, c, s));
       if exited then Some (None, c, s)
       else if \<not> goes_on then Some (Some TurnClose, c, s)
       else if co_sent c < length (co_out c) then Some (Some TurnWrite, c, s)
       else if co_closing c then Some (Some TurnClose, c, s)
       else Some (Some TurnRead, c, s) } }"

section \<open>A step of the completion loop\<close>

definition owes :: "Conn \<Rightarrow> bool" where
  "owes c \<longleftrightarrow> co_sent c < length (co_out c)"

text \<open>A completion of a read, with the bytes the ring put in the buffer, and of a write.\<close>

definition arrived :: "nat \<Rightarrow> Conn \<Rightarrow> Conn" where
  "arrived n c = c\<lparr> co_filled := min (length (co_buf c)) (co_filled c + n) \<rparr>"

definition written :: "nat \<Rightarrow> Conn \<Rightarrow> Conn" where
  "written n c = c\<lparr> co_sent := min (length (co_out c)) (co_sent c + n) \<rparr>"

function step :: "DispatchEnv \<Rightarrow> Conn \<Rightarrow> Server \<Rightarrow> (Step option \<times> Conn \<times> Server) option" where
  "step v c s =
     (if owes c then Some (Some (Send (co_sent c) (length (co_out c) - co_sent c)), c, s)
      else let c = c\<lparr> co_out := [], co_sent := 0 \<rparr>
      in if co_closing c then Some (Some StepClose, c, s)
      else do {
        (exited, c, s) \<leftarrow> (if co_at c < co_filled c then execute v c s else Some (False, c, s));
        if exited then Some (None, c, s)
        else if co_out c \<noteq> [] then step v c s
        else if co_closing c then Some (Some StepClose, c, s)
        else do {
          (room, c) \<leftarrow> make_room c;
          if room then do {
            free \<leftarrow> usub (length (co_buf c)) (co_filled c);
            Some (Some (Recv (co_filled c) free), c, s) }
          else Some (Some StepClose, c, s) } })"
  by pat_completeness auto
termination
  by (relation "measure (\<lambda>(v, c, s). if owes c then 0 else 1)")
     (auto simp: owes_def execute_def bind_eq_Some_conv dest!: execute_loop_sent split: if_splits)

declare step.simps [simp del]

end
