(* ===== verification/Rugo_Slots.thy ===== *)
theory Rugo_Slots
  imports Rugo_Prelude
begin

text \<open>
  The slots a serving thread keeps its connections in, which both of its loops share
  (\<^verbatim>\<open>crates/rugo-server/src/lib.rs\<close> and \<^verbatim>\<open>uring.rs\<close>): a vector with holes and a stack of the holes. A
  connection that arrives takes the hole freed last, or a new slot at the end; one that goes leaves a
  hole.
\<close>

section \<open>State and operations\<close>

record 'a Slots =
  sl_conns :: "'a option list"
  sl_free :: "nat list"

definition slots_new :: "'a Slots" where
  "slots_new = \<lparr> sl_conns = [], sl_free = [] \<rparr>"

definition slot_at :: "'a Slots \<Rightarrow> nat \<Rightarrow> 'a option" where
  "slot_at S at = (if at < length (sl_conns S) then sl_conns S ! at else None)"

definition put_slot :: "'a \<Rightarrow> 'a Slots \<Rightarrow> (nat \<times> 'a Slots) option" where
  "put_slot x S =
     (if sl_free S \<noteq> [] then
        (let at = last (sl_free S)
         in do {
           cs \<leftarrow> set_idx (sl_conns S) at (Some x);
           Some (at, S\<lparr> sl_conns := cs, sl_free := butlast (sl_free S) \<rparr>) })
      else Some (length (sl_conns S), S\<lparr> sl_conns := sl_conns S @ [Some x] \<rparr>))"

definition empty_slot :: "nat \<Rightarrow> 'a Slots \<Rightarrow> 'a Slots option" where
  "empty_slot at S = do {
     cs \<leftarrow> set_idx (sl_conns S) at None;
     Some (S\<lparr> sl_conns := cs, sl_free := sl_free S @ [at] \<rparr>) }"

definition discard :: "nat \<Rightarrow> 'a Slots \<Rightarrow> 'a Slots" where
  "discard at S =
     (case slot_at S at of
        None \<Rightarrow> S
      | Some x \<Rightarrow> S\<lparr> sl_conns := (sl_conns S)[at := None], sl_free := sl_free S @ [at] \<rparr>)"

definition change_slot :: "nat \<Rightarrow> 'a \<Rightarrow> 'a Slots \<Rightarrow> 'a Slots" where
  "change_slot at x S = S\<lparr> sl_conns := (sl_conns S)[at := Some x] \<rparr>"

section \<open>The holes are the free slots\<close>

definition slots_ok :: "'a Slots \<Rightarrow> bool" where
  "slots_ok S \<longleftrightarrow> distinct (sl_free S) \<and> (\<forall>at. at \<in> set (sl_free S) \<longleftrightarrow> at < length (sl_conns S) \<and> sl_conns S ! at = None)"

lemma slots_ok_new: "slots_ok slots_new"
  by (simp add: slots_ok_def slots_new_def)

lemma slot_at_new [simp]: "slot_at slots_new at = None"
  by (simp add: slot_at_def slots_new_def)

lemma slot_at_SomeD: "slot_at S at = Some x \<Longrightarrow> at < length (sl_conns S) \<and> sl_conns S ! at = Some x"
  by (simp add: slot_at_def split: if_splits)

lemma slot_at_change: "slot_at S at = Some y \<Longrightarrow> slot_at (change_slot at x S) i = (if i = at then Some x else slot_at S i)"
  by (auto simp: slot_at_def change_slot_def split: if_splits)

lemma slots_ok_change: "slots_ok S \<Longrightarrow> slot_at S at = Some y \<Longrightarrow> slots_ok (change_slot at x S)"
  using slot_at_SomeD [of S at y] by (simp add: slots_ok_def change_slot_def nth_list_update)

text \<open>A new connection takes an empty slot and disturbs no other.\<close>

lemma put_slot_spec:
  assumes "slots_ok S"
  shows "returns (put_slot x S) (\<lambda>(at, S'). slots_ok S' \<and> slot_at S at = None \<and>
    (\<forall>i. slot_at S' i = (if i = at then Some x else slot_at S i)) \<and>
    (sl_free S = [] \<and> at = length (sl_conns S) \<and> length (sl_conns S') = Suc (length (sl_conns S)) \<or> sl_free S \<noteq> [] \<and> length (sl_conns S') = length (sl_conns S)))"
proof (cases "sl_free S = []")
  case True
  then show ?thesis
    using assms by (auto simp: put_slot_def slots_ok_def slot_at_def nth_append less_Suc_eq returns_def)
next
  case False
  then have l: "last (sl_free S) \<in> set (sl_free S)" by simp
  then have at: "last (sl_free S) < length (sl_conns S)" "sl_conns S ! last (sl_free S) = None" using assms by (auto simp: slots_ok_def)
  have split: "sl_free S = butlast (sl_free S) @ [last (sl_free S)]" using False by simp
  have d: "distinct (butlast (sl_free S) @ [last (sl_free S)])" using assms split by (metis slots_ok_def)
  have "set (sl_free S) = insert (last (sl_free S)) (set (butlast (sl_free S)))" by (subst split) simp
  then have holes: "i \<in> set (butlast (sl_free S)) \<longleftrightarrow> i \<in> set (sl_free S) \<and> i \<noteq> last (sl_free S)" for i using d by auto
  let ?S = "S\<lparr> sl_conns := (sl_conns S)[last (sl_free S) := Some x], sl_free := butlast (sl_free S) \<rparr>"
  have code: "put_slot x S = Some (last (sl_free S), ?S)" using False at(1) by (simp add: put_slot_def set_idx_def Let_def)
  have "slots_ok ?S" using assms at(1) d by (simp add: slots_ok_def holes nth_list_update)
  moreover have "slot_at ?S i = (if i = last (sl_free S) then Some x else slot_at S i)" for i using at(1) by (simp add: slot_at_def)
  ultimately show ?thesis unfolding code using False at by (simp add: slot_at_def)
qed

text \<open>Emptying a slot leaves a hole and disturbs no other.\<close>

lemma hole_spec:
  assumes "slots_ok S" "slot_at S at = Some x"
  defines "S' \<equiv> S\<lparr> sl_conns := (sl_conns S)[at := None], sl_free := sl_free S @ [at] \<rparr>"
  shows "slots_ok S'" "slot_at S' i = (if i = at then None else slot_at S i)"
  using assms by (auto simp: slots_ok_def slot_at_def nth_list_update S'_def split: if_splits)

lemma empty_slot_eq: "slot_at S at = Some x \<Longrightarrow> empty_slot at S = Some (discard at S)"
  by (auto simp: empty_slot_def discard_def set_idx_def dest: slot_at_SomeD)

lemma discard_ok: "slots_ok S \<Longrightarrow> slots_ok (discard at S)"
  by (cases "slot_at S at") (auto simp: discard_def intro: hole_spec(1))

lemma slot_at_discard: "slots_ok S \<Longrightarrow> slot_at (discard at S) i = (if i = at then None else slot_at S i)"
  by (cases "slot_at S at") (auto simp: discard_def hole_spec(2))

lemma length_discard [simp]: "length (sl_conns (discard at S)) = length (sl_conns S)"
  by (simp add: discard_def split: option.split)

text \<open>When there is no hole, every slot holds a connection.\<close>

lemma no_holes: "slots_ok S \<Longrightarrow> sl_free S = [] \<Longrightarrow> at < length (sl_conns S) \<Longrightarrow> slot_at S at \<noteq> None"
  by (auto simp: slots_ok_def slot_at_def)

text \<open>Slots told apart by a number below a bound are no more than the bound.\<close>

lemma slots_bounded:
  assumes "slots_ok S" "sl_free S = []" and key: "\<And>i x. slot_at S i = Some x \<Longrightarrow> f x < n"
    and inj: "\<And>i j x y. slot_at S i = Some x \<Longrightarrow> slot_at S j = Some y \<Longrightarrow> f x = f y \<Longrightarrow> i = j"
  shows "length (sl_conns S) \<le> n"
proof -
  let ?g = "\<lambda>i. f (the (slot_at S i))"
  have live: "slot_at S i = Some (the (slot_at S i))" if "i < length (sl_conns S)" for i using no_holes [OF assms(1,2) that] by simp
  have "inj_on ?g {..<length (sl_conns S)}" using live inj by (intro inj_onI) blast
  moreover have "?g ` {..<length (sl_conns S)} \<subseteq> {..<n}" using live key by auto
  ultimately have "card {..<length (sl_conns S)} \<le> card {..<n}" by (intro card_inj_on_le) auto
  then show ?thesis by simp
qed

section \<open>Loops\<close>

text \<open>
  What every step of a loop keeps, every state it comes to has. The two loops of a serving thread are
  instances.
\<close>

locale event_loop =
  fixes moves :: "'s \<Rightarrow> 's \<Rightarrow> bool" and ok :: "'s \<Rightarrow> bool"
  assumes keeps: "moves a b \<Longrightarrow> ok a \<Longrightarrow> ok b"
begin

lemma comes_to_ok: "moves\<^sup>*\<^sup>* a b \<Longrightarrow> ok a \<Longrightarrow> ok b"
  by (induction rule: rtranclp_induct) (auto intro: keeps)

end

end
