(* ===== verification/Rugo_Worker.thy ===== *)
theory Rugo_Worker
  imports Rugo_Conn Rugo_Slots
begin

text \<open>
  A serving thread on a poller, \<^verbatim>\<open>crates/rugo-server/src/lib.rs\<close>: taking connections off the listeners,
  the turn of each socket that is ready, what the poller is told to watch it for, and the upkeep of the
  clock and the sweep. With it, the events of \<^verbatim>\<open>crates/rugo-net/src/lib.rs\<close> and the part of a connection
  that belongs to the loop: its descriptor and the interest it remembers.

  The kernel is a parameter. An event comes with what the socket or the listener meets while it is
  handled and with the kernel's answer to the one registration it may ask for; the flags of the two
  pollers are numbers of \<^verbatim>\<open>libc\<close> and are arguments too. What the kernel watches is kept as a map from
  descriptors, which a registration that succeeds changes, and from which a descriptor that is closed is
  gone. A token is a \<^verbatim>\<open>u64\<close> that came from a \<^verbatim>\<open>usize\<close>, and is a natural number here.
\<close>

section \<open>What is watched, and what is ready\<close>

record Interest =
  wants_read :: bool
  wants_write :: bool

definition READ :: Interest where "READ = \<lparr> wants_read = True, wants_write = False \<rparr>"
definition BOTH :: Interest where "BOTH = \<lparr> wants_read = True, wants_write = True \<rparr>"

record Ready =
  rd_token :: nat
  rd_read :: bool
  rd_write :: bool
  rd_gone :: bool

text \<open>How the two pollers report one event of the kernel.\<close>

record EpollFlags =
  EPOLLIN :: u32
  EPOLLOUT :: u32
  EPOLLHUP :: u32
  EPOLLERR :: u32
  EPOLLRDHUP :: u32

unbundle bit_operations_syntax

definition epoll_mask :: "EpollFlags \<Rightarrow> Interest \<Rightarrow> u32" where
  "epoll_mask f interest =
     (let mask = 0;
          mask = (if wants_read interest then mask OR (EPOLLIN f OR EPOLLRDHUP f) else mask)
      in if wants_write interest then mask OR EPOLLOUT f else mask)"

definition epoll_ready :: "EpollFlags \<Rightarrow> u32 \<Rightarrow> nat \<Rightarrow> Ready" where
  "epoll_ready f events token =
     \<lparr> rd_token = token, rd_read = (events AND EPOLLIN f \<noteq> 0), rd_write = (events AND EPOLLOUT f \<noteq> 0),
       rd_gone = (events AND (EPOLLHUP f OR EPOLLERR f) \<noteq> 0) \<rparr>"

record KqueueFlags =
  EVFILT_READ :: int
  EVFILT_WRITE :: int
  EV_EOF :: "16 word"
  EV_ERROR :: "16 word"

definition kqueue_ready :: "KqueueFlags \<Rightarrow> int \<Rightarrow> 16 word \<Rightarrow> nat \<Rightarrow> Ready" where
  "kqueue_ready f filt bits token =
     \<lparr> rd_token = token, rd_read = (filt = EVFILT_READ f), rd_write = (filt = EVFILT_WRITE f),
       rd_gone = (bits AND (EV_EOF f OR EV_ERROR f) \<noteq> 0) \<rparr>"

section \<open>Connections as the loop holds them\<close>

datatype Listener = TcpListener nat | UnixListener nat

fun listener_fd :: "Listener \<Rightarrow> nat" where
  "listener_fd (TcpListener fd) = fd"
| "listener_fd (UnixListener fd) = fd"

record Client =
  cl_fd :: nat
  cl_conn :: Conn
  cl_armed :: Interest

definition client_new :: "nat \<Rightarrow> Client" where
  "client_new fd = \<lparr> cl_fd = fd, cl_conn = conn_new, cl_armed = READ \<rparr>"

lemma client_new_simps [simp]: "cl_fd (client_new fd) = fd" "cl_conn (client_new fd) = conn_new" "cl_armed (client_new fd) = READ"
  by (simp_all add: client_new_def)

definition arm :: "Interest \<Rightarrow> Client \<Rightarrow> Client" where
  "arm want cl = cl\<lparr> cl_armed := want \<rparr>"

record Worker =
  wk_slots :: "Client Slots"
  wk_watched :: "nat \<rightharpoonup> nat \<times> Interest"
  wk_since :: nat

text \<open>How handling an event ends: the loop goes on, it returns an error, or the process ended.\<close>

datatype Fate = GoesOn | IoFailed | ProcessEnded

section \<open>Taking a connection\<close>

text \<open>What one accept meets: a descriptor and whether it could be prepared, nothing waiting, or an error.\<close>

datatype AcceptResult = Accepted nat bool | AcceptBlocks | AcceptFails

fun take_conn :: "DispatchEnv \<Rightarrow> nat \<Rightarrow> bool \<Rightarrow> AcceptResult list \<Rightarrow> Worker \<Rightarrow> Server \<Rightarrow> (Fate \<times> Worker \<times> Server) option" where
  "take_conn v listeners grants [] w s = Some (GoesOn, w, s)"
| "take_conn v listeners grants (taken # rest) w s =
     (case taken of
        AcceptBlocks \<Rightarrow> Some (GoesOn, w, s)
      | AcceptFails \<Rightarrow> Some (IoFailed, w, s)
      | Accepted fd prepared \<Rightarrow>
          if \<not> prepared then take_conn v listeners grants rest w s
          else let conn = client_new fd; interest = cl_armed conn
          in do {
            (at, S) \<leftarrow> put_slot conn (wk_slots w);
            let token = at + listeners;
            if \<not> grants then do {
              S \<leftarrow> empty_slot at S;
              Some (IoFailed, w\<lparr> wk_slots := S \<rparr>, s) }
            else do {
              s \<leftarrow> counters v connection_made s;
              Some (GoesOn, w\<lparr> wk_slots := S, wk_watched := (wk_watched w)(fd \<mapsto> (token, interest)) \<rparr>, s) } })"

section \<open>One event\<close>

record Happening =
  hp_ready :: Ready
  hp_accepts :: "AcceptResult list"
  hp_reads :: "ReadResult list"
  hp_writes :: "WriteResult list"
  hp_grants :: bool

definition on_event :: "DispatchEnv \<Rightarrow> Listener list \<Rightarrow> Happening \<Rightarrow> Worker \<Rightarrow> Server \<Rightarrow> (Fate \<times> Worker \<times> Server) option" where
  "on_event v ls h w s =
     (let event = hp_ready h; token = rd_token event
      in if token < length ls then take_conn v (length ls) (hp_grants h) (hp_accepts h) w s
      else let at = token - length ls
      in case slot_at (wk_slots w) at of
           None \<Rightarrow> Some (GoesOn, w, s)
         | Some cl \<Rightarrow> do {
             (went, c, s) \<leftarrow> (if rd_gone event then Some (Some TurnClose, cl_conn cl, s)
                else turn v (rd_read event) (rd_write event) (hp_reads h) (hp_writes h) (cl_conn cl) s);
             let cl = cl\<lparr> cl_conn := c \<rparr>;
             let w = w\<lparr> wk_slots := change_slot at cl (wk_slots w) \<rparr>;
             (case went of
                None \<Rightarrow> Some (ProcessEnded, w, s)
              | Some TurnClose \<Rightarrow> do {
                  S \<leftarrow> empty_slot at (wk_slots w);
                  Some (GoesOn, w\<lparr> wk_slots := S, wk_watched := (wk_watched w)(cl_fd cl := None) \<rparr>, s) }
              | Some t \<Rightarrow>
                  let want = \<lparr> wants_read = True, wants_write = (t = TurnWrite) \<rparr>
                  in if cl_armed cl = want then Some (GoesOn, w, s)
                     else if \<not> hp_grants h then Some (IoFailed, w, s)
                     else Some (GoesOn, w\<lparr> wk_slots := change_slot at (arm want cl) (wk_slots w),
                            wk_watched := (wk_watched w)(cl_fd cl \<mapsto> (token, want)) \<rparr>, s)) })"

fun on_events :: "DispatchEnv \<Rightarrow> Listener list \<Rightarrow> Happening list \<Rightarrow> Worker \<Rightarrow> Server \<Rightarrow> (Fate \<times> Worker \<times> Server) option" where
  "on_events v ls [] w s = Some (GoesOn, w, s)"
| "on_events v ls (h # hs) w s = do {
     (fate, w, s) \<leftarrow> on_event v ls h w s;
     (case fate of
        GoesOn \<Rightarrow> on_events v ls hs w s
      | _ \<Rightarrow> Some (fate, w, s)) }"

section \<open>Upkeep\<close>

text \<open>Instants are nanoseconds; what the system's clock answers is an argument, as in \<open>clock_tick\<close>.\<close>

definition UPKEEP :: nat where "UPKEEP = 1000000"
definition SWEEP :: nat where "SWEEP = 256"
definition SLICES :: nat where "SLICES = 16"

definition upkeep :: "DispatchEnv \<Rightarrow> nat \<Rightarrow> nat option \<Rightarrow> nat \<Rightarrow> Server \<Rightarrow> (nat \<times> Server) option" where
  "upkeep v now unix since s =
     (let waited = now - since
      in if waited < UPKEEP then Some (since, s)
      else let since = now;
               s = s\<lparr> sv_map := (sv_map s)\<lparr> mp_clock := snd (clock_tick unix (mp_clock (sv_map s))) \<rparr> \<rparr>;
               slices = min (waited div 1000000) SLICES
      in do {
        (removed, s) \<leftarrow> on_map v (\<lambda>ev Mp. map_sweep ev Mp (min (SWEEP * slices) usize_MAX)) s;
        Some (since, s) })"

section \<open>The loop\<close>

text \<open>The listeners are watched first, each under its index; the answer says whether all of them could be.\<close>

fun watch_listeners :: "nat \<Rightarrow> (Listener \<times> bool) list \<Rightarrow> Worker \<Rightarrow> bool \<times> Worker" where
  "watch_listeners at [] w = (True, w)"
| "watch_listeners at ((l, grants) # ls) w =
     (if grants then watch_listeners (at + 1) ls (w\<lparr> wk_watched := (wk_watched w)(listener_fd l \<mapsto> (at, READ)) \<rparr>)
      else (False, w))"

definition worker_new :: "nat \<Rightarrow> Worker" where
  "worker_new now = \<lparr> wk_slots = slots_new, wk_watched = Map.empty, wk_since = now \<rparr>"

text \<open>A turn of the loop: a wait that fails, or the events it found and the clocks when they are handled.\<close>

datatype Waited = WaitFails | Woke "Happening list" nat "nat option"

fun poller_loop :: "DispatchEnv \<Rightarrow> Listener list \<Rightarrow> Waited list \<Rightarrow> Worker \<Rightarrow> Server \<Rightarrow> (Fate \<times> Worker \<times> Server) option" where
  "poller_loop v ls [] w s = Some (GoesOn, w, s)"
| "poller_loop v ls (WaitFails # turns) w s = Some (IoFailed, w, s)"
| "poller_loop v ls (Woke hs now unix # turns) w s = do {
     (fate, w, s) \<leftarrow> on_events v ls hs w s;
     (case fate of
        GoesOn \<Rightarrow> do {
          (since, s) \<leftarrow> upkeep v now unix (wk_since w) s;
          poller_loop v ls turns (w\<lparr> wk_since := since \<rparr>) s }
      | _ \<Rightarrow> Some (fate, w, s)) }"

definition serve_poller :: "DispatchEnv \<Rightarrow> (Listener \<times> bool) list \<Rightarrow> nat \<Rightarrow> Waited list \<Rightarrow> Server \<Rightarrow> (Fate \<times> Worker \<times> Server) option" where
  "serve_poller v ls now turns s =
     (case watch_listeners 0 ls (worker_new now) of
        (False, w) \<Rightarrow> Some (IoFailed, w, s)
      | (True, w) \<Rightarrow> poller_loop v (map fst ls) turns w s)"

end
