(* ===== verification/Rugo_Stream.thy ===== *)
theory Rugo_Stream
  imports Rugo_Conn Rugo_Promises
begin

text \<open>
  What a connection promises, whatever the geometry of its buffers: the bytes that are waiting to be
  read as commands, the bytes that are waiting to be sent, and a reference service over them that
  knows nothing of offsets, compaction, growth or looking ahead. The operations of
  \<^verbatim>\<open>crates/rugo-server/src/conn.rs\<close> refine it.
\<close>

section \<open>The reference\<close>

record Stream =
  st_in :: bytes
  st_out :: bytes
  st_dialect :: Dialect
  st_closing :: bool

text \<open>
  One command off the front of the stream, run on its own bytes: the stream is at a stop (a reply too
  many, a command not yet whole, an error of framing), the process has ended, or the next command is
  at the front.
\<close>

datatype Went = Stopped | Ended | Onward

definition pass :: "DispatchEnv \<Rightarrow> Stream \<Rightarrow> Server \<Rightarrow> (Went \<times> Stream \<times> Server) option" where
  "pass v S s =
     (if st_closing S \<or> MAX_REPLY \<le> length (st_out S) then Some (Stopped, S, s)
      else do {
        (r, cmd) \<leftarrow> parse (st_in S) command_new;
        (case r of
           Inl bad \<Rightarrow> Some (Stopped, S\<lparr> st_closing := True,
             st_out := st_out S @ encode (st_dialect S) (VError (ascii (''ERR '' @ message bad))) \<rparr>, s)
         | Inr More \<Rightarrow> Some (Stopped, S, s)
         | Inr (Done used) \<Rightarrow>
             if command_is_empty cmd then Some (Onward, S\<lparr> st_in := drop used (st_in S) \<rparr>, s)
             else do {
               (outcome, d, s) \<leftarrow> run v cmd (take used (st_in S)) (st_dialect S) (s\<lparr> sv_reply := encoder_new (st_out S) (st_dialect S) \<rparr>);
               let S = S\<lparr> st_out := buffer (sv_reply s), st_dialect := d, st_closing := (outcome = Replied Last) \<rparr>;
               if outcome = Exited then Some (Ended, S, s)
               else Some (Onward, S\<lparr> st_in := drop used (st_in S) \<rparr>, s) }) })"

text \<open>At most \<open>n\<close> commands, and every whole command of the stream. The answer says whether the process ended.\<close>

fun serve :: "DispatchEnv \<Rightarrow> nat \<Rightarrow> Stream \<Rightarrow> Server \<Rightarrow> (bool \<times> Stream \<times> Server) option" where
  "serve v 0 S s = Some (False, S, s)"
| "serve v (Suc n) S s = do {
     (went, S, s) \<leftarrow> pass v S s;
     (case went of
        Stopped \<Rightarrow> Some (False, S, s)
      | Ended \<Rightarrow> Some (True, S, s)
      | Onward \<Rightarrow> serve v n S s) }"

definition serve_all :: "DispatchEnv \<Rightarrow> Stream \<Rightarrow> Server \<Rightarrow> (bool \<times> Stream \<times> Server) option" where
  "serve_all v S s = serve v (length (st_in S)) S s"

lemma parse_fresh: "parse buf into = parse buf command_new"
  by (cases into) (simp add: parse_def command_clear_def command_new_def)

lemma parse_nil [simp]: "parse [] into = Some (Inr More, command_clear into)"
  by (simp add: parse_def)

lemma parse_done: "parse buf into = Some (Inr (Done used), cmd) \<Longrightarrow> 0 < used \<and> used \<le> length buf"
  using parse_total [of buf into] by simp

text \<open>The ways a pass goes.\<close>

lemma pass_cases [consumes 1, case_names full bad more empty ends runs]:
  assumes "pass v S s = Some (w, S', s')"
  obtains "st_closing S \<or> MAX_REPLY \<le> length (st_out S)" "w = Stopped" "S' = S" "s' = s"
  | bad cmd where "\<not> st_closing S" "length (st_out S) < MAX_REPLY" "parse (st_in S) command_new = Some (Inl bad, cmd)" "w = Stopped"
      "S' = S\<lparr> st_closing := True, st_out := st_out S @ encode (st_dialect S) (VError (ascii (''ERR '' @ message bad))) \<rparr>" "s' = s"
  | cmd where "\<not> st_closing S" "length (st_out S) < MAX_REPLY" "parse (st_in S) command_new = Some (Inr More, cmd)" "w = Stopped" "S' = S" "s' = s"
  | used cmd where "\<not> st_closing S" "length (st_out S) < MAX_REPLY" "parse (st_in S) command_new = Some (Inr (Done used), cmd)"
      "command_is_empty cmd" "w = Onward" "S' = S\<lparr> st_in := drop used (st_in S) \<rparr>" "s' = s"
  | used cmd d where "\<not> st_closing S" "length (st_out S) < MAX_REPLY" "parse (st_in S) command_new = Some (Inr (Done used), cmd)" "\<not> command_is_empty cmd"
      "run v cmd (take used (st_in S)) (st_dialect S) (s\<lparr> sv_reply := encoder_new (st_out S) (st_dialect S) \<rparr>) = Some (Exited, d, s')"
      "w = Ended" "S' = S\<lparr> st_out := buffer (sv_reply s'), st_dialect := d, st_closing := False \<rparr>"
  | used cmd d final where "\<not> st_closing S" "length (st_out S) < MAX_REPLY" "parse (st_in S) command_new = Some (Inr (Done used), cmd)" "\<not> command_is_empty cmd"
      "run v cmd (take used (st_in S)) (st_dialect S) (s\<lparr> sv_reply := encoder_new (st_out S) (st_dialect S) \<rparr>) = Some (Replied final, d, s')"
      "w = Onward" "S' = \<lparr> st_in = drop used (st_in S), st_out = buffer (sv_reply s'), st_dialect = d, st_closing = (final = Last) \<rparr>"
proof (cases "st_closing S \<or> MAX_REPLY \<le> length (st_out S)")
  case True
  then show ?thesis using assms by (intro that(1)) (auto simp: pass_def)
next
  case False
  obtain r cmd where p: "parse (st_in S) command_new = Some (r, cmd)" using parse_total [of "st_in S" command_new] by (auto elim!: returnsE)
  from False have go: "\<not> st_closing S" "length (st_out S) < MAX_REPLY" by simp_all
  consider bad where "r = Inl bad" | "r = Inr More" | used where "r = Inr (Done used)" by (metis Parsed.exhaust sum.exhaust)
  then show ?thesis
  proof cases
    case (1 bad)
    then show ?thesis using that(2) [OF go] assms False p by (simp add: pass_def)
  next
    case 2
    then show ?thesis using that(3) [OF go] assms False p by (simp add: pass_def)
  next
    case (3 used)
    show ?thesis
    proof (cases "command_is_empty cmd")
      case True
      then show ?thesis using that(4) [OF go] assms False p 3 by (simp add: pass_def)
    next
      case full: False
      then obtain outcome d s1 where r: "run v cmd (take used (st_in S)) (st_dialect S) (s\<lparr> sv_reply := encoder_new (st_out S) (st_dialect S) \<rparr>) = Some (outcome, d, s1)"
        using assms False p 3 by (auto simp: pass_def bind_eq_Some_conv)
      show ?thesis
        using that(5,6) [OF go] assms False p 3 full r by (cases outcome; cases S) (auto simp: pass_def)
    qed
  qed
qed

lemma pass_shorter: "pass v S s = Some (Onward, S', s') \<Longrightarrow> length (st_in S') < length (st_in S)"
  by (cases rule: pass_cases) (use parse_done in fastforce)+

lemma serve_fuel: "length (st_in S) \<le> n \<Longrightarrow> length (st_in S) \<le> k \<Longrightarrow> serve v n S s = serve v k S s"
proof (induction n arbitrary: k S s)
  case 0
  then show ?case by (cases k) (auto simp: pass_def command_clear_def)
next
  case (Suc n)
  show ?case
  proof (cases k)
    case 0
    then show ?thesis using Suc.prems by (auto simp: pass_def)
  next
    case (Suc j)
    have "serve v n S' s' = serve v j S' s'" if "pass v S s = Some (Onward, S', s')" for S' s'
      using Suc.IH [of S' j s'] pass_shorter [OF that] Suc.prems Suc by simp
    then show ?thesis unfolding Suc serve.simps by (cases "pass v S s") (auto split: Went.splits)
  qed
qed

section \<open>The input side of a connection\<close>

text \<open>The bytes received and not yet run, and the connection without its geometry.\<close>

definition pending :: "Conn \<Rightarrow> bytes" where
  "pending c = take (co_filled c - co_at c) (drop (co_at c) (co_buf c))"

definition abs_conn :: "Conn \<Rightarrow> Stream" where
  "abs_conn c = \<lparr> st_in = pending c, st_out = co_out c, st_dialect = co_dialect c, st_closing = co_closing c \<rparr>"

lemma abs_conn_simps [simp]: "st_in (abs_conn c) = pending c" "st_out (abs_conn c) = co_out c" "st_dialect (abs_conn c) = co_dialect c"
    "st_closing (abs_conn c) = co_closing c"
  by (simp_all add: abs_conn_def)

text \<open>
  The read buffer is in order: the offsets are inside it, and it has been doubled up to ten times, which
  takes it to the limit of a request and no further.
\<close>

definition input_ok :: "Conn \<Rightarrow> bool" where
  "input_ok c \<longleftrightarrow> co_at c \<le> co_filled c \<and> co_filled c \<le> length (co_buf c) \<and> (\<exists>k\<le>10. length (co_buf c) = CHUNK * 2 ^ k)"

lemma input_ok_length: "input_ok c \<Longrightarrow> CHUNK \<le> length (co_buf c) \<and> length (co_buf c) \<le> MAX_REQUEST"
proof -
  have "CHUNK * 2 ^ k \<le> MAX_REQUEST" if "k \<le> 10" for k
    using power_increasing [OF that, of "2 :: nat"] by (simp add: CHUNK_def MAX_REQUEST_def)
  then show "input_ok c \<Longrightarrow> ?thesis" by (auto simp: input_ok_def CHUNK_def)
qed

definition same_input :: "Conn \<Rightarrow> Conn \<Rightarrow> bool" where
  "same_input c c' \<longleftrightarrow> co_buf c' = co_buf c \<and> co_filled c' = co_filled c \<and> co_sent c' = co_sent c \<and> co_at c \<le> co_at c' \<and> co_at c' \<le> co_filled c"

lemma same_input_ok: "input_ok c \<Longrightarrow> same_input c c' \<Longrightarrow> input_ok c'"
  by (simp add: input_ok_def same_input_def)

lemma same_input_trans: "same_input a b \<Longrightarrow> same_input b c \<Longrightarrow> same_input a c"
  by (simp add: same_input_def)

lemma length_pending: "input_ok c \<Longrightarrow> length (pending c) = co_filled c - co_at c"
  by (auto simp: input_ok_def pending_def)

lemma slice_pending: "input_ok c \<Longrightarrow> slice (co_buf c) (co_at c) (co_filled c) = Some (pending c)"
  by (simp add: input_ok_def slice_def pending_def)

lemma pending_advance: "input_ok c \<Longrightarrow> pending (c\<lparr> co_at := co_at c + n \<rparr>) = drop n (pending c)"
  by (simp add: pending_def drop_take add.commute)

lemma ask_loop_returns:
  assumes "cur \<le> filled" "filled \<le> length buf" "length buf < 2 ^ 32" "n + found \<le> length keys"
  shows "returns (ask_loop n buf cur filled keys found) (\<lambda>(keys', found', cur'). found' \<le> length keys')"
  using assms
proof (induction n arbitrary: cur keys found)
  case (Suc n)
  let ?rest = "take (filled - cur) (drop cur buf)"
  have rest: "slice buf cur filled = Some ?rest" using Suc.prems by (simp add: slice_def)
  have len: "length ?rest = filled - cur" using Suc.prems by simp
  then have small: "length ?rest < 2 ^ 32" using Suc.prems by linarith
  obtain ahead where p: "peek ?rest = Some ahead" and b: "\<forall>u key. ahead = Some (u, key) \<longrightarrow> 0 < u \<and> u \<le> length ?rest"
    by (rule returnsE [OF peek_bound [OF small]])
  show ?case
  proof (cases ahead)
    case None
    then show ?thesis using Suc.prems by (simp add: rest p)
  next
    case (Some a)
    obtain u key where a: "a = (u, key)" by force
    have "u \<le> filled - cur" using b Some a unfolding len by simp
    then have u: "cur + u \<le> filled" using Suc.prems by simp
    show ?thesis
    proof (cases key)
      case None
      then show ?thesis using Suc.IH [OF u Suc.prems(2,3), of found keys] Suc.prems Some a by (simp add: rest p)
    next
      case k: (Some k)
      obtain kat klen where "k = (kat, klen)" by force
      then show ?thesis
        using Suc.IH [OF u Suc.prems(2,3), of "Suc found" "keys[found := (cur + kat, klen)]"] Suc.prems Some a k by (simp add: rest p set_idx_def)
    qed
  qed
qed simp

lemma ask_ahead_returns:
  assumes "input_ok c"
  shows "\<exists>asked. ask_ahead (co_buf c) (co_at c) (co_filled c) = Some asked"
proof -
  have "length (co_buf c) < 2 ^ 32" using input_ok_length [OF assms] by (simp add: MAX_REQUEST_def)
  then have "returns (ask_loop AHEAD (co_buf c) (co_at c) (co_filled c) (replicate AHEAD (0, 0)) 0) (\<lambda>(keys', found', cur'). found' \<le> length keys')"
    using assms by (intro ask_loop_returns) (auto simp: input_ok_def)
  then show ?thesis by (auto simp: ask_ahead_def slice_def elim!: returnsE)
qed


text \<open>One pass of the loop is one pass of the reference.\<close>

lemma execute_loop_pass:
  assumes ok: "input_ok c"
  shows "case pass v (abs_conn c) s of
      None \<Rightarrow> execute_loop v asked c s = None
    | Some (Stopped, S', s') \<Rightarrow> \<exists>c'. execute_loop v asked c s = Some (False, c', s') \<and> abs_conn c' = S' \<and> same_input c c'
    | Some (Ended, S', s') \<Rightarrow> \<exists>c'. execute_loop v asked c s = Some (True, c', s') \<and> abs_conn c' = S' \<and> same_input c c'
    | Some (Onward, S', s') \<Rightarrow> \<exists>c' asked'. execute_loop v asked c s = execute_loop v asked' c' s' \<and> abs_conn c' = S' \<and> same_input c c'"
proof (cases "co_closing c \<or> MAX_REPLY \<le> length (co_out c)")
  case True
  then show ?thesis using ok by (auto simp: pass_def execute_loop.simps [of v asked c s] same_input_def input_ok_def)
next
  case False
  then have go: "\<not> co_closing c \<and> length (co_out c) < MAX_REPLY" by simp
  obtain asked' where a: "(if asked \<le> co_at c then ask_ahead (co_buf c) (co_at c) (co_filled c) else Some asked) = Some asked'"
    using ask_ahead_returns [OF ok] by (cases "asked \<le> co_at c") auto
  obtain r cmd where p: "parse (pending c) command_new = Some (r, cmd)" using parse_total [of "pending c" command_new] by (auto elim!: returnsE)
  then have p': "parse (pending c) (co_command c) = Some (r, cmd)" by (simp add: parse_fresh [of "pending c" "co_command c"])
  note loop = execute_loop.simps [of v asked c s, unfolded if_P [OF go] a slice_pending [OF ok] Option.bind.bind_lunit p' prod.case]
  consider bad where "r = Inl bad" | "r = Inr More" | used where "r = Inr (Done used)" by (metis Parsed.exhaust sum.exhaust)
  then show ?thesis
  proof cases
    case (1 bad)
    then show ?thesis
      using False p loop ok by (simp add: pass_def abs_conn_def pending_def same_input_def input_ok_def put_error_def crlf_def out_extend_def encoder_new_def buffer_def)
  next
    case 2
    then show ?thesis using False p loop ok by (simp add: pass_def abs_conn_def pending_def same_input_def input_ok_def)
  next
    case (3 used)
    have u: "used \<le> length (pending c)" using parse_done p 3 by blast
    then have seen: "slice (pending c) 0 used = Some (take used (pending c))" by (simp add: slice_def)
    have u': "co_at c + used \<le> co_filled c" using u ok by (auto simp: length_pending input_ok_def)
    show ?thesis
    proof (cases "command_is_empty cmd")
      case True
      then show ?thesis
        using False p loop 3 seen ok u' by (auto simp: pass_def run_one_def abs_conn_def same_input_def pending_def drop_take add.commute)
    next
      case full: False
      show ?thesis
      proof (cases "run v cmd (take used (pending c)) (co_dialect c) (s\<lparr> sv_reply := encoder_new (co_out c) (co_dialect c) \<rparr>)")
        case None
        then show ?thesis using False p loop 3 seen full by (simp add: pass_def run_one_def)
      next
        case (Some x)
        obtain outcome d s1 where x: "x = (outcome, d, s1)" by (cases x)
        show ?thesis
          using False p loop 3 seen full Some x ok u'
          by (cases "outcome = Exited") (auto simp: pass_def run_one_def abs_conn_def same_input_def input_ok_def pending_def drop_take add.commute)
      qed
    qed
  qed
qed

lemma execute_loop_serve:
  "input_ok c \<Longrightarrow> length (pending c) \<le> n \<Longrightarrow>
   case serve v n (abs_conn c) s of
     None \<Rightarrow> execute_loop v asked c s = None
   | Some (x, S', s') \<Rightarrow> \<exists>c'. execute_loop v asked c s = Some (x, c', s') \<and> abs_conn c' = S' \<and> same_input c c'"
proof (induction n arbitrary: c s asked)
  case 0
  then have "pass v (abs_conn c) s = Some (Stopped, abs_conn c, s)" by (simp add: pass_def)
  then show ?case using execute_loop_pass [OF 0(1), where v = v and s = s and asked = asked] by simp
next
  case (Suc n)
  note P = execute_loop_pass [OF Suc.prems(1), where v = v and s = s and asked = asked]
  show ?case
  proof (cases "pass v (abs_conn c) s")
    case None
    then show ?thesis using P by simp
  next
    case (Some x)
    obtain w S1 s1 where x: "x = (w, S1, s1)" by (cases x)
    show ?thesis
    proof (cases w)
      case Onward
      then obtain c1 asked1 where c1: "execute_loop v asked c s = execute_loop v asked1 c1 s1" "abs_conn c1 = S1" "same_input c c1"
        using P Some x by auto
      have "length (pending c1) < length (pending c)"
        using pass_shorter [of v "abs_conn c" s S1 s1] Some x Onward c1(2) by (metis abs_conn_simps(1))
      then have "length (pending c1) \<le> n" using Suc.prems(2) by simp
      from Suc.IH [OF same_input_ok [OF Suc.prems(1) c1(3)] this, where s = s1 and asked = asked1]
      show ?thesis using Some x Onward c1 by (auto split: option.splits dest: same_input_trans)
    qed (use P Some x in auto)
  qed
qed

lemma execute_serve:
  assumes "input_ok c"
  shows "case serve_all v (abs_conn c) s of
      None \<Rightarrow> execute v c s = None
    | Some (x, S', s') \<Rightarrow> \<exists>c'. execute v c s = Some (x, c', s') \<and> abs_conn c' = S' \<and> input_ok c' \<and> co_sent c' = co_sent c \<and>
        co_buf c' = co_buf c \<and> co_filled c' \<le> co_filled c"
proof -
  note E = execute_loop_serve [OF assms order_refl, where v = v and s = s and asked = "co_at c"]
  show ?thesis
  proof (cases "serve_all v (abs_conn c) s")
    case None
    then show ?thesis using E by (simp add: serve_all_def execute_def)
  next
    case (Some r)
    obtain x S' s' where r: "r = (x, S', s')" by (cases r)
    then obtain c' where c': "execute_loop v (co_at c) c s = Some (x, c', s')" "abs_conn c' = S'" "same_input c c'"
      using E Some by (auto simp: serve_all_def)
    have ok: "input_ok c'" by (rule same_input_ok [OF assms c'(3)])
    have reset: "abs_conn (c'\<lparr> co_at := 0, co_filled := 0 \<rparr>) = abs_conn c'" "input_ok (c'\<lparr> co_at := 0, co_filled := 0 \<rparr>)" if "co_at c' = co_filled c'"
      using that ok by (simp_all add: abs_conn_def pending_def input_ok_def)
    show ?thesis
      using Some r c' ok reset by (auto simp: execute_def same_input_def)
  qed
qed

section \<open>How the bytes arrive\<close>

text \<open>A pass that found a whole command finds it whatever follows it.\<close>

lemma pass_extend:
  assumes "pass v S s = Some (Onward, S', s')"
  shows "pass v (S\<lparr> st_in := st_in S @ extra \<rparr>) s = Some (Onward, S'\<lparr> st_in := st_in S' @ extra \<rparr>, s')"
  using assms
proof (cases rule: pass_cases)
  case (empty used cmd)
  then show ?thesis using parse_extend [OF empty(3), of extra] parse_done [OF empty(3)] by (simp add: pass_def)
next
  case (runs used cmd d final)
  then show ?thesis using parse_extend [OF runs(3), of extra] parse_done [OF runs(3)] by (simp add: pass_def)
qed simp_all

lemma pass_ends_extend:
  assumes "pass v S s = Some (Ended, S', s')"
  shows "pass v (S\<lparr> st_in := st_in S @ extra \<rparr>) s = Some (Ended, S'\<lparr> st_in := st_in S' @ extra \<rparr>, s')"
  using assms
proof (cases rule: pass_cases)
  case (ends used cmd d)
  then show ?thesis using parse_extend [OF ends(3), of extra] parse_done [OF ends(3)] by (simp add: pass_def)
qed simp_all

lemma serve_extend:
  assumes "serve v n S s = Some (False, S1, s1)" "length (st_in S) \<le> n" "\<not> st_closing S1" "length (st_out S1) < MAX_REPLY"
  shows "serve_all v (S\<lparr> st_in := st_in S @ extra \<rparr>) s = serve_all v (S1\<lparr> st_in := st_in S1 @ extra \<rparr>) s1"
  using assms
proof (induction n arbitrary: S s)
  case (Suc n)
  show ?case
  proof (cases "pass v S s")
    case (Some x)
    obtain w S2 s2 where x: "x = (w, S2, s2)" by (cases x)
    show ?thesis
    proof (cases w)
      case Stopped
      then have "S2 = S1" "s2 = s1" using Suc.prems(1) Some x by simp_all
      moreover have "S2 = S \<and> s2 = s" using Some Suc.prems(3,4) calculation unfolding x Stopped by (cases rule: pass_cases) auto
      ultimately show ?thesis by simp
    next
      case Ended
      then show ?thesis using Suc.prems(1) Some x by simp
    next
      case Onward
      have p: "pass v S s = Some (Onward, S2, s2)" using Some x Onward by simp
      have IH: "serve_all v (S2\<lparr> st_in := st_in S2 @ extra \<rparr>) s2 = serve_all v (S1\<lparr> st_in := st_in S1 @ extra \<rparr>) s1"
        using Suc.IH [of S2 s2] Suc.prems pass_shorter [OF p] Some x Onward by simp
      obtain k where k: "length (st_in S @ extra) = Suc k" using pass_shorter [OF p] by (cases "length (st_in S @ extra)") auto
      have "serve_all v (S\<lparr> st_in := st_in S @ extra \<rparr>) s = serve v k (S2\<lparr> st_in := st_in S2 @ extra \<rparr>) s2"
        using pass_extend [OF p, of extra] k by (simp add: serve_all_def)
      also have "\<dots> = serve_all v (S2\<lparr> st_in := st_in S2 @ extra \<rparr>) s2"
        unfolding serve_all_def by (rule serve_fuel) (use pass_shorter [OF p] k in auto)
      finally show ?thesis using IH by simp
    qed
  qed (use Suc.prems in simp)
qed simp

section \<open>Room to read into\<close>

text \<open>Everything of a connection but its read buffer.\<close>

definition same_rest :: "Conn \<Rightarrow> Conn \<Rightarrow> bool" where
  "same_rest c c' \<longleftrightarrow> co_out c' = co_out c \<and> co_sent c' = co_sent c \<and> co_dialect c' = co_dialect c \<and> co_closing c' = co_closing c"

lemma same_rest_refl [simp]: "same_rest c c"
  by (simp add: same_rest_def)

definition compacted :: "Conn \<Rightarrow> Conn" where
  "compacted c = (if 0 < co_at c
     then c\<lparr> co_buf := splice (co_buf c) 0 (pending c), co_filled := co_filled c - co_at c, co_at := 0 \<rparr> else c)"

lemma compacted_ok:
  assumes "input_ok c"
  shows "input_ok (compacted c)" "pending (compacted c) = pending c" "same_rest c (compacted c)" "co_at (compacted c) = 0"
    "length (co_buf (compacted c)) = length (co_buf c)" "co_filled (compacted c) = length (pending c)"
proof -
  have len: "length (pending c) = co_filled c - co_at c" by (rule length_pending [OF assms])
  have "length (pending c) \<le> length (co_buf c)" using assms len by (auto simp: input_ok_def)
  then have "length (splice (co_buf c) 0 (pending c)) = length (co_buf c)" "take (length (pending c)) (splice (co_buf c) 0 (pending c)) = pending c"
    by (simp_all add: splice_def)
  then show "input_ok (compacted c)" "pending (compacted c) = pending c" "same_rest c (compacted c)" "co_at (compacted c) = 0"
      "length (co_buf (compacted c)) = length (co_buf c)" "co_filled (compacted c) = length (pending c)"
    using assms by (auto simp: compacted_def input_ok_def pending_def same_rest_def)
qed

lemma make_room_eq:
  assumes "input_ok c"
  shows "make_room c =
    (if SPARE \<le> length (co_buf c) - co_filled c then Some (True, c)
     else if SPARE \<le> length (co_buf c) - length (pending c) then Some (True, compacted c)
     else if MAX_REQUEST < length (co_buf c) * 2 then Some (False, compacted c)
     else Some (True, (compacted c)\<lparr> co_buf := co_buf (compacted c) @ replicate (length (co_buf c)) 0 \<rparr>))"
proof -
  note C = compacted_ok [OF assms]
  have le: "co_filled c \<le> length (co_buf c)" "co_at c \<le> co_filled c" using assms by (simp_all add: input_ok_def)
  have pl: "length (pending c) \<le> length (co_buf c)" using le length_pending [OF assms] by simp
  have compact: "(if 0 < co_at c then do {
               kept \<leftarrow> slice (co_buf c) (co_at c) (co_filled c);
               filled \<leftarrow> usub (co_filled c) (co_at c);
               Some (c\<lparr> co_buf := splice (co_buf c) 0 kept, co_filled := filled, co_at := 0 \<rparr>) }
             else Some c) = Some (compacted c)"
    using le slice_pending [OF assms] by (simp add: compacted_def usub_def)
  show ?thesis
    unfolding make_room_def compact using le pl C(5,6) by (auto simp: usub_def Let_def)
qed

lemma grown_pending: "input_ok c \<Longrightarrow> pending (c\<lparr> co_buf := co_buf c @ extra \<rparr>) = pending c"
  by (simp add: pending_def input_ok_def)

lemma make_room_spec:
  assumes "input_ok c"
  shows "returns (make_room c) (\<lambda>(room, c'). input_ok c' \<and> pending c' = pending c \<and> same_rest c c' \<and>
    (if room then SPARE \<le> length (co_buf c') - co_filled c' else MAX_REQUEST < length (pending c) + SPARE))"
proof -
  note C = compacted_ok [OF assms]
  obtain k where k: "k \<le> 10" "length (co_buf c) = CHUNK * 2 ^ k" using assms by (auto simp: input_ok_def)
  have big: "k = 10" if "MAX_REQUEST < length (co_buf c) * 2"
  proof (rule ccontr)
    assume "k \<noteq> 10"
    then have "2 ^ k \<le> (2 :: nat) ^ 9" using k(1) by (intro power_increasing) auto
    then show False using that k(2) by (simp add: CHUNK_def MAX_REQUEST_def)
  qed
  have small: "Suc k \<le> 10" if "\<not> MAX_REQUEST < length (co_buf c) * 2"
    using that k by (cases "k = 10") (auto simp: CHUNK_def MAX_REQUEST_def)
  have grown: "input_ok ((compacted c)\<lparr> co_buf := co_buf (compacted c) @ replicate (length (co_buf c)) 0 \<rparr>)"
    if "\<not> MAX_REQUEST < length (co_buf c) * 2"
    unfolding input_ok_def by (intro conjI exI [of _ "Suc k"]) (use C k small [OF that] in \<open>auto simp: input_ok_def\<close>)
  have spare: "SPARE \<le> length (co_buf c)" using input_ok_length [OF assms] by (simp add: CHUNK_def SPARE_def)
  have top: "length (co_buf c) = MAX_REQUEST" if "MAX_REQUEST < length (co_buf c) * 2"
    using big [OF that] k(2) by (simp add: CHUNK_def MAX_REQUEST_def)
  let ?more = "(compacted c)\<lparr> co_buf := co_buf (compacted c) @ replicate (length (co_buf c)) 0 \<rparr>"
  have rest: "pending ?more = pending c" "same_rest c ?more" "SPARE \<le> length (co_buf ?more) - co_filled ?more"
    using C(2,3,5,6) grown_pending [OF C(1)] spare length_pending [OF assms] assms by (auto simp: same_rest_def input_ok_def)
  show ?thesis
  proof (cases "SPARE \<le> length (co_buf c) - co_filled c")
    case True
    then show ?thesis using assms by (simp add: make_room_eq)
  next
    case full: False
    show ?thesis
    proof (cases "SPARE \<le> length (co_buf c) - length (pending c)")
      case True
      then show ?thesis using full C by (simp add: make_room_eq [OF assms])
    next
      case False
      then have "MAX_REQUEST < length (pending c) + SPARE" if "MAX_REQUEST < length (co_buf c) * 2" using top [OF that] by linarith
      then show ?thesis using full False C(1-3) grown rest by (simp add: make_room_eq [OF assms])
    qed
  qed
qed

section \<open>Reading\<close>

text \<open>What a readable socket delivers into \<open>free\<close> bytes of room: bytes, nothing yet, or the end.\<close>

fun delivered :: "nat \<Rightarrow> ReadResult list \<Rightarrow> bytes option" where
  "delivered free [] = Some []"
| "delivered free (Arrives bs # rs) = (if take free bs = [] then None else Some (take free bs))"
| "delivered free (ReadInterrupted # rs) = delivered free rs"
| "delivered free (ReadBlocks # rs) = Some []"
| "delivered free (ReadFails # rs) = None"

lemma pending_splice:
  assumes "at \<le> filled" "filled + length got \<le> length buf"
  shows "take (filled + length got - at) (drop at (splice buf filled got)) = take (filled - at) (drop at buf) @ got"
proof -
  have "drop at (splice buf filled got) = take (filled - at) (drop at buf) @ got @ drop (filled + length got) buf"
    using assms by (simp add: splice_def drop_take)
  moreover have "filled + length got - at = length (take (filled - at) (drop at buf) @ got)" using assms by simp
  ultimately show ?thesis by (metis append.assoc append_eq_conv_conj)
qed

lemma fill_loop_spec:
  assumes "input_ok c"
  shows "returns (fill_loop rs c) (\<lambda>(there, c'). input_ok c' \<and> same_rest c c' \<and>
    (case delivered (length (co_buf c) - co_filled c) rs of
       None \<Rightarrow> \<not> there \<and> pending c' = pending c
     | Some got \<Rightarrow> there \<and> pending c' = pending c @ got))"
  using assms
proof (induction rs)
  case (Cons r rs)
  show ?case
  proof (cases r)
    case (Arrives bs)
    let ?got = "take (length (co_buf c) - co_filled c) bs"
    have le: "co_at c \<le> co_filled c" "co_filled c \<le> length (co_buf c)" using Cons.prems by (simp_all add: input_ok_def)
    have fits: "co_filled c + length ?got \<le> length (co_buf c)" using le by simp
    let ?c = "c\<lparr> co_buf := splice (co_buf c) (co_filled c) ?got, co_filled := co_filled c + length ?got \<rparr>"
    have "pending ?c = pending c @ ?got"
      using pending_splice [OF le(1) fits] unfolding pending_def by simp
    moreover have "input_ok ?c" using Cons.prems fits by (auto simp: input_ok_def)
    ultimately show ?thesis using Cons.prems Arrives le fits by (auto simp: usub_def copy_into_def Let_def same_rest_def)
  qed (use Cons in simp_all)
qed simp

lemma fill_spec:
  assumes "input_ok c"
  shows "returns (fill rs c) (\<lambda>(there, c'). input_ok c' \<and> same_rest c c' \<and>
    (\<exists>free\<ge>SPARE. case delivered free rs of
       None \<Rightarrow> \<not> there \<and> pending c' = pending c
     | Some got \<Rightarrow> if there then pending c' = pending c @ got else MAX_REQUEST < length (pending c) + SPARE \<and> pending c' = pending c))"
proof -
  obtain room c1 where c1: "make_room c = Some (room, c1)" "input_ok c1" "pending c1 = pending c" "same_rest c c1"
      "if room then SPARE \<le> length (co_buf c1) - co_filled c1 else MAX_REQUEST < length (pending c) + SPARE"
    using make_room_spec [OF assms] by (auto elim!: returnsE)
  show ?thesis
  proof (cases room)
    case False
    then show ?thesis using c1 by (auto simp: fill_def split: option.splits)
  next
    case True
    obtain there c2 where c2: "fill_loop rs c1 = Some (there, c2)" "input_ok c2" "same_rest c1 c2"
        "case delivered (length (co_buf c1) - co_filled c1) rs of None \<Rightarrow> \<not> there \<and> pending c2 = pending c1
         | Some got \<Rightarrow> there \<and> pending c2 = pending c1 @ got"
      using fill_loop_spec [OF c1(2), of rs] by (auto elim!: returnsE)
    have "same_rest c c2" using c1(4) c2(3) by (simp add: same_rest_def)
    then show ?thesis
      using c1 c2 True by (auto simp: fill_def intro!: exI [of _ "length (co_buf c1) - co_filled c1"] split: option.splits)
  qed
qed

text \<open>The ring puts bytes where a step said and counts them.\<close>

lemma receive_appends:
  assumes "input_ok c" "co_filled c + length bs \<le> length (co_buf c)"
  defines "c' \<equiv> arrived (length bs) (c\<lparr> co_buf := splice (co_buf c) (co_filled c) bs \<rparr>)"
  shows "input_ok c'" "abs_conn c' = (abs_conn c)\<lparr> st_in := pending c @ bs \<rparr>"
proof -
  have le: "co_at c \<le> co_filled c" using assms(1) by (simp add: input_ok_def)
  show "input_ok c'" using assms(1,2) by (auto simp: c'_def input_ok_def arrived_def)
  have "pending c' = pending c @ bs" using pending_splice [OF le assms(2)] assms(2) by (simp add: c'_def pending_def arrived_def)
  then show "abs_conn c' = (abs_conn c)\<lparr> st_in := pending c @ bs \<rparr>" by (simp add: abs_conn_def) (simp add: c'_def arrived_def)
qed

section \<open>Writing\<close>

definition unsent :: "Conn \<Rightarrow> bytes" where
  "unsent c = drop (co_sent c) (co_out c)"

definition conn_ok :: "Conn \<Rightarrow> bool" where
  "conn_ok c \<longleftrightarrow> input_ok c \<and> co_sent c \<le> length (co_out c)"

text \<open>Writing touches nothing of the input, and takes bytes off the front of what is owed.\<close>

definition wrote_some :: "Conn \<Rightarrow> Conn \<Rightarrow> bool" where
  "wrote_some c c' \<longleftrightarrow> (\<exists>k. unsent c' = drop k (unsent c)) \<and> co_sent c' \<le> length (co_out c') \<and>
     co_buf c' = co_buf c \<and> co_filled c' = co_filled c \<and> co_at c' = co_at c \<and> co_dialect c' = co_dialect c \<and> co_closing c' = co_closing c"

lemma wrote_some_ok: "wrote_some c c' \<Longrightarrow> conn_ok c \<Longrightarrow> conn_ok c' \<and> pending c' = pending c"
  by (simp add: wrote_some_def conn_ok_def input_ok_def pending_def)

lemma flush_loop_spec:
  "co_sent c \<le> length (co_out c) \<Longrightarrow>
   returns (flush_loop ws c) (\<lambda>(ok, ws', c'). \<exists>k. c' = c\<lparr> co_sent := co_sent c + k \<rparr> \<and> co_sent c + k \<le> length (co_out c))"
proof (induction ws arbitrary: c)
  case Nil
  show ?case using Nil by (subst flush_loop.simps) (auto intro!: exI [of _ 0])
next
  case (Cons w ws)
  show ?case
  proof (cases "co_sent c < length (co_out c)")
    case True
    show ?thesis
    proof (cases w)
      case (Took n)
      let ?n = "min n (length (co_out c) - co_sent c)" and ?c = "c\<lparr> co_sent := co_sent c + min n (length (co_out c) - co_sent c) \<rparr>"
      have le: "co_sent ?c \<le> length (co_out ?c)" using Cons.prems by simp
      show ?thesis
      proof (cases "?n = 0")
        case zero: True
        then show ?thesis using True Took by (subst flush_loop.simps) (auto simp: Let_def intro!: exI [of _ 0])
      next
        case False
        have "returns (flush_loop ws ?c) (\<lambda>(ok, ws', c'). \<exists>k. c' = c\<lparr> co_sent := co_sent c + k \<rparr> \<and> co_sent c + k \<le> length (co_out c))"
          by (rule returns_mono [OF Cons.IH [OF le]]) (auto simp: add.assoc)
        then show ?thesis using True Took False by (subst flush_loop.simps) (auto simp: Let_def intro!: exI [of _ 0])
      qed
    next
      case WriteInterrupted
      then show ?thesis using Cons.IH [OF Cons.prems] True by (subst flush_loop.simps) simp
    qed (use True in \<open>subst flush_loop.simps, auto intro!: exI [of _ 0]\<close>)+
  qed (use Cons.prems in \<open>subst flush_loop.simps, auto intro!: exI [of _ 0]\<close>)
qed

lemma conn_flush_spec:
  assumes "co_sent c \<le> length (co_out c)"
  shows "returns (conn_flush ws c) (\<lambda>(ok, ws', c'). wrote_some c c')"
proof -
  obtain ok ws' k where k: "flush_loop ws c = Some (ok, ws', c\<lparr> co_sent := co_sent c + k \<rparr>)" "co_sent c + k \<le> length (co_out c)"
    using flush_loop_spec [OF assms, of ws] by (auto elim!: returnsE)
  have "drop (co_sent c + k) (co_out c) = drop k (unsent c)" by (simp add: unsent_def add.commute)
  then have "wrote_some c (c\<lparr> co_sent := co_sent c + k \<rparr>)" "wrote_some c (c\<lparr> co_out := [], co_sent := 0 \<rparr>)" if "co_sent c + k = length (co_out c)"
    using that by (auto simp: wrote_some_def unsent_def intro!: exI [of _ k])
  moreover have "wrote_some c (c\<lparr> co_sent := co_sent c + k \<rparr>)" "wrote_some c (c\<lparr> co_out := drop (co_sent c + k) (co_out c), co_sent := 0 \<rparr>)"
    using k(2) by (auto simp: wrote_some_def unsent_def add.commute intro!: exI [of _ k])
  ultimately show ?thesis using k by (simp add: conn_flush_def)
qed

section \<open>What a pipeline is answered\<close>

text \<open>Replies, each in the dialect it was written in.\<close>

definition replies :: "(Dialect \<times> Value) list \<Rightarrow> bytes" where
  "replies rs = concat (map (\<lambda>(d, r). encode d r) rs)"

lemma replies_simps [simp]: "replies [] = []" "replies (x # rs) = encode (fst x) (snd x) @ replies rs" "replies (rs @ rs') = replies rs @ replies rs'"
  by (simp_all add: replies_def case_prod_beta)

lemma serving_reply [simp]: "serving v m (s\<lparr> sv_reply := e \<rparr>) \<longleftrightarrow> serving v m s"
  by (simp add: serving_def)

lemma well_formed_bad: "well_formed (VError (ascii (''ERR '' @ message bad)))"
  by (cases bad) (simp_all add: message_def one_line_ascii)

lemma parsed_named:
  assumes "parse buf into = Some (Inr (Done used), cmd)" "\<not> command_is_empty cmd"
  shows "\<exists>raw. arg cmd 0 (take used buf) = Some raw"
proof -
  have "list_all (span_within used) (args cmd)" "used \<le> length buf" using parse_total [of buf into] assms(1) by simp_all
  then show ?thesis
    using assms(2) by (cases "args cmd") (auto simp: command_is_empty_def command_len_def arg_def idx_def span_within_def slice_def Let_def)
qed

text \<open>
  Taking whole commands one after another off the front of some bytes, with one well-formed reply for each
  command that is not empty and none for one that is, in their order, until \<open>left\<close> is left.
\<close>

inductive answers_for :: "bytes \<Rightarrow> (Dialect \<times> Value) list \<Rightarrow> bytes \<Rightarrow> bool" where
  here: "answers_for left [] left"
| skips: "parse input command_new = Some (Inr (Done n), cmd) \<Longrightarrow> command_is_empty cmd \<Longrightarrow>
    answers_for (drop n input) rs left \<Longrightarrow> answers_for input rs left"
| replies_to: "parse input command_new = Some (Inr (Done n), cmd) \<Longrightarrow> \<not> command_is_empty cmd \<Longrightarrow> well_formed x \<Longrightarrow>
    answers_for (drop n input) rs left \<Longrightarrow> answers_for input ((d, x) # rs) left"

text \<open>The command at the front is \<^verbatim>\<open>SHUTDOWN\<close>.\<close>

definition shuts_down :: "bytes \<Rightarrow> bool" where
  "shuts_down input \<longleftrightarrow> (\<exists>n cmd raw. parse input command_new = Some (Inr (Done n), cmd) \<and> \<not> command_is_empty cmd \<and>
     arg cmd 0 (take n input) = Some raw \<and> map to_ascii_uppercase raw = ascii ''SHUTDOWN'')"

definition starved :: "bytes \<Rightarrow> bool" where
  "starved input \<longleftrightarrow> (\<exists>cmd. parse input command_new = Some (Inr More, cmd))"

text \<open>
  What serving a stream comes to. The whole commands up to where it stopped have one reply each, and it
  stopped at \<^verbatim>\<open>SHUTDOWN\<close>; or with the server in order because the connection is closing, because
  the replies reached their ceiling, because the next command has not wholly arrived, or because the
  bytes there are no command, which is said in one more reply.
\<close>

definition served :: "DispatchEnv \<Rightarrow> Stream \<Rightarrow> bool \<times> Stream \<times> Server \<Rightarrow> bool" where
  "served v S = (\<lambda>(exited, S', s'). \<exists>rs. answers_for (st_in S) rs (st_in S') \<and>
     (if exited then st_out S' = st_out S @ replies rs \<and> shuts_down (st_in S')
      else (\<exists>m. serving v m s') \<and>
        (st_out S' = st_out S @ replies rs \<and> (st_closing S' \<or> MAX_REPLY \<le> length (st_out S') \<or> starved (st_in S')) \<or>
         (\<exists>bad cmd. parse (st_in S') command_new = Some (Inl bad, cmd) \<and> st_closing S' \<and>
            st_out S' = st_out S @ replies rs @ encode (st_dialect S') (VError (ascii (''ERR '' @ message bad)))))))"

text \<open>The last command answered was refused memory, and those before it were answered.\<close>

definition refused :: "DispatchEnv \<Rightarrow> Stream \<Rightarrow> bool \<times> Stream \<times> Server \<Rightarrow> bool" where
  "refused v S = (\<lambda>(exited, S', s'). \<not> exited \<and> (\<exists>rs d m. limping v m s' \<and> answers_for (st_in S) (rs @ [(d, OOM)]) (st_in S') \<and>
     st_out S' = st_out S @ replies rs @ encode d OOM))"

text \<open>What one pass that goes on has done: nothing but step over an empty command, or one reply.\<close>

definition passed :: "DispatchEnv \<Rightarrow> Stream \<Rightarrow> (Dialect \<times> Value) list \<Rightarrow> Stream \<Rightarrow> bool" where
  "passed v S rs S' \<longleftrightarrow> st_out S' = st_out S @ replies rs \<and>
     (\<forall>rs' left. answers_for (st_in S') rs' left \<longrightarrow> answers_for (st_in S) (rs @ rs') left)"

lemma passed_served: "passed v S rs S1 \<Longrightarrow> served v S1 r \<Longrightarrow> served v S r"
  unfolding passed_def served_def by (cases r) (fastforce simp del: encode.simps)

lemma passed_refused: "passed v S rs S1 \<Longrightarrow> refused v S1 r \<Longrightarrow> refused v S r"
  unfolding passed_def refused_def
  by (cases r) (auto simp del: encode.simps, metis append.assoc replies_simps(3))

lemma one_reply_passed:
  assumes "parse (st_in S) command_new = Some (Inr (Done n), cmd)" "\<not> command_is_empty cmd" "well_formed x"
    and "st_in S' = drop n (st_in S)" "st_out S' = st_out S @ encode d x"
  shows "passed v S [(d, x)] S'"
  using assms answers_for.replies_to [OF assms(1-3)] by (simp add: passed_def)

lemma pass_spec:
  assumes "serving v m s"
  shows "returns (pass v S s) (\<lambda>(w, S', s'). case w of
       Stopped \<Rightarrow> served v S (False, S', s')
     | Ended \<Rightarrow> served v S (True, S', s')
     | Onward \<Rightarrow> (\<exists>m' rs. serving v m' s' \<and> passed v S rs S') \<or> refused v S (False, S', s'))"
proof -
  have sv: "serving v m (s\<lparr> sv_reply := encoder_new (st_out S) (st_dialect S) \<rparr>)" using assms by simp
  have "pass v S s \<noteq> None"
  proof -
    obtain r cmd where p: "parse (st_in S) command_new = Some (r, cmd)" using parse_total [of "st_in S" command_new] by (auto elim!: returnsE)
    have "run v cmd (take n (st_in S)) (st_dialect S) (s\<lparr> sv_reply := encoder_new (st_out S) (st_dialect S) \<rparr>) \<noteq> None"
      if "r = Inr (Done n)" "\<not> command_is_empty cmd" for n
      using parsed_named [of "st_in S" command_new n cmd] p that run_spec [OF sv, of cmd "take n (st_in S)" _ "st_dialect S"]
      by (auto elim!: returnsE)
    then show ?thesis using p by (auto simp: pass_def Let_def split: sum.splits Parsed.splits if_splits)
  qed
  then obtain w S' s' where r: "pass v S s = Some (w, S', s')" by (metis option.exhaust prod_cases3)
  then show ?thesis
  proof (cases rule: pass_cases)
    case full
    then show ?thesis using assms r by (auto simp: served_def intro!: exI [of _ "[]"] answers_for.here)
  next
    case (bad b cmd)
    then show ?thesis using assms r by (auto simp: served_def simp del: encode.simps intro!: exI [of _ "[]"] answers_for.here)
  next
    case (more cmd)
    then show ?thesis using assms r by (auto simp: served_def starved_def intro!: exI [of _ "[]"] answers_for.here)
  next
    case (empty used cmd)
    then have "passed v S [] S'" using answers_for.skips [OF empty(3,4)] by (simp add: passed_def)
    then show ?thesis using assms r empty by auto
  next
    case (ends used cmd d)
    obtain raw where raw: "arg cmd 0 (take used (st_in S)) = Some raw" using parsed_named [OF ends(3,4)] by blast
    have "map to_ascii_uppercase raw = ascii ''SHUTDOWN'' \<and> st_out S' = st_out S"
      using run_spec [OF sv raw, of "st_dialect S"] ends(5,7) by (simp add: encoder_new_def buffer_def)
    then have "served v S (True, S', s')"
      using ends(3,4,7) raw by (auto simp: served_def shuts_down_def intro!: exI [of _ "[]"] answers_for.here)
    then show ?thesis using r ends(6) by simp
  next
    case (runs used cmd d final)
    obtain raw where raw: "arg cmd 0 (take used (st_in S)) = Some raw" using parsed_named [OF runs(3,4)] by blast
    have in': "st_in S' = drop used (st_in S)" using runs(7) by simp
    have one: "one_reply v (s\<lparr> sv_reply := encoder_new (st_out S) (st_dialect S) \<rparr>) d s'"
      using run_spec [OF sv raw, of "st_dialect S"] runs(5) by simp
    then consider (answer) x m' where "well_formed x" "serving v m' s'" "st_out S' = st_out S @ encode d x"
      | (oom) m' where "limping v m' s'" "st_out S' = st_out S @ encode d OOM"
      unfolding one_reply_def using runs(7) by (auto simp: encoder_new_def buffer_def)
    then show ?thesis
    proof cases
      case answer
      then show ?thesis using one_reply_passed [OF runs(3,4) answer(1) in' answer(3), of v] r runs(6) by auto
    next
      case oom
      have "answers_for (st_in S) [(d, OOM)] (st_in S')"
        using answers_for.replies_to [OF runs(3,4) well_formed_errors(5) answers_for.here] in' by simp
      then have "refused v S (False, S', s')" using oom by (auto simp: refused_def simp del: encode.simps intro!: exI [of _ "[]"])
      then show ?thesis using r runs(6) by simp
    qed
  qed
qed

text \<open>Any number of commands, with fuel for all of them.\<close>

lemma serve_spec:
  "serving v m s \<Longrightarrow> length (st_in S) \<le> n \<Longrightarrow>
   returns (serve v n S s) (served v S) \<or> (\<exists>k\<le>n. returns (serve v k S s) (refused v S))"
proof (induction n arbitrary: m S s)
  case 0
  then show ?case by (auto simp: served_def starved_def intro!: exI [of _ "[]"] answers_for.here)
next
  case (Suc n)
  obtain w S1 s1 where p: "pass v S s = Some (w, S1, s1)" and q: "case w of
       Stopped \<Rightarrow> served v S (False, S1, s1)
     | Ended \<Rightarrow> served v S (True, S1, s1)
     | Onward \<Rightarrow> (\<exists>m' rs. serving v m' s1 \<and> passed v S rs S1) \<or> refused v S (False, S1, s1)"
    using pass_spec [OF Suc.prems(1), of S] by (auto elim!: returnsE)
  show ?case
  proof (cases w)
    case Onward
    with q consider "refused v S (False, S1, s1)" | m' rs where "serving v m' s1" "passed v S rs S1" by auto
    then show ?thesis
    proof cases
      case 1
      then show ?thesis using p Onward by (intro disjI2 exI [of _ "Suc 0"]) simp
    next
      case (2 m' rs)
      have "length (st_in S1) \<le> n" using pass_shorter [of v S s S1 s1] p Onward Suc.prems(2) by simp
      from Suc.IH [OF 2(1) this] show ?thesis
      proof
        assume "returns (serve v n S1 s1) (served v S1)"
        then show ?thesis using p Onward passed_served [OF 2(2)] by (auto elim!: returnsE)
      next
        assume "\<exists>k\<le>n. returns (serve v k S1 s1) (refused v S1)"
        then obtain k where k: "k \<le> n" "returns (serve v k S1 s1) (refused v S1)" by blast
        have "returns (serve v (Suc k) S s) (refused v S)"
          using k(2) p Onward passed_refused [OF 2(2)] by (auto elim!: returnsE)
        then show ?thesis using k(1) by (metis Suc_le_mono)
      qed
    qed
  qed (use p q in auto)
qed

end
