(* ===== verification/Rugo_Wire.thy ===== *)
theory Rugo_Wire
  imports Rugo_Stream
begin

text \<open>
  The properties of a connection: its buffers stay in order whatever happens to it, it refines the
  reference service of \<open>Rugo_Stream\<close>, how its bytes arrive does not matter, a pipeline is answered in
  order, and the loop of \<^verbatim>\<open>turn\<close> can leave a whole command unanswered while \<^verbatim>\<open>step\<close> cannot.
\<close>

section \<open>A life of a connection\<close>

lemma flush_loop_input: "flush_loop ws c = Some (ok, ws', c') \<Longrightarrow> \<exists>k. c' = c\<lparr> co_sent := k \<rparr>"
proof (induction ws arbitrary: c)
  case Nil
  then show ?case by (subst (asm) flush_loop.simps) (auto split: if_splits intro!: exI [of _ "co_sent c"])
next
  case (Cons w ws)
  have self: "\<exists>k. c = c\<lparr> co_sent := k \<rparr>" by (rule exI [of _ "co_sent c"]) simp
  from Cons.prems show ?case
    by (subst (asm) flush_loop.simps) (use Cons.IH self in \<open>fastforce split: if_splits WriteResult.splits simp: Let_def\<close>)
qed

lemma conn_flush_input: "conn_flush ws c = Some (ok, ws', c') \<Longrightarrow> co_buf c' = co_buf c \<and> co_filled c' = co_filled c \<and> co_at c' = co_at c"
  by (auto simp: conn_flush_def bind_eq_Some_conv dest!: flush_loop_input split: if_splits)

lemma execute_input_ok: "input_ok c \<Longrightarrow> execute v c s = Some (x, c', s') \<Longrightarrow> input_ok c'"
  using execute_serve [of c v s] by (auto split: option.splits)

lemma fill_input_ok: "input_ok c \<Longrightarrow> fill rs c = Some (there, c') \<Longrightarrow> input_ok c'"
  using fill_spec [of c rs] by simp

lemma make_room_input_ok: "input_ok c \<Longrightarrow> make_room c = Some (room, c') \<Longrightarrow> input_ok c'"
  using make_room_spec [of c] by simp

lemma conn_flush_input_ok: "input_ok c \<Longrightarrow> conn_flush ws c = Some (ok, ws', c') \<Longrightarrow> input_ok c'"
  using conn_flush_input by (fastforce simp: input_ok_def)

lemma turn_input_ok:
  assumes "input_ok c" "turn v rd wr reads writes c s = Some (r, c', s')"
  shows "input_ok c'"
  using assms
  by (auto simp: turn_def bind_eq_Some_conv split: if_splits
      dest!: conn_flush_input_ok [rotated] fill_input_ok [rotated] execute_input_ok [rotated])

text \<open>A step executes at most once: a second pass finds the reply of the first owed.\<close>

lemma execute_sent: "execute v c s = Some (x, c', s') \<Longrightarrow> co_sent c' = co_sent c"
  by (auto simp: execute_def bind_eq_Some_conv dest!: execute_loop_sent split: if_splits)

lemma step_owes: "owes c \<Longrightarrow> step v c s = Some (Some (Send (co_sent c) (length (co_out c) - co_sent c)), c, s)"
  by (subst step.simps) simp

lemma bind_triple: "(\<And>x c s. m = Some (x, c, s) \<Longrightarrow> f (x, c, s) = g (x, c, s)) \<Longrightarrow> Option.bind m f = Option.bind m g"
  by (cases m) auto

lemma step_eq:
  assumes "\<not> owes c"
  shows "step v c s =
    (let c = c\<lparr> co_out := [], co_sent := 0 \<rparr>
     in if co_closing c then Some (Some StepClose, c, s)
     else do {
       (exited, c, s) \<leftarrow> (if co_at c < co_filled c then execute v c s else Some (False, c, s));
       if exited then Some (None, c, s)
       else if co_out c \<noteq> [] then Some (Some (Send 0 (length (co_out c))), c, s)
       else if co_closing c then Some (Some StepClose, c, s)
       else do {
         (room, c) \<leftarrow> make_room c;
         if room then do {
           free \<leftarrow> usub (length (co_buf c)) (co_filled c);
           Some (Some (Recv (co_filled c) free), c, s) }
         else Some (Some StepClose, c, s) } })"
proof -
  let ?c = "c\<lparr> co_out := [], co_sent := 0 \<rparr>"
  let ?m = "if co_at ?c < co_filled ?c then execute v ?c s else Some (False, ?c, s)"
  have again: "step v c1 s1 = Some (Some (Send 0 (length (co_out c1))), c1, s1)" if "?m = Some (x, c1, s1)" "co_out c1 \<noteq> []" for x c1 s1
  proof -
    have "co_sent c1 = 0" using that(1) execute_sent [of v ?c s x c1 s1] by (auto split: if_splits)
    then show ?thesis using that(2) step_owes [of c1] by (simp add: owes_def)
  qed
  show ?thesis
    unfolding step.simps [of v c s] if_not_P [OF assms] Let_def
    by (intro if_cong refl bind_triple) (simp add: again)
qed

lemma step_input_ok:
  assumes "input_ok c" "step v c s = Some (r, c', s')"
  shows "input_ok c'"
proof (cases "owes c")
  case True
  then show ?thesis using assms step_owes by simp
next
  case False
  have "input_ok (c\<lparr> co_out := [], co_sent := 0 \<rparr>)" using assms(1) by (simp add: input_ok_def)
  then show ?thesis
    using assms(2) unfolding step_eq [OF False] Let_def
    by (auto simp: bind_eq_Some_conv split: if_splits dest!: make_room_input_ok [rotated] execute_input_ok [rotated])
qed

text \<open>
  Everything that can happen to a connection, in any order and on whatever servers: turns of the
  readiness loop, steps of the completion loop, a ring putting bytes where a step said and counting
  them, a ring counting bytes it sent.
\<close>

inductive lives :: "DispatchEnv \<Rightarrow> Conn \<Rightarrow> bool" for v where
  opened: "lives v conn_new"
| turns: "lives v c \<Longrightarrow> turn v rd wr reads writes c s = Some (r, c', s') \<Longrightarrow> lives v c'"
| steps: "lives v c \<Longrightarrow> step v c s = Some (r, c', s') \<Longrightarrow> lives v c'"
| receives: "lives v c \<Longrightarrow> co_filled c + length bs \<le> length (co_buf c) \<Longrightarrow>
    lives v (arrived (length bs) (c\<lparr> co_buf := splice (co_buf c) (co_filled c) bs \<rparr>))"
| sends: "lives v c \<Longrightarrow> lives v (written n c)"


lemma input_ok_new: "input_ok conn_new"
  by (auto simp: input_ok_def conn_new_def intro!: exI [of _ 0])

lemma lives_input_ok: "lives v c \<Longrightarrow> input_ok c"
proof (induction rule: lives.induct)
  case opened
  show ?case by (rule input_ok_new)
next
  case (turns c rd wr reads writes s r c' s')
  then show ?case using turn_input_ok by blast
next
  case (steps c s r c' s')
  then show ?case using step_input_ok by blast
next
  case (receives c bs)
  then show ?case by (auto simp: input_ok_def arrived_def)
next
  case (sends c n)
  then show ?case by (simp add: input_ok_def written_def)
qed

text \<open>
  C6: Whatever happens to a connection, in whatever order, on whatever servers and sockets, the offsets of
  its read buffer stay inside it and the buffer is the first chunk doubled at most ten times, so a
  client can never make the server buffer more than the limit of a request.
\<close>

theorem buffer_stays_in_order:
  assumes "lives v c"
  shows "co_at c \<le> co_filled c \<and> co_filled c \<le> length (co_buf c) \<and> (\<exists>k\<le>10. length (co_buf c) = CHUNK * 2 ^ k) \<and>
    length (co_buf c) \<le> MAX_REQUEST"
  using lives_input_ok [OF assms] input_ok_length by (auto simp: input_ok_def)

text \<open>A connection that has received some bytes through the ring.\<close>

definition fed :: "bytes \<Rightarrow> Conn" where
  "fed bs = arrived (length bs) (conn_new\<lparr> co_buf := splice (co_buf conn_new) (co_filled conn_new) bs \<rparr>)"

lemma lives_fed: "length bs \<le> CHUNK \<Longrightarrow> lives v (fed bs)"
  unfolding fed_def by (rule receives [OF opened]) (simp add: conn_new_def)

lemma fed_simps:
  assumes "length bs \<le> CHUNK"
  shows "pending (fed bs) = bs" "abs_conn (fed bs) = \<lparr> st_in = bs, st_out = [], st_dialect = Resp2, st_closing = False \<rparr>" "co_sent (fed bs) = 0"
proof -
  have "co_filled (fed bs) = length bs" "co_at (fed bs) = 0" "co_buf (fed bs) = bs @ drop (length bs) (replicate CHUNK 0)"
    using assms by (simp_all add: fed_def arrived_def conn_new_def splice_def)
  then show p: "pending (fed bs) = bs" by (simp add: pending_def)
  show "abs_conn (fed bs) = \<lparr> st_in = bs, st_out = [], st_dialect = Resp2, st_closing = False \<rparr>" "co_sent (fed bs) = 0"
    using p by (simp_all add: abs_conn_def fed_def arrived_def conn_new_def)
qed

lemma input_ok_fed: "length bs \<le> CHUNK \<Longrightarrow> input_ok (fed bs)"
  by (rule lives_input_ok [OF lives_fed])

theorem buffer_stays_in_order_witness:
  "co_at (fed (ascii ''PING'')) \<le> co_filled (fed (ascii ''PING'')) \<and>
   co_filled (fed (ascii ''PING'')) \<le> length (co_buf (fed (ascii ''PING''))) \<and>
   (\<exists>k\<le>10. length (co_buf (fed (ascii ''PING''))) = CHUNK * 2 ^ k) \<and> length (co_buf (fed (ascii ''PING''))) \<le> MAX_REQUEST"
  by (rule buffer_stays_in_order [where v = sample_env], rule lives_fed) (simp add: ascii_def CHUNK_def)

section \<open>The reference and the connection\<close>

lemma execute_abs:
  assumes "input_ok c"
  shows "map_option (\<lambda>(x, c', s'). (x, abs_conn c', s')) (execute v c s) = serve_all v (abs_conn c) s"
  using execute_serve [OF assms, of v s] by (auto split: option.splits)

text \<open>
  C4: The loop that runs the commands of a read buffer, with its offsets, its look-ahead and its reset, does
  to the waiting bytes, the replies, the dialect, the closing flag and the server exactly what the
  reference does, which takes one command after another off the front of the stream; it panics only
  where a command does.
\<close>

theorem execute_refines_service:
  assumes "input_ok c"
  shows "map_option (\<lambda>(exited, c', s'). (exited, abs_conn c', s')) (execute v c s) = serve_all v (abs_conn c) s"
  by (rule execute_abs [OF assms])

theorem execute_refines_service_witness:
  "map_option (\<lambda>(exited, c', s'). (exited, abs_conn c', s')) (execute sample_env (fed (ascii ''PING'' @ [CR, NL])) sample_server) =
   serve_all sample_env (abs_conn (fed (ascii ''PING'' @ [CR, NL]))) sample_server"
  by (rule execute_refines_service, rule input_ok_fed) (simp add: ascii_def CHUNK_def)

text \<open>
  C5: As long as the connection is open and its replies are under their ceiling, cutting the bytes of a
  client in two does not change what is done with them: if running the first part, as far as it has
  arrived, leaves the connection open and the replies under the ceiling, then running the rest when it
  has arrived ends, byte for byte and entry for entry, where running everything at once would have
  ended. (The condition is needed: an inline line over its limit closes the connection when it is
  seen before its newline, and is a command when the newline arrives with it.)
\<close>

theorem arrival_does_not_matter:
  assumes "input_ok c" "execute v c s = Some (False, c1, s1)" "\<not> co_closing c1" "length (co_out c1) < MAX_REPLY"
    and "input_ok later" "abs_conn later = (abs_conn c1)\<lparr> st_in := pending c1 @ extra \<rparr>"
    and "input_ok whole" "abs_conn whole = (abs_conn c)\<lparr> st_in := pending c @ extra \<rparr>"
  shows "map_option (\<lambda>(exited, c', s'). (exited, abs_conn c', s')) (execute v whole s) =
    map_option (\<lambda>(exited, c', s'). (exited, abs_conn c', s')) (execute v later s1)"
proof -
  have "serve v (length (st_in (abs_conn c))) (abs_conn c) s = Some (False, abs_conn c1, s1)"
    using execute_abs [OF assms(1), of v s] assms(2) by (simp add: serve_all_def)
  from serve_extend [OF this, of extra] show ?thesis
    unfolding execute_abs [OF assms(5)] execute_abs [OF assms(7)] assms(6,8) using assms(3,4) by simp
qed

theorem arrival_does_not_matter_witness:
  "\<exists>c1. execute sample_env (fed (ascii ''PI'')) sample_server = Some (False, c1, sample_server) \<and>
    map_option (\<lambda>(exited, c', s'). (exited, abs_conn c', s')) (execute sample_env (fed (ascii ''PI'' @ ascii ''NG'' @ [CR, NL])) sample_server) =
    map_option (\<lambda>(exited, c', s'). (exited, abs_conn c', s'))
      (execute sample_env (arrived 4 (c1\<lparr> co_buf := splice (co_buf c1) (co_filled c1) (ascii ''NG'' @ [CR, NL]) \<rparr>)) sample_server)"
proof -
  let ?c = "fed (ascii ''PI'')" and ?rest = "ascii ''NG'' @ [CR, NL]"
  have ok: "input_ok ?c" and ok': "input_ok (fed (ascii ''PI'' @ ?rest))" by (rule input_ok_fed; simp add: ascii_def CHUNK_def)+
  have f: "pending ?c = ascii ''PI''" "abs_conn ?c = \<lparr> st_in = ascii ''PI'', st_out = [], st_dialect = Resp2, st_closing = False \<rparr>"
    "abs_conn (fed (ascii ''PI'' @ ?rest)) = \<lparr> st_in = ascii ''PI'' @ ?rest, st_out = [], st_dialect = Resp2, st_closing = False \<rparr>"
    by (rule fed_simps; simp add: ascii_def CHUNK_def)+
  have len: "length (pending ?c) = Suc (Suc 0)" unfolding f(1) by (simp add: ascii_def)
  have "parse (ascii ''PI'') command_new = Some (Inr More, command_new)"
    by (simp add: ascii_def parse_evals command_new_def)
  then have "pass sample_env (abs_conn ?c) sample_server = Some (Stopped, abs_conn ?c, sample_server)"
    by (simp add: f pass_def MAX_REPLY_def)
  then have "serve_all sample_env (abs_conn ?c) sample_server = Some (False, abs_conn ?c, sample_server)"
    by (simp add: serve_all_def len)
  then obtain c1 where c1: "execute sample_env ?c sample_server = Some (False, c1, sample_server)" "abs_conn c1 = abs_conn ?c" "input_ok c1"
      "co_buf c1 = co_buf ?c" "co_filled c1 \<le> co_filled ?c"
    using execute_serve [OF ok, of sample_env sample_server] by auto
  have room: "co_filled c1 + length ?rest \<le> length (co_buf c1)"
    using c1(4,5) by (simp add: fed_def arrived_def conn_new_def splice_def CHUNK_def ascii_def)
  note R = receive_appends [OF c1(3) room]
  have p: "pending c1 = ascii ''PI''" using arg_cong [OF c1(2), of st_in] f(1) by simp
  have o: "\<not> co_closing c1" "length (co_out c1) < MAX_REPLY"
    using arg_cong [OF c1(2), of st_closing] arg_cong [OF c1(2), of st_out] f(2) by (simp_all add: MAX_REPLY_def)
  have "map_option (\<lambda>(exited, c', s'). (exited, abs_conn c', s')) (execute sample_env (fed (ascii ''PI'' @ ?rest)) sample_server) =
    map_option (\<lambda>(exited, c', s'). (exited, abs_conn c', s'))
      (execute sample_env (arrived (length ?rest) (c1\<lparr> co_buf := splice (co_buf c1) (co_filled c1) ?rest \<rparr>)) sample_server)"
    by (rule arrival_does_not_matter [OF ok c1(1) o R ok']) (simp add: f p)
  moreover have "length ?rest = 4" by (simp add: ascii_def)
  ultimately show ?thesis using c1(1) by (intro exI [of _ c1]) simp
qed

section \<open>Turns\<close>

text \<open>Some command of the connection is refused memory, and those before it are answered.\<close>

definition meets_refusal :: "DispatchEnv \<Rightarrow> Conn \<Rightarrow> Server \<Rightarrow> bool" where
  "meets_refusal v c s \<longleftrightarrow> (\<exists>n. returns (serve v n (abs_conn c) s) (refused v (abs_conn c)))"

lemma execute_spec:
  assumes "serving v m s" "input_ok c"
  shows "meets_refusal v c s \<or> returns (execute v c s) (\<lambda>(exited, c', s'). input_ok c' \<and> co_sent c' = co_sent c \<and>
    served v (abs_conn c) (exited, abs_conn c', s'))"
proof -
  consider "meets_refusal v c s" | (answers) "returns (serve_all v (abs_conn c) s) (served v (abs_conn c))"
    using serve_spec [OF assms(1), of "abs_conn c" "length (pending c)"] by (auto simp: meets_refusal_def serve_all_def)
  then show ?thesis
  proof cases
    case answers
    then obtain x S' s' where "serve_all v (abs_conn c) s = Some (x, S', s')" "served v (abs_conn c) (x, S', s')" by (auto elim!: returnsE)
    then show ?thesis using execute_serve [OF assms(2), of v s] by auto
  qed simp
qed

text \<open>
  C3: The commands a client has pipelined are answered one reply each, in order. On a server in order the
  loop returns; it has taken whole commands off the front of the waiting bytes and appended, in their
  order, exactly one well-formed reply for each that is not empty. If it did not end the process it
  leaves the server in order, and it stopped for one of four reasons: the connection is closing;
  the replies have reached their ceiling; what is left over is not a whole command yet; or what
  is left over is no command at all, which one more reply says and the connection closes. If it
  ended the process, the command at the front of what is left over is \<^verbatim>\<open>SHUTDOWN\<close>. The only other
  way is that one of the commands of this pipeline was refused memory, its reply says so, and every
  command before it has its reply.
\<close>

theorem pipeline_answered:
  assumes "serving v m s" "input_ok c"
  shows "(\<exists>n. returns (serve v n (abs_conn c) s) (\<lambda>(exited, S, s'). \<not> exited \<and>
      (\<exists>rs d m'. limping v m' s' \<and> answers_for (pending c) (rs @ [(d, OOM)]) (st_in S) \<and> st_out S = co_out c @ replies rs @ encode d OOM))) \<or>
    returns (execute v c s) (\<lambda>(exited, c', s'). input_ok c' \<and> (\<exists>rs. answers_for (pending c) rs (pending c') \<and>
      (if exited then co_out c' = co_out c @ replies rs \<and> shuts_down (pending c')
       else (\<exists>m'. serving v m' s') \<and>
         (co_out c' = co_out c @ replies rs \<and>
            (co_closing c' \<or> MAX_REPLY \<le> length (co_out c') \<or> (\<exists>cmd. parse (pending c') command_new = Some (Inr More, cmd))) \<or>
          (\<exists>bad cmd. parse (pending c') command_new = Some (Inl bad, cmd) \<and> co_closing c' \<and>
             co_out c' = co_out c @ replies rs @ encode (co_dialect c') (VError (ascii (''ERR '' @ message bad))))))))"
  using execute_spec [OF assms]
proof (elim disjE)
  assume "meets_refusal v c s"
  then show ?thesis unfolding meets_refusal_def refused_def abs_conn_simps by (rule disjI1)
next
  assume "returns (execute v c s) (\<lambda>(exited, c', s'). input_ok c' \<and> co_sent c' = co_sent c \<and> served v (abs_conn c) (exited, abs_conn c', s'))"
  then show ?thesis
    by (intro disjI2) (erule returns_mono, simp only: split_paired_all prod.case served_def starved_def abs_conn_simps simp_thms)
qed

theorem pipeline_answered_witness:
  "(\<exists>n. returns (serve sample_env n (abs_conn (fed (ascii ''PING'' @ [CR, NL]))) sample_server) (\<lambda>(exited, S, s'). \<not> exited \<and>
      (\<exists>rs d m'. limping sample_env m' s' \<and> answers_for (pending (fed (ascii ''PING'' @ [CR, NL]))) (rs @ [(d, OOM)]) (st_in S) \<and>
         st_out S = co_out (fed (ascii ''PING'' @ [CR, NL])) @ replies rs @ encode d OOM))) \<or>
   returns (execute sample_env (fed (ascii ''PING'' @ [CR, NL])) sample_server) (\<lambda>(exited, c', s'). input_ok c' \<and>
     (\<exists>rs. answers_for (pending (fed (ascii ''PING'' @ [CR, NL]))) rs (pending c') \<and>
      (if exited then co_out c' = co_out (fed (ascii ''PING'' @ [CR, NL])) @ replies rs \<and> shuts_down (pending c')
       else (\<exists>m'. serving sample_env m' s') \<and>
         (co_out c' = co_out (fed (ascii ''PING'' @ [CR, NL])) @ replies rs \<and>
            (co_closing c' \<or> MAX_REPLY \<le> length (co_out c') \<or> (\<exists>cmd. parse (pending c') command_new = Some (Inr More, cmd))) \<or>
          (\<exists>bad cmd. parse (pending c') command_new = Some (Inl bad, cmd) \<and> co_closing c' \<and>
             co_out c' = co_out (fed (ascii ''PING'' @ [CR, NL])) @ replies rs @ encode (co_dialect c') (VError (ascii (''ERR '' @ message bad))))))))"
  by (rule pipeline_answered [OF sample_serving], rule input_ok_fed) (simp add: ascii_def CHUNK_def)

lemma conn_okI: "input_ok c \<Longrightarrow> co_sent c \<le> length (co_out c) \<Longrightarrow> conn_ok c"
  by (simp add: conn_ok_def)

lemma served_length: "served v S (False, S', s') \<Longrightarrow> length (st_out S) \<le> length (st_out S') \<and> (\<exists>m. serving v m s')"
  by (auto simp: served_def)

lemma turn_tail:
  assumes "returns m (\<lambda>(goes_on, exited, c, s). Q c s \<or> exited)"
  shows "returns (do {
       (goes_on, exited, c, s) \<leftarrow> m;
       if exited then Some (None, c, s)
       else if \<not> goes_on then Some (Some TurnClose, c, s)
       else if co_sent c < length (co_out c) then Some (Some TurnWrite, c, s)
       else if co_closing c then Some (Some TurnClose, c, s)
       else Some (Some TurnRead, c, s) }) (\<lambda>(r, c', s'). r = None \<or> Q c' s')"
  using assms by (auto elim!: returnsE)

text \<open>
  The connection as a turn has it when it comes to run commands: what it could write is written and
  what it could read is read. A turn that does not get there runs none.
\<close>

definition reaches :: "bool \<Rightarrow> bool \<Rightarrow> ReadResult list \<Rightarrow> WriteResult list \<Rightarrow> Conn \<Rightarrow> Conn \<Rightarrow> bool" where
  "reaches readable writable reads writes c c2 \<longleftrightarrow> readable \<and>
     (\<exists>ws c1. (if writable then conn_flush writes c else Some (True, writes, c)) = Some (True, ws, c1) \<and> fill reads c1 = Some (True, c2))"

lemma turn_spec:
  assumes "serving v m s" "conn_ok c"
  shows "(\<exists>c2. reaches readable writable reads writes c c2 \<and> meets_refusal v c2 s) \<or>
    returns (turn v readable writable reads writes c s) (\<lambda>(r, c', s'). r = None \<or> (conn_ok c' \<and> (\<exists>m'. serving v m' s')))"
proof -
  obtain ok ws c1 where c1: "(if writable then conn_flush writes c else Some (True, writes, c)) = Some (ok, ws, c1)" "conn_ok c1"
    using conn_flush_spec [of c writes] assms(2) wrote_some_ok by (cases writable) (auto simp: conn_ok_def elim!: returnsE)
  obtain there c2 where c2: "fill reads c1 = Some (there, c2)" "input_ok c2" "same_rest c1 c2"
    using fill_spec [of c1 reads] c1(2) by (auto simp: conn_ok_def elim!: returnsE)
  have c2ok: "conn_ok c2" using c1(2) c2 by (simp add: conn_ok_def same_rest_def)
  consider (runs) "readable" "ok" "there" "meets_refusal v c2 s"
    | (rests) "\<not> (readable \<and> ok \<and> there)"
    | (answers) exited c3 s3 where "execute v c2 s = Some (exited, c3, s3)" "input_ok c3" "co_sent c3 = co_sent c2"
        "served v (abs_conn c2) (exited, abs_conn c3, s3)"
    using execute_spec [OF assms(1) c2(2)] by (auto elim!: returnsE)
  then show ?thesis
  proof cases
    case runs
    then have "reaches readable writable reads writes c c2" using c1(1) c2(1) by (auto simp: reaches_def)
    then show ?thesis using runs(4) by blast
  next
    case rests
    then show ?thesis using c1 c2(1) c2ok assms(1) by (cases ok) (auto simp: turn_def)
  next
    case answers
    have c3: "conn_ok c3 \<and> (\<exists>m'. serving v m' s3)" if "\<not> exited"
      using that answers(2-4) served_length [of v "abs_conn c2" "abs_conn c3" s3] c2ok by (auto simp: conn_ok_def)
    have last: "returns (conn_flush ws c3) (\<lambda>(ok, ws', c4). conn_ok c4)" if "\<not> exited"
      using conn_flush_spec [of c3 ws] c3 [OF that] wrote_some_ok by (fastforce simp: conn_ok_def elim!: returns_mono)
    let ?m = "if readable then do {
           (there, c) \<leftarrow> fill reads c1;
           if \<not> there then Some (False, False, c, s)
           else do {
             (exited, c, s) \<leftarrow> execute v c s;
             if exited then Some (True, True, c, s)
             else do {
               (ok, writes, c) \<leftarrow> conn_flush ws c;
               Some (ok, False, c, s) } } }
         else Some (True, False, c1, s)"
    have "returns ?m (\<lambda>(goes_on, exited, c, s'). (conn_ok c \<and> (\<exists>m'. serving v m' s')) \<or> exited)"
      using c1(2) c2(1) c2ok answers(1) assms(1) c3 last by (cases exited) (auto elim!: returnsE)
    note tail = turn_tail [OF this]
    have "returns (turn v readable writable reads writes c s) (\<lambda>(r, c', s'). r = None \<or> (conn_ok c' \<and> (\<exists>m'. serving v m' s')))" if ok
      unfolding turn_def c1(1) Option.bind.bind_lunit prod.case using that by (simp only: not_True_eq_False if_False) (rule tail)
    moreover have "turn v readable writable reads writes c s = Some (Some TurnClose, c1, s)" if "\<not> ok"
      using that unfolding turn_def c1(1) Option.bind.bind_lunit prod.case by simp
    ultimately show ?thesis using c1(2) assms(1) by (cases ok) auto
  qed
qed

text \<open>
  C20: A turn of the readiness loop returns whatever the socket does, with the buffers of the connection and
  the server in order, unless \<^verbatim>\<open>SHUTDOWN\<close> ended the process. The one exception is a turn that comes to
  run commands and has one of its own refused memory: the socket was readable, what was owed was
  written as far as the turn tried, the read succeeded, and one of the commands then waiting on this
  very connection answers that memory is out.
\<close>

theorem turn_returns:
  assumes "serving v m s" "conn_ok c"
  shows "(\<exists>ws c1 c2 n. readable \<and> (if writable then conn_flush writes c else Some (True, writes, c)) = Some (True, ws, c1) \<and>
      fill reads c1 = Some (True, c2) \<and> returns (serve v n (abs_conn c2) s) (\<lambda>(exited, S, s'). \<not> exited \<and>
        (\<exists>rs d m'. limping v m' s' \<and> answers_for (pending c2) (rs @ [(d, OOM)]) (st_in S) \<and> st_out S = co_out c2 @ replies rs @ encode d OOM))) \<or>
    returns (turn v readable writable reads writes c s) (\<lambda>(r, c', s'). r = None \<or> (conn_ok c' \<and> (\<exists>m'. serving v m' s')))"
  using turn_spec [OF assms, of readable writable reads writes]
  unfolding meets_refusal_def reaches_def refused_def abs_conn_simps by blast

theorem turn_returns_witness:
  "(\<exists>ws c1 c2 n. True \<and> (if True then conn_flush [WriteBlocks] conn_new else Some (True, [WriteBlocks], conn_new)) = Some (True, ws, c1) \<and>
      fill [ReadInterrupted, Arrives (ascii ''PING'')] c1 = Some (True, c2) \<and> returns (serve sample_env n (abs_conn c2) sample_server)
        (\<lambda>(exited, S, s'). \<not> exited \<and> (\<exists>rs d m'. limping sample_env m' s' \<and> answers_for (pending c2) (rs @ [(d, OOM)]) (st_in S) \<and>
           st_out S = co_out c2 @ replies rs @ encode d OOM))) \<or>
   returns (turn sample_env True True [ReadInterrupted, Arrives (ascii ''PING'')] [WriteBlocks] conn_new sample_server)
     (\<lambda>(r, c', s'). r = None \<or> (conn_ok c' \<and> (\<exists>m'. serving sample_env m' s')))"
  by (rule turn_returns [OF sample_serving]) (simp add: conn_ok_def input_ok_new, simp add: conn_new_def)

section \<open>Whole commands left waiting\<close>

lemma serve_starved:
  "serve v n S s = Some (False, S', s') \<Longrightarrow> length (st_in S) \<le> n \<Longrightarrow> \<not> st_closing S' \<Longrightarrow> length (st_out S') < MAX_REPLY \<Longrightarrow>
   \<exists>cmd. parse (st_in S') command_new = Some (Inr More, cmd)"
proof (induction n arbitrary: S s)
  case (Suc n)
  obtain w S1 s1 where p: "pass v S s = Some (w, S1, s1)" using Suc.prems(1) by (auto simp: bind_eq_Some_conv)
  show ?case
  proof (cases w)
    case Stopped
    then have "S1 = S'" "s1 = s'" using Suc.prems(1) p by simp_all
    with p Stopped Suc.prems(3,4) show ?thesis by (cases rule: pass_cases) auto
  next
    case Ended
    then show ?thesis using Suc.prems(1) p by simp
  next
    case Onward
    then show ?thesis using Suc.IH [of S1 s1] Suc.prems p pass_shorter [of v S s S1 s1] by simp
  qed
qed auto

text \<open>
  C23: A step of the completion loop asks the ring to read only when it has nothing to run: no reply is owed,
  no whole command is waiting, and there is room for at least the spare bytes where it points.
\<close>

theorem step_reads_only_when_starved:
  assumes "input_ok c" "step v c s = Some (Some (Recv at free), c', s')"
  shows "co_out c' = [] \<and> (\<exists>cmd. parse (pending c') command_new = Some (Inr More, cmd)) \<and>
    at = co_filled c' \<and> at + free = length (co_buf c') \<and> SPARE \<le> free"
proof -
  let ?c = "c\<lparr> co_out := [], co_sent := 0 \<rparr>"
  have no: "\<not> owes c" using assms(2) step_owes [of c v s] by auto
  have ok: "input_ok ?c" using assms(1) by (simp add: input_ok_def)
  obtain c1 s1 where c1: "(if co_at ?c < co_filled ?c then execute v ?c s else Some (False, ?c, s)) = Some (False, c1, s1)"
      "co_out c1 = []" "\<not> co_closing c1" "make_room c1 = Some (True, c')" "at = co_filled c'" "usub (length (co_buf c')) (co_filled c') = Some free"
    using assms(2) unfolding step_eq [OF no] Let_def by (auto simp: bind_eq_Some_conv split: if_splits)
  have starved: "input_ok c1 \<and> (\<exists>cmd. parse (pending c1) command_new = Some (Inr More, cmd))"
  proof (cases "co_at ?c < co_filled ?c")
    case True
    then have e: "execute v ?c s = Some (False, c1, s1)" using c1(1) by simp
    then have "serve v (length (st_in (abs_conn ?c))) (abs_conn ?c) s = Some (False, abs_conn c1, s1)"
      using execute_abs [OF ok, of v s] by (simp add: serve_all_def)
    from serve_starved [OF this] show ?thesis using e c1(2,3) execute_input_ok [OF ok] by (auto simp: MAX_REPLY_def)
  next
    case False
    then have "c1 = ?c" "pending ?c = []" using c1(1) by (auto simp: pending_def)
    then show ?thesis using ok by simp
  qed
  have "pending c' = pending c1 \<and> same_rest c1 c' \<and> SPARE \<le> length (co_buf c') - co_filled c'"
    using make_room_spec [of c1] starved c1(4) by simp
  then show ?thesis using starved c1(2,5,6) by (auto simp: same_rest_def usub_def split: if_splits)
qed

theorem step_reads_only_when_starved_witness:
  "\<exists>at free c'. step sample_env conn_new sample_server = Some (Some (Recv at free), c', sample_server) \<and>
    co_out c' = [] \<and> (\<exists>cmd. parse (pending c') command_new = Some (Inr More, cmd)) \<and>
    at = co_filled c' \<and> at + free = length (co_buf c') \<and> SPARE \<le> free"
proof -
  have "\<not> owes conn_new" by (simp add: owes_def conn_new_def)
  then have s: "step sample_env conn_new sample_server = Some (Some (Recv 0 CHUNK), conn_new, sample_server)"
    unfolding step_eq [OF \<open>\<not> owes conn_new\<close>] Let_def by (simp add: conn_new_def make_room_def usub_def SPARE_def CHUNK_def)
  show ?thesis by (rule exI, rule exI, rule exI, rule conjI [OF s step_reads_only_when_starved [OF input_ok_new s]])
qed

text \<open>The loop is at a stop where a pass stops, and passes add up.\<close>

lemma serve_stopped: "pass v S s = Some (Stopped, S, s) \<Longrightarrow> serve v n S s = Some (False, S, s)"
  by (cases n) simp_all

lemma pass_stopped_again: "pass v S s = Some (Stopped, S', s') \<Longrightarrow> pass v S' s' = Some (Stopped, S', s')"
  by (cases rule: pass_cases) (auto simp: pass_def)

lemma serve_add:
  "serve v n S s = Some (False, S1, s1) \<Longrightarrow> serve v (n + k) S s = serve v k S1 s1"
proof (induction n arbitrary: S s)
  case (Suc n)
  obtain w S2 s2 where p: "pass v S s = Some (w, S2, s2)" using Suc.prems by (auto simp: bind_eq_Some_conv)
  show ?case using Suc.prems Suc.IH [of S2 s2] p serve_stopped [OF pass_stopped_again [of v S s S1 s1], of k] by (cases w) auto
qed simp

lemma serve_onward: "pass v S s = Some (Onward, S', s') \<Longrightarrow> serve v (Suc n) S s = serve v n S' s'"
  by simp

text \<open>A stream of one request over and over, each of which the server answers the same way.\<close>

lemma serve_repeated:
  assumes answer: "\<And>S s rest. I s \<Longrightarrow> \<not> st_closing S \<Longrightarrow> length (st_out S) < MAX_REPLY \<Longrightarrow> st_in S = req @ rest \<Longrightarrow>
      \<exists>s'. I s' \<and> pass v S s = Some (Onward, S\<lparr> st_in := rest, st_out := st_out S @ rep \<rparr>, s')"
    and "I s" "\<not> st_closing S" "st_in S = concat (replicate n req) @ rest"
    and "\<And>i. i < n \<Longrightarrow> length (st_out S) + i * length rep < MAX_REPLY"
  shows "\<exists>s'. I s' \<and> serve v (n + k) S s = serve v k (S\<lparr> st_in := rest, st_out := st_out S @ concat (replicate n rep) \<rparr>) s'"
  using assms(2-)
proof (induction n arbitrary: S s)
  case 0
  then show ?case by (intro exI [of _ s]) (cases S, simp)
next
  case (Suc n)
  have front: "st_in S = req @ concat (replicate n req) @ rest" using Suc.prems(3) by simp
  have "length (st_out S) < MAX_REPLY" using Suc.prems(4) [of 0] by simp
  from answer [OF Suc.prems(1,2) this front] obtain s1 where s1: "I s1"
      "pass v S s = Some (Onward, S\<lparr> st_in := concat (replicate n req) @ rest, st_out := st_out S @ rep \<rparr>, s1)" by blast
  have "length (st_out S @ rep) + i * length rep < MAX_REPLY" if "i < n" for i
    using Suc.prems(4) [of "Suc i"] that by simp
  with Suc.IH [OF s1(1), of "S\<lparr> st_in := concat (replicate n req) @ rest, st_out := st_out S @ rep \<rparr>"] Suc.prems(2)
  obtain s' where s': "I s'" "serve v (n + k) (S\<lparr> st_in := concat (replicate n req) @ rest, st_out := st_out S @ rep \<rparr>) s1 =
      serve v k (S\<lparr> st_in := rest, st_out := st_out S @ rep @ concat (replicate n rep) \<rparr>) s'" by auto
  have "serve v (Suc n + k) S s = serve v (n + k) (S\<lparr> st_in := concat (replicate n req) @ rest, st_out := st_out S @ rep \<rparr>) s1"
    unfolding add_Suc by (rule serve_onward [OF s1(2)])
  then show ?case using s' by (intro exI [of _ s']) simp
qed

definition get_k :: bytes where
  "get_k = ascii ''GET k'' @ [CR, NL]"

lemma get_k_parses:
  "\<exists>cmd. parse (get_k @ rest) command_new = Some (Inr (Done 7), cmd) \<and> \<not> command_is_empty cmd \<and> asks cmd get_k ''GET'' [ascii ''k'']"
proof -
  let ?cmd = "\<lparr> args = [\<lparr> span_at = 0, span_len = 3 \<rparr>, \<lparr> span_at = 4, span_len = 1 \<rparr>] \<rparr>"
  have "parse get_k command_new = Some (Inr (Done 7), ?cmd)"
    by (simp add: get_k_def ascii_def parse_evals inline_loop.simps word_end.simps)
  from parse_extend [OF this] have "parse (get_k @ rest) command_new = Some (Inr (Done 7), ?cmd)" by blast
  moreover have "asks ?cmd get_k ''GET'' [ascii ''k'']"
    unfolding asks_def
    by (rule exI [of _ "ascii ''GET''"])
       (simp add: command_args_def command_len_def arg_def idx_def slice_def get_k_def ascii_def to_ascii_uppercase_def MAX_NAME_def Let_def upt_rec)
  moreover have "\<not> command_is_empty ?cmd" by (simp add: command_is_empty_def command_len_def)
  ultimately show ?thesis by blast
qed

lemma get_k_answer:
  assumes "serving v [ascii ''k'' \<mapsto> (val, None, None)] s" "\<not> st_closing S" "length (st_out S) < MAX_REPLY" "st_in S = get_k @ rest"
  shows "\<exists>s'. serving v [ascii ''k'' \<mapsto> (val, None, None)] s' \<and>
    pass v S s = Some (Onward, S\<lparr> st_in := rest, st_out := st_out S @ encode Resp2 (VBulk val) \<rparr>, s')"
proof -
  let ?m = "[ascii ''k'' \<mapsto> (val, None, None)] :: cache" and ?s = "s\<lparr> sv_reply := encoder_new (st_out S) (st_dialect S) \<rparr>"
  obtain cmd where cmd: "parse (st_in S) command_new = Some (Inr (Done 7), cmd)" "\<not> command_is_empty cmd" "asks cmd get_k ''GET'' [ascii ''k'']"
    using get_k_parses assms(4) by auto
  have len: "length get_k = 7" by (simp add: get_k_def ascii_def)
  have live: "purge now (ascii ''k'') ?m = ?m" for now by (simp add: purge_def expired_def)
  have "serving v ?m ?s" using assms(1) by simp
  from run_get [OF this cmd(3), of "st_dialect S"] obtain s' where
    r: "run v cmd get_k (st_dialect S) ?s = Some (Replied MoreToCome, st_dialect S, s')"
      "answered v (begun v (st_dialect S) ?s) (VBulk val) ?m s'"
    by (auto simp: live value_of_def elim!: returnsE)
  have "out (sv_reply s') = st_out S @ encode Resp2 (VBulk val)" "serving v ?m s'"
    using answered_seen [OF r(2)] by (simp_all add: encoder_new_def)
  then show ?thesis
    using cmd(1,2) r(1) assms(2-4) len by (intro exI [of _ s']) (cases S, simp add: pass_def buffer_def)
qed

lemma length_repeated [simp]: "length (concat (replicate n xs)) = n * length xs"
  by (induction n) simp_all

lemma flush_takes_all:
  assumes "co_sent c = 0" "co_out c \<noteq> []" "length (co_out c) \<le> room"
  shows "conn_flush [Took room] c = Some (True, [], c\<lparr> co_out := [], co_sent := 0 \<rparr>)"
proof -
  have "flush_loop [Took room] c = flush_loop [] (c\<lparr> co_sent := length (co_out c) \<rparr>)"
    using assms by (subst flush_loop.simps) (simp add: min_def)
  also have "\<dots> = Some (True, [], c\<lparr> co_sent := length (co_out c) \<rparr>)" by (subst flush_loop.simps) simp
  finally show ?thesis by (simp add: conn_flush_def)
qed

lemma fill_fresh:
  assumes "bs \<noteq> []" "length bs \<le> SPARE"
  shows "\<exists>c. fill [Arrives bs] conn_new = Some (True, c) \<and> input_ok c \<and> pending c = bs \<and> same_rest conn_new c"
proof -
  have new: "pending conn_new = []" "\<not> MAX_REQUEST < length (pending conn_new) + SPARE"
    by (simp_all add: pending_def conn_new_def MAX_REQUEST_def SPARE_def)
  have "0 < SPARE" by (simp add: SPARE_def)
  then have all: "delivered free [Arrives bs] = Some bs" if "SPARE \<le> free" for free using that assms by auto
  obtain there c free where c: "fill [Arrives bs] conn_new = Some (there, c)" "input_ok c" "same_rest conn_new c" "SPARE \<le> free"
      "case delivered free [Arrives bs] of None \<Rightarrow> \<not> there \<and> pending c = pending conn_new
       | Some got \<Rightarrow> if there then pending c = pending conn_new @ got
           else MAX_REQUEST < length (pending conn_new) + SPARE \<and> pending c = pending conn_new"
    using fill_spec [OF input_ok_new, of "[Arrives bs]"] by (auto elim!: returnsE simp del: delivered.simps)
  then show ?thesis using new unfolding all [OF c(4)] by (cases there) auto
qed

lemma pipeline_over_ceiling:
  assumes "serving v [ascii ''k'' \<mapsto> (val, None, None)] s" "2000 \<le> length val"
  shows "\<exists>n s' out. n \<le> 525 \<and> MAX_REPLY \<le> length out \<and>
    serve_all v \<lparr> st_in = concat (replicate n get_k) @ get_k, st_out = [], st_dialect = Resp2, st_closing = False \<rparr> s =
      Some (False, \<lparr> st_in = get_k, st_out = out, st_dialect = Resp2, st_closing = False \<rparr>, s')"
proof -
  let ?rep = "encode Resp2 (VBulk val)" and ?I = "serving v [ascii ''k'' \<mapsto> (val, None, None)]"
  define n where "n = (MAX_REPLY - 1) div length ?rep + 1"
  let ?out = "concat (replicate n ?rep)"
  let ?S = "\<lparr> st_in = concat (replicate n get_k) @ get_k, st_out = [], st_dialect = Resp2, st_closing = False \<rparr>"
  have rep: "2000 \<le> length ?rep" using assms(2) by simp
  have "(MAX_REPLY - 1) div length ?rep \<le> (MAX_REPLY - 1) div 2000" by (rule div_le_mono2) (use rep in simp_all)
  then have n: "n \<le> 525" unfolding n_def by (simp add: MAX_REPLY_def del: encode.simps)
  have under: "i * length ?rep < MAX_REPLY" if "i < n" for i
  proof -
    have "i * length ?rep \<le> (MAX_REPLY - 1) div length ?rep * length ?rep" using that unfolding n_def by (intro mult_right_mono) simp_all
    also have "\<dots> \<le> MAX_REPLY - 1" by (rule div_times_less_eq_dividend)
    finally show ?thesis by (simp add: MAX_REPLY_def del: encode.simps)
  qed
  have over: "MAX_REPLY \<le> length ?out"
  proof -
    have "0 < length ?rep" using rep by linarith
    from dividend_less_div_times [OF this, of "MAX_REPLY - 1"] show ?thesis
      unfolding n_def length_repeated by (simp add: MAX_REPLY_def del: encode.simps)
  qed
  have len: "length (st_in ?S) = n + (6 * n + 7)" by (simp add: get_k_def ascii_def)
  obtain s' where s': "serve v (n + (6 * n + 7)) ?S s = serve v (6 * n + 7) (?S\<lparr> st_in := get_k, st_out := st_out ?S @ ?out \<rparr>) s'"
    using serve_repeated [where I = ?I and req = get_k and rep = ?rep and S = ?S and n = n and rest = get_k and k = "6 * n + 7" and s = s and v = v]
      get_k_answer assms(1) under by (auto simp del: encode.simps)
  have "serve v (6 * n + 7) (?S\<lparr> st_in := get_k, st_out := st_out ?S @ ?out \<rparr>) s' = Some (False, ?S\<lparr> st_in := get_k, st_out := st_out ?S @ ?out \<rparr>, s')"
    by (rule serve_stopped) (use over in \<open>simp add: pass_def del: encode.simps length_repeated\<close>)
  then have "serve_all v ?S s = Some (False, \<lparr> st_in = get_k, st_out = ?out, st_dialect = Resp2, st_closing = False \<rparr>, s')"
    using s' unfolding serve_all_def len by (simp del: encode.simps)
  then show ?thesis using n over by (intro exI [of _ n] exI [of _ s'] exI [of _ ?out] conjI)
qed

text \<open>
  C24: A turn of the readiness loop can go back to waiting for bytes with a whole command still unanswered in
  its buffer and nothing left to send. It takes one read of pipelined reads of a two-kilobyte value:
  the loop stops at the ceiling on replies, the socket takes all of them at once, and the turn
  answers \<^verbatim>\<open>Read\<close> although the client has nothing more to say.
\<close>

theorem turn_leaves_a_command_waiting:
  "\<exists>s stream room c' s'. turn sample_env True False [Arrives stream] [Took room] conn_new s = Some (Some TurnRead, c', s') \<and>
     serving sample_env [ascii ''k'' \<mapsto> (replicate 2000 65, None, None)] s \<and> length stream \<le> SPARE \<and> co_out c' = [] \<and>
     (\<exists>cmd used. parse (pending c') command_new = Some (Inr (Done used), cmd) \<and> asks cmd (pending c') ''GET'' [ascii ''k''])"
proof -
  obtain s where s: "serving sample_env [ascii ''k'' \<mapsto> (replicate 2000 65, None, None)] s"
    using sample_entry [of "ascii ''k''" "replicate 2000 65" None None] by (auto simp: size_of_entry_def klen_len_def varint_len_def ascii_def SMALL_MAX_def)
  obtain n s' out where n: "n \<le> 525" "MAX_REPLY \<le> length out"
    "serve_all sample_env \<lparr> st_in = concat (replicate n get_k) @ get_k, st_out = [], st_dialect = Resp2, st_closing = False \<rparr> s =
      Some (False, \<lparr> st_in = get_k, st_out = out, st_dialect = Resp2, st_closing = False \<rparr>, s')"
    using pipeline_over_ceiling [OF s] by auto
  let ?stream = "concat (replicate n get_k) @ get_k"
  have st: "?stream \<noteq> []" "length ?stream \<le> SPARE" using n(1) by (simp_all add: get_k_def ascii_def SPARE_def)
  obtain c1 where c1: "fill [Arrives ?stream] conn_new = Some (True, c1)" "input_ok c1" "pending c1 = ?stream" "same_rest conn_new c1"
    using fill_fresh [OF st] by blast
  have "abs_conn c1 = \<lparr> st_in = ?stream, st_out = [], st_dialect = Resp2, st_closing = False \<rparr>"
    using c1(3,4) by (simp add: abs_conn_def same_rest_def conn_new_def)
  then obtain c2 where c2: "execute sample_env c1 s = Some (False, c2, s')"
      "abs_conn c2 = \<lparr> st_in = get_k, st_out = out, st_dialect = Resp2, st_closing = False \<rparr>" "co_sent c2 = 0"
    using execute_serve [OF c1(2), of sample_env s] n(3) c1(4) by (auto simp: same_rest_def conn_new_def)
  have c2': "co_out c2 = out" "pending c2 = get_k" "\<not> co_closing c2"
    using arg_cong [OF c2(2), of st_out] arg_cong [OF c2(2), of st_in] arg_cong [OF c2(2), of st_closing] by simp_all
  let ?c = "c2\<lparr> co_out := [], co_sent := 0 \<rparr>"
  have "out \<noteq> []" using n(2) by (auto simp: MAX_REPLY_def)
  then have f: "conn_flush [Took (length out)] c2 = Some (True, [], ?c)" using flush_takes_all c2(3) c2'(1) by simp
  have "turn sample_env True False [Arrives ?stream] [Took (length out)] conn_new s = Some (Some TurnRead, ?c, s')"
    using c1(1) c2(1) f c2'(3) by (simp add: turn_def)
  moreover have "pending ?c = get_k" using c2'(2) by (simp add: pending_def)
  ultimately show ?thesis using s st(2) get_k_parses [of "[]"]
    by (intro exI [of _ s] exI [of _ ?stream] exI [of _ "length out"] exI [of _ ?c] exI [of _ s']) auto
qed

section \<open>From the wire to the wire\<close>

text \<open>A request at the front of the stream, run on its own bytes.\<close>

lemma pass_request:
  assumes "length xs \<le> MAX_ARGS" "\<forall>x\<in>set xs. length x \<le> MAX_BULK" "length (request_bytes xs) < 2 ^ 32" "xs \<noteq> []"
    and "st_in S = request_bytes xs @ rest" "\<not> st_closing S" "length (st_out S) < MAX_REPLY"
  shows "\<exists>cmd. command_args cmd (request_bytes xs) = map Some xs \<and>
    pass v S s = do {
      (outcome, d, s) \<leftarrow> run v cmd (request_bytes xs) (st_dialect S) (s\<lparr> sv_reply := encoder_new (st_out S) (st_dialect S) \<rparr>);
      let S = S\<lparr> st_out := buffer (sv_reply s), st_dialect := d, st_closing := (outcome = Replied Last) \<rparr>;
      if outcome = Exited then Some (Ended, S, s) else Some (Onward, S\<lparr> st_in := rest \<rparr>, s) }"
proof -
  obtain cmd where cmd: "parse (request_bytes xs) command_new = Some (Inr (Done (length (request_bytes xs))), cmd)" "command_args cmd (request_bytes xs) = map Some xs"
    using parse_request [OF assms(1,2), of "[]" command_new] assms(3) by auto
  have "parse (st_in S) command_new = Some (Inr (Done (length (request_bytes xs))), cmd)" using parse_extend [OF cmd(1)] assms(5) by simp
  moreover have "\<not> command_is_empty cmd"
    using arg_cong [OF cmd(2), of length] assms(4) by (auto simp: command_args_def command_is_empty_def command_len_def)
  ultimately show ?thesis using cmd(2) assms(5-7) by (intro exI [of _ cmd]) (auto simp: pass_def Let_def intro!: bind_triple)
qed

lemma request_asks:
  "command_args cmd buf = map Some (raw # xs) \<Longrightarrow> map to_ascii_uppercase raw = ascii name \<Longrightarrow> length name \<le> MAX_NAME \<Longrightarrow> asks cmd buf name xs"
  by (auto simp: asks_def)

lemma length_bulks: "x \<in> set xs \<Longrightarrow> length x \<le> length (concat (map bulk_bytes xs))"
  by (induction xs) (auto simp: bulk_bytes_def)

lemma length_request: "x \<in> set xs \<Longrightarrow> length x \<le> length (request_bytes xs)"
  using length_bulks [of x xs] by (simp add: request_bytes_def)

lemma request_bounds:
  assumes "length (request_bytes xs) \<le> MAX_REQUEST"
  shows "\<forall>x\<in>set xs. length x \<le> MAX_BULK" "length (request_bytes xs) < 2 ^ 32"
  using assms length_request [of _ xs] by (force simp: MAX_REQUEST_def MAX_BULK_def)+

lemma set_get_served:
  assumes "serving v m s" "\<not> st_closing S" "length (st_out S) + 5 < MAX_REPLY"
    and "st_in S = request_bytes [ascii ''SET'', key, val] @ request_bytes [ascii ''GET'', key]" "length (st_in S) \<le> MAX_REQUEST"
  shows "returns (serve v 1 S s) (\<lambda>(exited, S', s'). \<not> exited \<and> st_out S' = st_out S @ encode (st_dialect S) OOM \<and> limping v m s') \<or>
    returns (serve v 2 S s) (\<lambda>(exited, S', s'). \<not> exited \<and> st_in S' = [] \<and> \<not> st_closing S' \<and>
      st_out S' = st_out S @ encode (st_dialect S) OK @ encode (st_dialect S) (VBulk val))"
proof -
  let ?d = "st_dialect S" and ?set = "[ascii ''SET'', key, val]" and ?get = "[ascii ''GET'', key]"
  have small: "length (request_bytes ?set) \<le> MAX_REQUEST" "length (request_bytes ?get) \<le> MAX_REQUEST" using assms(4,5) by simp_all
  note B = request_bounds [OF small(1)] and B' = request_bounds [OF small(2)]
  have few: "length ?set \<le> MAX_ARGS" "length ?get \<le> MAX_ARGS" by (simp_all add: MAX_ARGS_def)
  let ?s = "s\<lparr> sv_reply := encoder_new (st_out S) ?d \<rparr>"
  have under: "length (st_out S) < MAX_REPLY" using assms(3) by simp
  obtain cmd where cmd: "command_args cmd (request_bytes ?set) = map Some ?set"
    and p: "pass v S s = do {
      (outcome, d, s) \<leftarrow> run v cmd (request_bytes ?set) ?d ?s;
      let S = S\<lparr> st_out := buffer (sv_reply s), st_dialect := d, st_closing := (outcome = Replied Last) \<rparr>;
      if outcome = Exited then Some (Ended, S, s) else Some (Onward, S\<lparr> st_in := request_bytes ?get \<rparr>, s) }"
    using pass_request [OF few(1) B(1,2) _ assms(4,2) under, where v = v and s = s] by auto
  have set: "asks cmd (request_bytes ?set) ''SET'' [key, val]"
    by (rule request_asks [OF cmd]) (simp_all add: ascii_def to_ascii_uppercase_def MAX_NAME_def)
  have sv: "serving v m ?s" using assms(1) by simp
  obtain s1 where s1: "run v cmd (request_bytes ?set) ?d ?s = Some (Replied MoreToCome, ?d, s1)"
    "(\<exists>m'. after_write (sv_map ?s) key (m(key \<mapsto> (val, None, None))) m' \<and> answered v (begun v ?d ?s) OK m' s1) \<or> out_of_memory v (begun v ?d ?s) m s1"
    using run_plain_set [OF sv set, of ?d] by (auto elim!: returnsE)
  let ?S1 = "S\<lparr> st_out := buffer (sv_reply s1), st_closing := False, st_in := request_bytes ?get \<rparr>"
  have p1: "pass v S s = Some (Onward, ?S1, s1)" unfolding p s1(1) by (cases S) simp
  have o: "out (sv_reply ?s) = st_out S" by (simp add: encoder_new_def)
  from s1(2) consider m' where "after_write (sv_map ?s) key (m(key \<mapsto> (val, None, None))) m'" "answered v (begun v ?d ?s) OK m' s1"
    | "out_of_memory v (begun v ?d ?s) m s1" by blast
  then show ?thesis
  proof cases
    case 2
    then show ?thesis using oom_seen [OF 2] p1 o by (intro disjI1) (simp add: buffer_def del: encode.simps)
  next
    case (1 m')
    have a: "serving v m' s1" "buffer (sv_reply s1) = st_out S @ encode ?d OK" using answered_seen [OF 1(2)] o by (simp_all add: buffer_def)
    have key: "purge (now_of s1) key m' = m'" "m' key = Some (val, None, None)" using 1(1) by (auto simp: after_write_def purge_def expired_def)
    have len: "length (encode ?d OK) = 5" by (simp add: ascii_def)
    have in1: "st_in ?S1 = request_bytes ?get @ []" "\<not> st_closing ?S1" "length (st_out ?S1) < MAX_REPLY" using assms(3) len by (simp_all add: a(2) del: encode.simps)
    let ?t = "s1\<lparr> sv_reply := encoder_new (st_out ?S1) ?d \<rparr>"
    obtain cmd' where cmd': "command_args cmd' (request_bytes ?get) = map Some ?get"
      and p': "pass v ?S1 s1 = do {
        (outcome, d, s) \<leftarrow> run v cmd' (request_bytes ?get) ?d ?t;
        let S = ?S1\<lparr> st_out := buffer (sv_reply s), st_dialect := d, st_closing := (outcome = Replied Last) \<rparr>;
        if outcome = Exited then Some (Ended, S, s) else Some (Onward, S\<lparr> st_in := [] \<rparr>, s) }"
      using pass_request [OF few(2) B'(1,2) _ in1, where v = v and s = s1] by auto
    have get: "asks cmd' (request_bytes ?get) ''GET'' [key]"
      by (rule request_asks [OF cmd']) (simp_all add: ascii_def to_ascii_uppercase_def MAX_NAME_def)
    have "serving v m' ?t" using a(1) by simp
    from run_get [OF this get, of ?d] obtain s2 where s2: "run v cmd' (request_bytes ?get) ?d ?t = Some (Replied MoreToCome, ?d, s2)"
      "answered v (begun v ?d ?t) (VBulk val) m' s2"
      using key by (auto simp: value_of_def elim!: returnsE)
    have "buffer (sv_reply s2) = st_out S @ encode ?d OK @ encode ?d (VBulk val)"
      using answered_seen [OF s2(2)] a(2) by (simp add: buffer_def encoder_new_def del: encode.simps)
    moreover have "pass v ?S1 s1 = Some (Onward, ?S1\<lparr> st_out := buffer (sv_reply s2), st_closing := False, st_in := [] \<rparr>, s2)"
      unfolding p' s2(1) by (cases S) simp
    ultimately show ?thesis using p1 by (intro disjI2) (simp add: numeral_2_eq_2 del: encode.simps)
  qed
qed

text \<open>
  C1: From the wire to the wire. When a \<^verbatim>\<open>SET\<close> of a key to a value and a \<^verbatim>\<open>GET\<close> of the key have arrived one
  behind the other on an open connection, whatever bytes the key and the value hold, the connection
  writes \<^verbatim>\<open>OK\<close> and the value, byte for byte, and has nothing left to run; or the \<^verbatim>\<open>SET\<close> was refused
  memory, the first reply says so, and the cache reads as before.
\<close>

theorem set_then_get_on_the_wire:
  assumes "serving v m s" "input_ok c" "\<not> co_closing c" "length (co_out c) + 5 < MAX_REPLY"
    and "pending c = request_bytes [ascii ''SET'', key, val] @ request_bytes [ascii ''GET'', key]"
  shows "returns (serve v 1 (abs_conn c) s) (\<lambda>(exited, S, s'). \<not> exited \<and> st_out S = co_out c @ encode (co_dialect c) OOM \<and> limping v m s') \<or>
    returns (execute v c s) (\<lambda>(exited, c', s'). \<not> exited \<and> pending c' = [] \<and>
      co_out c' = co_out c @ encode (co_dialect c) OK @ encode (co_dialect c) (VBulk val))"
proof -
  have len: "length (pending c) \<le> MAX_REQUEST"
    using length_pending [OF assms(2)] input_ok_length [OF assms(2)] assms(2) by (auto simp: input_ok_def)
  have two: "\<exists>k. length (pending c) = 2 + k"
    by (rule exI [of _ "length (pending c) - 2"]) (simp add: assms(5) request_bytes_def bulk_bytes_def)
  then obtain k where k: "length (pending c) = 2 + k" ..
  consider "returns (serve v 1 (abs_conn c) s) (\<lambda>(exited, S, s'). \<not> exited \<and> st_out S = co_out c @ encode (co_dialect c) OOM \<and> limping v m s')"
    | (both) S s' where "serve v 2 (abs_conn c) s = Some (False, S, s')" "st_in S = []" "\<not> st_closing S"
        "st_out S = co_out c @ encode (co_dialect c) OK @ encode (co_dialect c) (VBulk val)"
    using set_get_served [OF assms(1), of "abs_conn c" key val] assms(3-5) len by (auto elim!: returnsE simp del: encode.simps)
  then show ?thesis
  proof cases
    case both
    have "serve_all v (abs_conn c) s = serve v k S s'" using serve_add [OF both(1), of k] k by (simp add: serve_all_def)
    also have "\<dots> = Some (False, S, s')" using serve_fuel [of S k 0 v s'] both(2) by simp
    finally obtain c' where c': "execute v c s = Some (False, c', s')" "abs_conn c' = S" using execute_serve [OF assms(2), of v s] by auto
    then show ?thesis using both(2,4) by (auto simp del: encode.simps)
  qed simp
qed

theorem set_then_get_on_the_wire_witness:
  "returns (serve sample_env 1 (abs_conn (fed (request_bytes [ascii ''SET'', [1], [13, 10]] @ request_bytes [ascii ''GET'', [1]]))) sample_server)
     (\<lambda>(exited, S, s'). \<not> exited \<and> st_out S = co_out (fed (request_bytes [ascii ''SET'', [1], [13, 10]] @ request_bytes [ascii ''GET'', [1]])) @
        encode (co_dialect (fed (request_bytes [ascii ''SET'', [1], [13, 10]] @ request_bytes [ascii ''GET'', [1]]))) OOM \<and> limping sample_env Map.empty s') \<or>
   returns (execute sample_env (fed (request_bytes [ascii ''SET'', [1], [13, 10]] @ request_bytes [ascii ''GET'', [1]])) sample_server)
     (\<lambda>(exited, c', s'). \<not> exited \<and> pending c' = [] \<and>
        co_out c' = co_out (fed (request_bytes [ascii ''SET'', [1], [13, 10]] @ request_bytes [ascii ''GET'', [1]])) @
          encode (co_dialect (fed (request_bytes [ascii ''SET'', [1], [13, 10]] @ request_bytes [ascii ''GET'', [1]]))) OK @
          encode (co_dialect (fed (request_bytes [ascii ''SET'', [1], [13, 10]] @ request_bytes [ascii ''GET'', [1]]))) (VBulk [13, 10]))"
proof -
  let ?bs = "request_bytes [ascii ''SET'', [1], [13, 10]] @ request_bytes [ascii ''GET'', [1]]"
  have len: "length ?bs \<le> CHUNK" by (simp add: request_bytes_def array_header_def bulk_bytes_def dec.simps ascii_def CHUNK_def)
  note f = fed_simps [OF len]
  have o: "\<not> co_closing (fed ?bs)" "length (co_out (fed ?bs)) + 5 < MAX_REPLY"
    using arg_cong [OF f(2), of st_closing] arg_cong [OF f(2), of st_out] by (simp_all add: MAX_REPLY_def)
  show ?thesis by (rule set_then_get_on_the_wire [OF sample_serving input_ok_fed [OF len] o f(1)])
qed

end
