(* ===== verification/Rugo_Loops.thy ===== *)
theory Rugo_Loops
  imports Rugo_Worker Rugo_Wire
begin

text \<open>
  The properties of a serving thread on a poller: the slots, the free stack and what the kernel watches
  stay in step, no event touches another client, the upkeep drops only what is due; and two ways an
  event of the kernel closes a connection it should not.
\<close>

section \<open>The thread in order\<close>

text \<open>
  Every connection is watched under its own token for what it remembers, every listener under its
  index, and nothing else is watched.
\<close>

definition worker_ok :: "Listener list \<Rightarrow> Worker \<Rightarrow> bool" where
  "worker_ok ls w \<longleftrightarrow> slots_ok (wk_slots w) \<and>
     (\<forall>at cl. slot_at (wk_slots w) at = Some cl \<longrightarrow>
        wk_watched w (cl_fd cl) = Some (at + length ls, cl_armed cl) \<and> input_ok (cl_conn cl)) \<and>
     (\<forall>i<length ls. wk_watched w (listener_fd (ls ! i)) = Some (i, READ)) \<and>
     (\<forall>fd token interest. wk_watched w fd = Some (token, interest) \<longrightarrow>
        (token < length ls \<and> fd = listener_fd (ls ! token)) \<or>
        (length ls \<le> token \<and> (\<exists>cl. slot_at (wk_slots w) (token - length ls) = Some cl \<and> cl_fd cl = fd)))"

lemma worker_okD:
  assumes "worker_ok ls w"
  shows "slots_ok (wk_slots w)"
    "slot_at (wk_slots w) at = Some cl \<Longrightarrow> wk_watched w (cl_fd cl) = Some (at + length ls, cl_armed cl)"
    "slot_at (wk_slots w) at = Some cl \<Longrightarrow> input_ok (cl_conn cl)"
    "i < length ls \<Longrightarrow> wk_watched w (listener_fd (ls ! i)) = Some (i, READ)"
    "wk_watched w fd = Some (token, interest) \<Longrightarrow> (token < length ls \<and> fd = listener_fd (ls ! token)) \<or>
        (length ls \<le> token \<and> (\<exists>cl. slot_at (wk_slots w) (token - length ls) = Some cl \<and> cl_fd cl = fd))"
  using assms unfolding worker_ok_def by blast+

text \<open>No two connections share a descriptor, and none has a listener's.\<close>

lemma worker_fds:
  assumes "worker_ok ls w" "slot_at (wk_slots w) i = Some x"
  shows "slot_at (wk_slots w) j = Some y \<Longrightarrow> cl_fd x = cl_fd y \<Longrightarrow> i = j"
    "k < length ls \<Longrightarrow> cl_fd x \<noteq> listener_fd (ls ! k)"
  using worker_okD(2) [OF assms] worker_okD(2) [OF assms(1), of j y] worker_okD(4) [OF assms(1), of k] by auto

text \<open>A connection replaced in its slot, watched for what it now remembers.\<close>

lemma worker_ok_change:
  assumes "worker_ok ls w" "slot_at (wk_slots w) at = Some cl" "cl_fd cl' = cl_fd cl" "input_ok (cl_conn cl')"
  shows "worker_ok ls (w\<lparr> wk_slots := change_slot at cl' (wk_slots w),
    wk_watched := (wk_watched w)(cl_fd cl \<mapsto> (at + length ls, cl_armed cl')) \<rparr>)"
proof -
  note d = worker_okD [OF assms(1)] and fds = worker_fds [OF assms(1,2)]
  have sl: "slot_at (change_slot at cl' (wk_slots w)) i = (if i = at then Some cl' else slot_at (wk_slots w) i)" for i
    by (rule slot_at_change [OF assms(2)])
  have "slots_ok (change_slot at cl' (wk_slots w))" by (rule slots_ok_change [OF d(1) assms(2)])
  moreover have "((wk_watched w)(cl_fd cl \<mapsto> (at + length ls, cl_armed cl'))) (cl_fd x) = Some (i + length ls, cl_armed x) \<and> input_ok (cl_conn x)"
    if "slot_at (change_slot at cl' (wk_slots w)) i = Some x" for i x
    using that d(2,3) fds(1) assms(3,4) by (auto simp: sl split: if_splits)
  moreover have "((wk_watched w)(cl_fd cl \<mapsto> (at + length ls, cl_armed cl'))) (listener_fd (ls ! k)) = Some (k, READ)" if "k < length ls" for k
    using d(4) [OF that] fds(2) [OF that] by simp
  moreover have "(token < length ls \<and> fd = listener_fd (ls ! token)) \<or>
        (length ls \<le> token \<and> (\<exists>x. slot_at (change_slot at cl' (wk_slots w)) (token - length ls) = Some x \<and> cl_fd x = fd))"
    if "((wk_watched w)(cl_fd cl \<mapsto> (at + length ls, cl_armed cl'))) fd = Some (token, interest)" for fd token interest
    using that d(5) [of fd token interest] assms(2,3) by (auto simp: sl split: if_splits)
  ultimately show ?thesis unfolding worker_ok_def by simp
qed

text \<open>A connection that goes.\<close>

lemma worker_ok_empty:
  assumes "worker_ok ls w" "slot_at (wk_slots w) at = Some cl"
  shows "worker_ok ls (w\<lparr> wk_slots := discard at (wk_slots w), wk_watched := (wk_watched w)(cl_fd cl := None) \<rparr>)"
proof -
  note d = worker_okD [OF assms(1)] and fds = worker_fds [OF assms(1,2)]
  have sl: "slot_at (discard at (wk_slots w)) i = (if i = at then None else slot_at (wk_slots w) i)" for i by (rule slot_at_discard [OF d(1)])
  have "((wk_watched w)(cl_fd cl := None)) (cl_fd x) = Some (i + length ls, cl_armed x) \<and> input_ok (cl_conn x)"
    if "slot_at (discard at (wk_slots w)) i = Some x" for i x
    using that d(2,3) fds(1) [of i x] by (auto simp: sl split: if_splits)
  moreover have "((wk_watched w)(cl_fd cl := None)) (listener_fd (ls ! k)) = Some (k, READ)" if "k < length ls" for k
    using d(4) [OF that] fds(2) [OF that] by simp
  moreover have "(token < length ls \<and> fd = listener_fd (ls ! token)) \<or>
        (length ls \<le> token \<and> (\<exists>x. slot_at (discard at (wk_slots w)) (token - length ls) = Some x \<and> cl_fd x = fd))"
    if "((wk_watched w)(cl_fd cl := None)) fd = Some (token, interest)" for fd token interest
    using that d(5) [of fd token interest] assms(2) by (auto simp: sl split: if_splits)
  ultimately show ?thesis unfolding worker_ok_def using discard_ok [OF d(1)] by simp
qed

text \<open>A connection that arrives, on a descriptor the thread does not hold.\<close>

lemma worker_ok_put:
  assumes "worker_ok ls w" "put_slot (client_new fd) (wk_slots w) = Some (at, S)" "wk_watched w fd = None"
  shows "worker_ok ls (w\<lparr> wk_slots := S, wk_watched := (wk_watched w)(fd \<mapsto> (at + length ls, READ)) \<rparr>)"
proof -
  note d = worker_okD [OF assms(1)]
  have S: "slots_ok S" "slot_at (wk_slots w) at = None" and sl: "slot_at S i = (if i = at then Some (client_new fd) else slot_at (wk_slots w) i)" for i
    using put_slot_spec [OF d(1), of "client_new fd"] assms(2) by auto
  have "((wk_watched w)(fd \<mapsto> (at + length ls, READ))) (cl_fd x) = Some (i + length ls, cl_armed x) \<and> input_ok (cl_conn x)"
    if "slot_at S i = Some x" for i x
    using that d(2,3) [of i x] assms(3) input_ok_new by (auto simp: sl client_new_def split: if_splits)
  moreover have "((wk_watched w)(fd \<mapsto> (at + length ls, READ))) (listener_fd (ls ! k)) = Some (k, READ)" if "k < length ls" for k
    using d(4) [OF that] assms(3) by auto
  moreover have "(token < length ls \<and> x = listener_fd (ls ! token)) \<or>
        (length ls \<le> token \<and> (\<exists>y. slot_at S (token - length ls) = Some y \<and> cl_fd y = x))"
    if "((wk_watched w)(fd \<mapsto> (at + length ls, READ))) x = Some (token, interest)" for x token interest
    using that d(5) [of x token interest] S(2) by (auto simp: sl client_new_def split: if_splits)
  ultimately show ?thesis unfolding worker_ok_def using S(1) by simp
qed

section \<open>Events\<close>

text \<open>The kernel never gives out a descriptor the thread still holds.\<close>

definition fresh_fds :: "Happening \<Rightarrow> Worker \<Rightarrow> bool" where
  "fresh_fds h w \<longleftrightarrow> (\<forall>fd prepared. Accepted fd prepared \<in> set (hp_accepts h) \<longrightarrow> wk_watched w fd = None)"

text \<open>A connection is taken, or nothing changes.\<close>

lemma take_conn_cases:
  assumes "take_conn v n grants as w s = Some (GoesOn, w', s')"
  obtains "w' = w" "s' = s"
  | fd at S where "Accepted fd True \<in> set as" "put_slot (client_new fd) (wk_slots w) = Some (at, S)"
      "w' = w\<lparr> wk_slots := S, wk_watched := (wk_watched w)(fd \<mapsto> (at + n, READ)) \<rparr>" "counters v connection_made s = Some s'"
  using assms
proof (induction as)
  case (Cons a as)
  show ?case
  proof (cases a)
    case (Accepted fd prepared)
    show ?thesis
    proof (cases prepared)
      case True
      then obtain at S where p: "put_slot (client_new fd) (wk_slots w) = Some (at, S)"
        and go: "grants" "counters v connection_made s = Some s'" "w' = w\<lparr> wk_slots := S, wk_watched := (wk_watched w)(fd \<mapsto> (at + n, READ)) \<rparr>"
        using Cons.prems(3) Accepted by (auto simp: Let_def bind_eq_Some_conv simp del: fun_upd_apply split: if_splits)
      show ?thesis by (rule Cons.prems(2) [OF _ p go(3,2)]) (simp add: Accepted True)
    next
      case False
      have "take_conn v n grants as w s = Some (GoesOn, w', s')" using Cons.prems(3) Accepted False by simp
      then show ?thesis using Cons.IH Cons.prems(1,2) by auto
    qed
  next
    case AcceptBlocks
    then show ?thesis using Cons.prems(1,3) by simp
  next
    case AcceptFails
    then show ?thesis using Cons.prems(3) by simp
  qed
qed simp

text \<open>What a socket that is ready comes to.\<close>

lemma on_event_conn:
  assumes "on_event v ls h w s = Some (GoesOn, w', s')" "length ls \<le> rd_token (hp_ready h)"
    "slot_at (wk_slots w) (rd_token (hp_ready h) - length ls) = Some cl"
  defines "at \<equiv> rd_token (hp_ready h) - length ls"
  obtains c where "input_ok (cl_conn cl) \<Longrightarrow> input_ok c" "w' = w\<lparr> wk_slots := discard at (change_slot at (cl\<lparr> cl_conn := c \<rparr>) (wk_slots w)),
      wk_watched := (wk_watched w)(cl_fd cl := None) \<rparr>"
  | c where "input_ok (cl_conn cl) \<Longrightarrow> input_ok c" "w' = w\<lparr> wk_slots := change_slot at (cl\<lparr> cl_conn := c \<rparr>) (wk_slots w) \<rparr>"
  | c want where "input_ok (cl_conn cl) \<Longrightarrow> input_ok c"
      "w' = w\<lparr> wk_slots := change_slot at (cl\<lparr> cl_conn := c, cl_armed := want \<rparr>) (wk_slots w),
        wk_watched := (wk_watched w)(cl_fd cl \<mapsto> (at + length ls, want)) \<rparr>"
proof -
  have token: "\<not> rd_token (hp_ready h) < length ls" "rd_token (hp_ready h) = at + length ls" using assms(2) by (simp_all add: at_def)
  obtain went c s1 where c: "(if rd_gone (hp_ready h) then Some (Some TurnClose, cl_conn cl, s)
      else turn v (rd_read (hp_ready h)) (rd_write (hp_ready h)) (hp_reads h) (hp_writes h) (cl_conn cl) s) = Some (went, c, s1)"
    using assms(1,3) token(1) by (auto simp: on_event_def Let_def at_def bind_eq_Some_conv)
  have ok: "input_ok (cl_conn cl) \<Longrightarrow> input_ok c" using c turn_input_ok by (auto split: if_splits)
  let ?S = "change_slot at (cl\<lparr> cl_conn := c \<rparr>) (wk_slots w)"
  have sl: "slot_at ?S at = Some (cl\<lparr> cl_conn := c \<rparr>)" using slot_at_change assms(3) by (fastforce simp: at_def)
  have again: "change_slot at x ?S = change_slot at x (wk_slots w)" for x by (simp add: change_slot_def)
  have code: "on_event v ls h w s = (case went of
                None \<Rightarrow> Some (ProcessEnded, w\<lparr> wk_slots := ?S \<rparr>, s1)
              | Some TurnClose \<Rightarrow> do {
                  S \<leftarrow> empty_slot at ?S;
                  Some (GoesOn, w\<lparr> wk_slots := S, wk_watched := (wk_watched w)(cl_fd cl := None) \<rparr>, s1) }
              | Some t \<Rightarrow>
                  let want = \<lparr> wants_read = True, wants_write = (t = TurnWrite) \<rparr>
                  in if cl_armed cl = want then Some (GoesOn, w\<lparr> wk_slots := ?S \<rparr>, s1)
                     else if \<not> hp_grants h then Some (IoFailed, w\<lparr> wk_slots := ?S \<rparr>, s1)
                     else Some (GoesOn, w\<lparr> wk_slots := change_slot at (arm want (cl\<lparr> cl_conn := c \<rparr>)) ?S,
                            wk_watched := (wk_watched w)(cl_fd cl \<mapsto> (at + length ls, want)) \<rparr>, s1))"
    using assms(3) token c by (simp add: on_event_def Let_def at_def [symmetric] split: option.split Turn.split)
  show ?thesis
  proof (cases "went = Some TurnClose")
    case True
    then show ?thesis using that(1) [OF ok] assms(1) unfolding code by (simp add: empty_slot_eq [OF sl])
  next
    case False
    then show ?thesis using that(2,3) [OF ok] assms(1) unfolding code
      by (auto simp: Let_def arm_def again split: option.splits Turn.splits if_splits)
  qed
qed

lemma discard_change: "slot_at S at = Some y \<Longrightarrow> discard at (change_slot at x S) = discard at S"
  by (auto simp: discard_def slot_at_change dest: slot_at_SomeD) (simp add: change_slot_def)

lemma on_event_ok:
  assumes "on_event v ls h w s = Some (GoesOn, w', s')" "worker_ok ls w" "fresh_fds h w"
  shows "worker_ok ls w'"
proof (cases "rd_token (hp_ready h) < length ls")
  case True
  then have "take_conn v (length ls) (hp_grants h) (hp_accepts h) w s = Some (GoesOn, w', s')"
    using assms(1) by (simp add: on_event_def Let_def)
  then show ?thesis
  proof (cases rule: take_conn_cases)
    case (2 fd at S)
    then show ?thesis using worker_ok_put [OF assms(2) 2(2)] assms(3) by (auto simp: fresh_fds_def)
  qed (use assms(2) in simp)
next
  case False
  let ?at = "rd_token (hp_ready h) - length ls"
  show ?thesis
  proof (cases "slot_at (wk_slots w) ?at")
    case None
    then show ?thesis using assms(1,2) False by (simp add: on_event_def Let_def)
  next
    case (Some cl)
    have same: "w\<lparr> wk_slots := x \<rparr> = w\<lparr> wk_slots := x, wk_watched := (wk_watched w)(cl_fd cl \<mapsto> (?at + length ls, cl_armed cl)) \<rparr>" for x
      using worker_okD(2) [OF assms(2) Some] by (simp add: fun_upd_idem)
    have ok: "input_ok (cl_conn cl)" by (rule worker_okD(3) [OF assms(2) Some])
    have le: "length ls \<le> rd_token (hp_ready h)" using False by simp
    from assms(1) le Some show ?thesis
    proof (cases rule: on_event_conn)
      case (1 c)
      then show ?thesis using worker_ok_empty [OF assms(2) Some] by (simp add: discard_change [OF Some])
    next
      case (2 c)
      show ?thesis
        unfolding trans [OF 2(2) same] using worker_ok_change [OF assms(2) Some, of "cl\<lparr> cl_conn := c \<rparr>"] 2(1) ok by simp
    next
      case (3 c want)
      then show ?thesis using worker_ok_change [OF assms(2) Some, of "cl\<lparr> cl_conn := c, cl_armed := want \<rparr>"] ok by simp
    qed
  qed
qed

section \<open>A run of the loop\<close>

inductive worker_moves :: "DispatchEnv \<Rightarrow> Listener list \<Rightarrow> Worker \<times> Server \<Rightarrow> Worker \<times> Server \<Rightarrow> bool" for v ls where
  handles: "on_event v ls h w s = Some (GoesOn, w', s') \<Longrightarrow> fresh_fds h w \<Longrightarrow> worker_moves v ls (w, s) (w', s')"
| keeps_up: "upkeep v now unix (wk_since w) s = Some (since, s') \<Longrightarrow> worker_moves v ls (w, s) (w\<lparr> wk_since := since \<rparr>, s')"

lemma worker_ok_since [simp]: "worker_ok ls (w\<lparr> wk_since := since \<rparr>) = worker_ok ls w"
  by (simp add: worker_ok_def)

lemma fate_GoesOn: "a \<noteq> IoFailed \<Longrightarrow> a \<noteq> ProcessEnded \<Longrightarrow> a = GoesOn"
  by (cases a) simp_all

interpretation polling: event_loop "worker_moves v ls" "\<lambda>(w, s). worker_ok ls w" for v ls
proof
  fix a b
  assume "worker_moves v ls a b" "case a of (w, s) \<Rightarrow> worker_ok ls w"
  then show "case b of (w, s) \<Rightarrow> worker_ok ls w"
    by (cases rule: worker_moves.cases) (auto intro: on_event_ok)
qed

text \<open>The same promise of the kernel, along a run.\<close>

fun fresh_events :: "DispatchEnv \<Rightarrow> Listener list \<Rightarrow> Happening list \<Rightarrow> Worker \<Rightarrow> Server \<Rightarrow> bool" where
  "fresh_events v ls [] w s = True"
| "fresh_events v ls (h # hs) w s =
     (fresh_fds h w \<and> (case on_event v ls h w s of Some (GoesOn, w', s') \<Rightarrow> fresh_events v ls hs w' s' | _ \<Rightarrow> True))"

fun fresh_turns :: "DispatchEnv \<Rightarrow> Listener list \<Rightarrow> Waited list \<Rightarrow> Worker \<Rightarrow> Server \<Rightarrow> bool" where
  "fresh_turns v ls [] w s = True"
| "fresh_turns v ls (WaitFails # turns) w s = True"
| "fresh_turns v ls (Woke hs now unix # turns) w s =
     (fresh_events v ls hs w s \<and>
      (case on_events v ls hs w s of
         Some (GoesOn, w', s') \<Rightarrow> (case upkeep v now unix (wk_since w') s' of Some (since, s'') \<Rightarrow> fresh_turns v ls turns (w'\<lparr> wk_since := since \<rparr>) s'' | None \<Rightarrow> True)
       | _ \<Rightarrow> True))"

lemma on_events_moves:
  "on_events v ls hs w s = Some (GoesOn, w', s') \<Longrightarrow> fresh_events v ls hs w s \<Longrightarrow> (worker_moves v ls)\<^sup>*\<^sup>* (w, s) (w', s')"
proof (induction hs arbitrary: w s)
  case (Cons h hs)
  from Cons.prems obtain w1 s1 where "on_event v ls h w s = Some (GoesOn, w1, s1)" "on_events v ls hs w1 s1 = Some (GoesOn, w', s')"
    by (auto simp: bind_eq_Some_conv split: Fate.splits dest: fate_GoesOn)
  then show ?case using Cons by (auto intro: converse_rtranclp_into_rtranclp worker_moves.handles)
qed simp

lemma poller_loop_moves:
  "poller_loop v ls turns w s = Some (GoesOn, w', s') \<Longrightarrow> fresh_turns v ls turns w s \<Longrightarrow> (worker_moves v ls)\<^sup>*\<^sup>* (w, s) (w', s')"
proof (induction turns arbitrary: w s)
  case (Cons a turns)
  show ?case
  proof (cases a)
    case (Woke hs now unix)
    with Cons.prems(1) obtain w1 s1 since s2 where go: "on_events v ls hs w s = Some (GoesOn, w1, s1)" "upkeep v now unix (wk_since w1) s1 = Some (since, s2)"
        "poller_loop v ls turns (w1\<lparr> wk_since := since \<rparr>) s2 = Some (GoesOn, w', s')"
      by (auto simp: bind_eq_Some_conv split: Fate.splits dest: fate_GoesOn)
    have "(worker_moves v ls)\<^sup>*\<^sup>* (w, s) (w1, s1)" using on_events_moves [OF go(1)] Cons.prems(2) Woke by simp
    also have "worker_moves v ls (w1, s1) (w1\<lparr> wk_since := since \<rparr>, s2)" by (rule worker_moves.keeps_up [OF go(2)])
    also have "(worker_moves v ls)\<^sup>*\<^sup>* (w1\<lparr> wk_since := since \<rparr>, s2) (w', s')" using Cons.IH [OF go(3)] Cons.prems(2) Woke go by simp
    finally show ?thesis .
  qed (use Cons.prems in simp)
qed simp

lemma watch_listeners_spec:
  assumes "watch_listeners at ls w = (True, w')" "distinct (map (listener_fd \<circ> fst) ls)"
  shows "wk_slots w' = wk_slots w \<and> (\<forall>i<length ls. wk_watched w' (listener_fd (fst (ls ! i))) = Some (at + i, READ)) \<and>
    (\<forall>fd. fd \<notin> (listener_fd \<circ> fst) ` set ls \<longrightarrow> wk_watched w' fd = wk_watched w fd)"
  using assms
proof (induction ls arbitrary: at w)
  case (Cons l ls)
  obtain k g where l: "l = (k, g)" by force
  let ?w = "w\<lparr> wk_watched := (wk_watched w)(listener_fd k \<mapsto> (at, READ)) \<rparr>"
  have "watch_listeners (at + 1) ls ?w = (True, w')" using Cons.prems(1) l by (auto split: if_splits)
  from Cons.IH [OF this] have "wk_slots w' = wk_slots w" "\<And>i. i < length ls \<Longrightarrow> wk_watched w' (listener_fd (fst (ls ! i))) = Some (Suc (at + i), READ)"
      "\<And>fd. fd \<notin> (listener_fd \<circ> fst) ` set ls \<Longrightarrow> wk_watched w' fd = wk_watched ?w fd"
    using Cons.prems(2) by auto
  then show ?case using Cons.prems(2) l by (auto simp: nth_Cons split: nat.split)
qed simp

lemma watch_listeners_ok:
  assumes "watch_listeners 0 ls (worker_new now) = (True, w)" "distinct (map (listener_fd \<circ> fst) ls)"
  shows "worker_ok (map fst ls) w"
proof -
  note s = watch_listeners_spec [OF assms]
  have "token < length ls \<and> fd = listener_fd (map fst ls ! token)" if "wk_watched w fd = Some (token, interest)" for fd token interest
  proof -
    have "fd \<in> (listener_fd \<circ> fst) ` set ls" using s that by (cases "fd \<in> (listener_fd \<circ> fst) ` set ls") (auto simp: worker_new_def)
    then obtain i where "i < length ls" "fd = listener_fd (fst (ls ! i))" by (auto simp: in_set_conv_nth)
    then show ?thesis using s that by auto
  qed
  then show ?thesis using s slots_ok_new by (fastforce simp: worker_ok_def worker_new_def)
qed

section \<open>A thread to look at\<close>

definition accept_one :: "nat \<Rightarrow> nat \<Rightarrow> Happening" where
  "accept_one listener fd = \<lparr> hp_ready = \<lparr> rd_token = listener, rd_read = True, rd_write = False, rd_gone = False \<rparr>,
     hp_accepts = [Accepted fd True], hp_reads = [], hp_writes = [], hp_grants = True \<rparr>"

definition with_one :: Worker where
  "with_one = \<lparr> wk_slots = \<lparr> sl_conns = [Some (client_new 4)], sl_free = [] \<rparr>, wk_watched = [3 \<mapsto> (0, READ), 4 \<mapsto> (1, READ)], wk_since = 0 \<rparr>"

definition sample_counted :: Server where
  "sample_counted = sample_server\<lparr> sv_stats := \<lparr> per = [connection_made counters_default] \<rparr> \<rparr>"

lemma counters_sample: "counters sample_env connection_made sample_server = Some sample_counted"
  using counters_spec [OF sample_serving, of connection_made]
  by (simp add: sample_counted_def sample_env_def sample_server_def stats_new_def)

lemma watched_one: "watch_listeners 0 [(TcpListener 3, True)] (worker_new 0) = (True, (worker_new 0)\<lparr> wk_watched := [3 \<mapsto> (0, READ)] \<rparr>)"
  by (simp add: worker_new_def)

lemma accepted_one:
  "on_event sample_env [TcpListener 3] (accept_one 0 4) ((worker_new 0)\<lparr> wk_watched := [3 \<mapsto> (0, READ)] \<rparr>) sample_server = Some (GoesOn, with_one, sample_counted)"
  using counters_sample
  by (simp add: on_event_def accept_one_def worker_new_def put_slot_def slots_new_def with_one_def client_new_def)

lemma with_one_slot: "slot_at (wk_slots with_one) i = (if i = 0 then Some (client_new 4) else None)"
  by (simp add: slot_at_def with_one_def)

lemma with_one_ok: "worker_ok [TcpListener 3] with_one"
proof (rule on_event_ok [OF accepted_one])
  show "worker_ok [TcpListener 3] ((worker_new 0)\<lparr> wk_watched := [3 \<mapsto> (0, READ)] \<rparr>)"
    using watch_listeners_ok [OF watched_one] by simp
qed (simp add: fresh_fds_def accept_one_def worker_new_def)

section \<open>What the loop promises\<close>

text \<open>
  C12: In every state a serving thread comes to, whatever its listeners, its clients and the kernel do, its
  slots are in order: the free stack holds every hole once and nothing else, no two connections share a
  descriptor, and the kernel watches exactly the listeners and the connections, each connection under
  the token of its own slot and for what it remembers being watched for. The kernel's one promise is
  that an accept never gives out a descriptor the thread still holds.
\<close>

theorem slots_stay_in_order:
  assumes "distinct (map (listener_fd \<circ> fst) ls)" "\<And>w. watch_listeners 0 ls (worker_new now) = (True, w) \<Longrightarrow> fresh_turns v (map fst ls) turns w s"
    and "serve_poller v ls now turns s = Some (GoesOn, w, s')"
  shows "distinct (sl_free (wk_slots w)) \<and>
    (\<forall>at. at \<in> set (sl_free (wk_slots w)) \<longleftrightarrow> at < length (sl_conns (wk_slots w)) \<and> sl_conns (wk_slots w) ! at = None) \<and>
    (\<forall>at cl. slot_at (wk_slots w) at = Some cl \<longrightarrow> wk_watched w (cl_fd cl) = Some (at + length ls, cl_armed cl)) \<and>
    (\<forall>i j x y. slot_at (wk_slots w) i = Some x \<longrightarrow> slot_at (wk_slots w) j = Some y \<longrightarrow> cl_fd x = cl_fd y \<longrightarrow> i = j) \<and>
    dom (wk_watched w) = (listener_fd \<circ> fst) ` set ls \<union> {cl_fd cl |cl at. slot_at (wk_slots w) at = Some cl}"
proof -
  obtain w0 where w0: "watch_listeners 0 ls (worker_new now) = (True, w0)" "poller_loop v (map fst ls) turns w0 s = Some (GoesOn, w, s')"
    using assms(3) by (auto simp: serve_poller_def split: prod.splits bool.splits)
  have ok: "worker_ok (map fst ls) w"
    using polling.comes_to_ok [OF poller_loop_moves [OF w0(2) assms(2) [OF w0(1)]]] watch_listeners_ok [OF w0(1) assms(1)] by simp
  have "dom (wk_watched w) = (listener_fd \<circ> fst) ` set ls \<union> {cl_fd cl |cl at. slot_at (wk_slots w) at = Some cl}" (is "_ = ?fds")
  proof
    show "dom (wk_watched w) \<subseteq> ?fds"
      using worker_okD(5) [OF ok] by (fastforce simp: image_iff in_set_conv_nth)
    show "?fds \<subseteq> dom (wk_watched w)"
      using worker_okD(2,4) [OF ok] by (fastforce simp: in_set_conv_nth)
  qed
  then show ?thesis
    using worker_okD(1,2) [OF ok] worker_fds(1) [OF ok] by (auto simp: slots_ok_def)
qed

theorem slots_stay_in_order_witness:
  "serve_poller sample_env [(TcpListener 3, True)] 0 [Woke [accept_one 0 4] 0 None] sample_server = Some (GoesOn, with_one, sample_counted) \<and>
   dom (wk_watched with_one) = (listener_fd \<circ> fst) ` set [(TcpListener 3, True)] \<union> {cl_fd cl |cl at. slot_at (wk_slots with_one) at = Some cl}"
proof -
  have up: "upkeep sample_env 0 None (wk_since with_one) sample_counted = Some (wk_since with_one, sample_counted)" by (simp add: upkeep_def UPKEEP_def)
  have run: "serve_poller sample_env [(TcpListener 3, True)] 0 [Woke [accept_one 0 4] 0 None] sample_server = Some (GoesOn, with_one, sample_counted)"
    using accepted_one up by (simp only: serve_poller_def watched_one) simp
  have "fresh_turns sample_env (map fst [(TcpListener 3, True)]) [Woke [accept_one 0 4] 0 None] w sample_server"
    if "watch_listeners 0 [(TcpListener 3, True)] (worker_new 0) = (True, w)" for w
  proof -
    have "w = (worker_new 0)\<lparr> wk_watched := [3 \<mapsto> (0, READ)] \<rparr>" using that watched_one by simp
    then show ?thesis using accepted_one up by (simp add: fresh_fds_def accept_one_def worker_new_def)
  qed
  from slots_stay_in_order [OF _ this run] run show ?thesis by simp
qed

text \<open>
  C21: An event of one client leaves every other client alone: its connection, its buffers, what it is
  watched for and its slot are what they were.
\<close>

theorem clients_left_alone:
  assumes "on_event v ls h w s = Some (GoesOn, w', s')" "worker_ok ls w" "fresh_fds h w"
    and "slot_at (wk_slots w) i = Some cl" "rd_token (hp_ready h) \<noteq> i + length ls"
  shows "slot_at (wk_slots w') i = Some cl \<and> wk_watched w' (cl_fd cl) = wk_watched w (cl_fd cl)"
proof -
  have "slot_at (wk_slots w') i = Some cl"
  proof (cases "rd_token (hp_ready h) < length ls")
    case True
    then have "take_conn v (length ls) (hp_grants h) (hp_accepts h) w s = Some (GoesOn, w', s')"
      using assms(1) by (simp add: on_event_def Let_def)
    then show ?thesis
    proof (cases rule: take_conn_cases)
      case (2 fd at S)
      then show ?thesis using put_slot_spec [OF worker_okD(1) [OF assms(2)], of "client_new fd"] assms(4) by auto
    qed (use assms(4) in simp)
  next
    case False
    let ?at = "rd_token (hp_ready h) - length ls"
    have at: "?at \<noteq> i" "length ls \<le> rd_token (hp_ready h)" using assms(5) False by auto
    show ?thesis
    proof (cases "slot_at (wk_slots w) ?at")
      case None
      then show ?thesis using assms(1,4) False by (simp add: on_event_def Let_def)
    next
      case (Some x)
      note slots = slot_at_change [OF Some] slot_at_discard [OF worker_okD(1) [OF assms(2)]] discard_change [OF Some]
      from assms(1) at(2) Some show ?thesis by (cases rule: on_event_conn) (use at(1) assms(4) in \<open>simp_all add: slots\<close>)
    qed
  qed
  then show ?thesis using worker_okD(2) [OF on_event_ok [OF assms(1,2,3)]] worker_okD(2) [OF assms(2,4)] by simp
qed

theorem clients_left_alone_witness:
  "\<exists>w' s'. on_event sample_env [TcpListener 3] (accept_one 0 5) with_one sample_server = Some (GoesOn, w', s') \<and>
    slot_at (wk_slots w') 0 = Some (client_new 4) \<and> wk_watched w' 4 = wk_watched with_one 4"
proof -
  obtain w' where e: "on_event sample_env [TcpListener 3] (accept_one 0 5) with_one sample_server = Some (GoesOn, w', sample_counted)"
    using counters_sample by (simp add: on_event_def accept_one_def put_slot_def with_one_def)
  have f: "fresh_fds (accept_one 0 5) with_one" by (simp add: fresh_fds_def accept_one_def with_one_def)
  have sl: "slot_at (wk_slots with_one) 0 = Some (client_new 4)" by (simp add: with_one_slot)
  have "rd_token (hp_ready (accept_one 0 5)) \<noteq> 0 + length [TcpListener 3]" by (simp add: accept_one_def)
  from clients_left_alone [OF e with_one_ok f sl this] e show ?thesis by auto
qed

text \<open>How many slots of the table an upkeep that comes this many nanoseconds after the last may look at.\<close>

definition slots_due :: "nat \<Rightarrow> nat" where
  "slots_due waited = SWEEP * min (waited div 1000000) SLICES"

lemma slots_due_bound: "slots_due waited \<le> 4096" "min (slots_due waited) usize_MAX = slots_due waited"
proof -
  have "min (waited div 1000000) SLICES \<le> SLICES" by simp
  then show le: "slots_due waited \<le> 4096" unfolding slots_due_def SWEEP_def SLICES_def by simp
  then show "min (slots_due waited) usize_MAX = slots_due waited" by (simp add: usize_MAX_def)
qed

text \<open>
  C22: The upkeep does nothing before its millisecond is over. Then it reads the clock and sweeps one
  slice of one shard: 256 slots for each millisecond since the last time, and never more than
  4096, however long the thread was away. At most that many entries are dropped, all of the shard
  whose turn it was, none that is not due by the new clock, and nothing is made up; a shard with no
  more slots than the slice is left with nothing that is due; and the turn passes to the next shard.
\<close>

theorem upkeep_drops_only_the_due:
  assumes "serving v m s"
  shows "returns (upkeep v now unix since s) (\<lambda>(since', s').
    if now - since < UPKEEP then since' = since \<and> s' = s
    else since' = now \<and> now_of s' = unix_now unix \<and>
      mp_sweep_shard (sv_map s') = (mp_sweep_shard (sv_map s) + 1) mod 2 ^ 64 \<and>
      (\<exists>m'. serving v m' s' \<and> m' \<subseteq>\<^sub>m m \<and> (\<forall>k. m' k = None \<longrightarrow> m k = None \<or> due (unix_now unix) m k) \<and>
        card (dom m) \<le> card (dom m') + slots_due (now - since) \<and> slots_due (now - since) \<le> 4096 \<and>
        (let i = mp_sweep_shard (sv_map s) mod length (mp_shards (sv_map s))
         in (\<forall>k. key_shard (sv_map s) k \<noteq> i \<longrightarrow> m' k = m k) \<and>
            (length (tb_slots (sh_table (mp_shards (sv_map s) ! i))) \<le> slots_due (now - since) \<longrightarrow>
               (\<forall>k. key_shard (sv_map s) k = i \<longrightarrow> \<not> due (unix_now unix) m' k)))))"
proof (cases "now - since < UPKEEP")
  case False
  let ?s = "s\<lparr> sv_map := (sv_map s)\<lparr> mp_clock := snd (clock_tick unix (mp_clock (sv_map s))) \<rparr> \<rparr>" and ?n = "slots_due (now - since)"
  let ?i = "mp_sweep_shard (sv_map s) mod length (mp_shards (sv_map s))"
  let ?Q = "\<lambda>m'. m' \<subseteq>\<^sub>m m \<and> (\<forall>k. m' k = None \<longrightarrow> m k = None \<or> due (unix_now unix) m k) \<and>
      card (dom m) \<le> card (dom m') + ?n \<and> (\<forall>k. key_shard (sv_map s) k \<noteq> ?i \<longrightarrow> m' k = m k) \<and>
      (length (tb_slots (sh_table (mp_shards (sv_map s) ! ?i))) \<le> ?n \<longrightarrow> (\<forall>k. key_shard (sv_map s) k = ?i \<longrightarrow> \<not> due (unix_now unix) m' k))"
  have now: "now_of ?s = unix_now unix" by (simp add: clock_tick_def Let_def clock_now_def)
  have shard: "key_shard (sv_map ?s) k = key_shard (sv_map s) k" for k by (simp add: shard_of_def)
  have inv: "map_inv (host_platform (de_host v)) (host_target (de_host v)) (sv_map ?s) m" and th: "de_thread v < length (per (sv_stats ?s))"
    using assms by (simp_all add: serving_def map_inv_clock)
  have post: "?Q m'" if "map_swept (sv_map ?s) m removed m'" "swept_slice (sv_map ?s) ?n m removed m'" for removed m'
    using that now shard unfolding map_swept_def swept_slice_def Let_def by auto
  have "returns (on_map v (\<lambda>ev Mp. map_sweep ev Mp ?n) ?s) (\<lambda>(removed, s'). now_of s' = unix_now unix \<and>
      mp_sweep_shard (sv_map s') = (mp_sweep_shard (sv_map s) + 1) mod 2 ^ 64 \<and> (\<exists>m'. serving v m' s' \<and> ?Q m'))"
    unfolding returns_on_map
  proof (rule returns_mono [OF map_sweep_spec [where m = m and budget = ?n]], goal_cases)
    case 1
    show ?case using inv by simp
  next
    case (2 r)
    obtain removed Mp' m' where r: "r = (removed, Mp')" and m': "map_inv (host_platform (de_host v)) (host_target (de_host v)) Mp' m'"
        "map_swept (sv_map ?s) m removed m'" "swept_slice (sv_map ?s) ?n m removed m'"
      and same: "mp_clock Mp' = mp_clock (sv_map ?s)" "mp_sweep_shard Mp' = (mp_sweep_shard (sv_map s) + 1) mod 2 ^ 64"
      using 2 by auto
    have "serving v m' (?s\<lparr> sv_map := Mp', sv_calls := sv_calls ?s + 1 \<rparr>)" using m'(1) th by (simp add: serving_def)
    then have "\<exists>m'. serving v m' (?s\<lparr> sv_map := Mp', sv_calls := sv_calls ?s + 1 \<rparr>) \<and> ?Q m'" using post [OF m'(2,3)] by (rule_tac exI, rule_tac conjI)
    then show ?case using now same unfolding r prod.case by simp
  qed
  then obtain removed s' where s': "on_map v (\<lambda>ev Mp. map_sweep ev Mp ?n) ?s = Some (removed, s')" "now_of s' = unix_now unix"
      "mp_sweep_shard (sv_map s') = (mp_sweep_shard (sv_map s) + 1) mod 2 ^ 64" "\<exists>m'. serving v m' s' \<and> ?Q m'"
    unfolding returns_def by (auto simp only: split_paired_Ex prod.case intro: that)
  have "upkeep v now unix since s = Some (now, s')"
    using False s'(1) slots_due_bound(2) [of "now - since"] by (simp add: upkeep_def Let_def slots_due_def)
  then show ?thesis using False s'(2-4) slots_due_bound(1) [of "now - since"] by (simp add: Let_def)
qed (simp add: upkeep_def Let_def)

theorem upkeep_drops_only_the_due_witness:
  "returns (upkeep sample_env (5 * UPKEEP) (Some 200) 7 sample_server) (\<lambda>(since', s').
    if 5 * UPKEEP - 7 < UPKEEP then since' = 7 \<and> s' = sample_server
    else since' = 5 * UPKEEP \<and> now_of s' = unix_now (Some 200) \<and>
      mp_sweep_shard (sv_map s') = (mp_sweep_shard (sv_map sample_server) + 1) mod 2 ^ 64 \<and>
      (\<exists>m'. serving sample_env m' s' \<and> m' \<subseteq>\<^sub>m Map.empty \<and>
        (\<forall>k. m' k = None \<longrightarrow> (Map.empty :: cache) k = None \<or> due (unix_now (Some 200)) Map.empty k) \<and>
        card (dom (Map.empty :: cache)) \<le> card (dom m') + slots_due (5 * UPKEEP - 7) \<and> slots_due (5 * UPKEEP - 7) \<le> 4096 \<and>
        (let i = mp_sweep_shard (sv_map sample_server) mod length (mp_shards (sv_map sample_server))
         in (\<forall>k. key_shard (sv_map sample_server) k \<noteq> i \<longrightarrow> m' k = Map.empty k) \<and>
            (length (tb_slots (sh_table (mp_shards (sv_map sample_server) ! i))) \<le> slots_due (5 * UPKEEP - 7) \<longrightarrow>
               (\<forall>k. key_shard (sv_map sample_server) k = i \<longrightarrow> \<not> due (unix_now (Some 200)) m' k)))))"
  by (rule upkeep_drops_only_the_due [OF sample_serving])

section \<open>Connections that are closed and should not be\<close>

lemma gone_event:
  assumes "worker_ok ls w" "slot_at (wk_slots w) at = Some cl" "rd_gone (hp_ready h)" "rd_token (hp_ready h) = at + length ls"
  shows "on_event v ls h w s = Some (GoesOn, w\<lparr> wk_slots := discard at (wk_slots w), wk_watched := (wk_watched w)(cl_fd cl := None) \<rparr>, s)"
proof -
  have "slot_at (change_slot at cl (wk_slots w)) at = Some cl" using slot_at_change [OF assms(2)] by simp
  from empty_slot_eq [OF this] show ?thesis using assms(2-4) by (simp add: on_event_def Let_def discard_change [OF assms(2)])
qed

lemma kqueue_gone: "bits AND EV_EOF f \<noteq> 0 \<Longrightarrow> rd_gone (kqueue_ready f filt bits token)"
  by (simp add: kqueue_ready_def bit.conj_disj_distrib or_eq_0_iff)

text \<open>
  C25: A client of a thread on \<^verbatim>\<open>kqueue\<close> that sends its commands and shuts down its writing half is never
  answered: the kernel reports the bytes and the end of the stream in one event, the loop takes the
  end as a reason to close, and what was sent is not read.
\<close>

theorem half_closed_is_dropped:
  assumes "worker_ok ls w" "slot_at (wk_slots w) at = Some cl" "bits AND EV_EOF f \<noteq> 0"
    and "hp_ready h = kqueue_ready f (EVFILT_READ f) bits (at + length ls)"
  shows "rd_read (hp_ready h) \<and> (\<exists>w'. on_event v ls h w s = Some (GoesOn, w', s) \<and> slot_at (wk_slots w') at = None)"
proof -
  have "rd_gone (hp_ready h)" "rd_token (hp_ready h) = at + length ls" "rd_read (hp_ready h)"
    using kqueue_gone [OF assms(3)] assms(4) by (simp_all add: kqueue_ready_def)
  then show ?thesis using gone_event [OF assms(1,2)] slot_at_discard [OF worker_okD(1) [OF assms(1)]] by simp
qed

definition some_kqueue :: KqueueFlags where
  "some_kqueue = \<lparr> EVFILT_READ = - 1, EVFILT_WRITE = - 2, EV_EOF = 0x8000, EV_ERROR = 0x4000 \<rparr>"

definition ends :: "int \<Rightarrow> nat \<Rightarrow> Happening" where
  "ends filt token = \<lparr> hp_ready = kqueue_ready some_kqueue filt 0x8000 token, hp_accepts = [], hp_reads = [Arrives (ascii ''PING'' @ [CR, NL])],
     hp_writes = [], hp_grants = True \<rparr>"

lemma some_eof: "0x8000 AND EV_EOF some_kqueue \<noteq> 0"
  by (simp add: some_kqueue_def)

theorem half_closed_is_dropped_witness:
  "\<exists>w'. on_event sample_env [TcpListener 3] (ends (EVFILT_READ some_kqueue) 1) with_one sample_server = Some (GoesOn, w', sample_server) \<and>
    slot_at (wk_slots w') 0 = None"
  using half_closed_is_dropped [OF with_one_ok _ some_eof, of 0 "client_new 4" "ends (EVFILT_READ some_kqueue) 1"]
  by (simp add: with_one_slot ends_def)

text \<open>The slot freed last is the slot taken next.\<close>

lemma put_after_discard: "slots_ok S \<Longrightarrow> slot_at S at = Some x \<Longrightarrow> put_slot y (discard at S) = Some (at, change_slot at y S)"
  using slot_at_SomeD [of S at x] by (simp add: put_slot_def discard_def change_slot_def set_idx_def)

text \<open>
  C26: A connection can be closed by an event that was meant for the one before it. The two filters of a
  socket on \<^verbatim>\<open>kqueue\<close> are two events of one batch; when the first of them frees the slot and an accept
  later in the batch takes it again, the second is delivered to the newcomer, which is closed before
  anything it sent was read.
\<close>

theorem stale_event_closes_newcomer:
  assumes "worker_ok ls w" "slot_at (wk_slots w) at = Some cl" "serving v m s" "ls \<noteq> []" "wk_watched w fd = None"
    and "bits1 AND EV_EOF f \<noteq> 0" "hp_ready h1 = kqueue_ready f (EVFILT_READ f) bits1 (at + length ls)"
    and "rd_token (hp_ready h2) = 0" "hp_accepts h2 = [Accepted fd True]" "hp_grants h2"
    and "bits2 AND EV_EOF f \<noteq> 0" "hp_ready h3 = kqueue_ready f (EVFILT_WRITE f) bits2 (at + length ls)"
  shows "\<exists>w2 w3 s'. on_events v ls [h1, h2] w s = Some (GoesOn, w2, s') \<and> slot_at (wk_slots w2) at = Some (client_new fd) \<and>
    on_events v ls [h1, h2, h3] w s = Some (GoesOn, w3, s') \<and> slot_at (wk_slots w3) at = None \<and> wk_watched w3 fd = None"
proof -
  let ?w1 = "w\<lparr> wk_slots := discard at (wk_slots w), wk_watched := (wk_watched w)(cl_fd cl := None) \<rparr>"
  let ?S = "change_slot at (client_new fd) (wk_slots w)"
  let ?w2 = "?w1\<lparr> wk_slots := ?S, wk_watched := (wk_watched ?w1)(fd \<mapsto> (at + length ls, READ)) \<rparr>"
  note ok = worker_okD(1) [OF assms(1)]
  obtain s' where s': "counters v connection_made s = Some s'" using counters_spec [OF assms(3)] by blast
  have e1: "on_event v ls h1 w s = Some (GoesOn, ?w1, s)"
    by (rule gone_event [OF assms(1,2)]) (use kqueue_gone [OF assms(6)] assms(7) in \<open>simp_all add: kqueue_ready_def\<close>)
  have e2: "on_event v ls h2 ?w1 s = Some (GoesOn, ?w2, s')"
    using assms(4,8-10) s' by (simp add: on_event_def Let_def put_after_discard [OF ok assms(2)])
  have ok2: "worker_ok ls ?w2"
    by (rule on_event_ok [OF e2 worker_ok_empty [OF assms(1,2)]]) (use assms(5,9) in \<open>simp add: fresh_fds_def\<close>)
  have sl: "slot_at (wk_slots ?w2) at = Some (client_new fd)" using slot_at_change [OF assms(2)] by simp
  have e3: "on_event v ls h3 ?w2 s' = Some (GoesOn, ?w2\<lparr> wk_slots := discard at ?S, wk_watched := (wk_watched ?w2)(fd := None) \<rparr>, s')"
    using gone_event [OF ok2 sl, of h3] kqueue_gone [OF assms(11)] assms(12) by (simp add: kqueue_ready_def)
  have "slot_at (discard at ?S) at = None" using slot_at_discard [OF worker_okD(1) [OF ok2]] by simp
  then show ?thesis using e1 e2 e3 sl by simp
qed

theorem stale_event_closes_newcomer_witness:
  "\<exists>w3 s'. on_events sample_env [TcpListener 3] [ends (EVFILT_READ some_kqueue) 1, accept_one 0 5, ends (EVFILT_WRITE some_kqueue) 1] with_one sample_server =
      Some (GoesOn, w3, s') \<and> slot_at (wk_slots w3) 0 = None \<and> wk_watched w3 5 = None"
proof -
  have sl: "slot_at (wk_slots with_one) 0 = Some (client_new 4)" by (simp add: with_one_slot)
  have "wk_watched with_one 5 = None" by (simp add: with_one_def)
  from stale_event_closes_newcomer [OF with_one_ok sl sample_serving _ this some_eof _ _ _ _ some_eof,
      of "ends (EVFILT_READ some_kqueue) 1" "accept_one 0 5" "ends (EVFILT_WRITE some_kqueue) 1"]
  show ?thesis by (simp add: ends_def accept_one_def) blast
qed

end
