(* ===== verification/Rugo_Ring.thy ===== *)
theory Rugo_Ring
  imports Rugo_Worker
begin

text \<open>
  A serving thread on a ring, \<^verbatim>\<open>crates/rugo-server/src/uring.rs\<close>: the tokens of its submissions, the
  submissions themselves, taking a connection, carrying a read or a write, and the loop over the
  completions.

  The ring is what has been submitted and has not completed: user data and operation. An address is
  an offset into the buffer of the connection the operation is for. Whether the queue has room for a
  submission, and whether it can be handed to the kernel when it has not, is given in order, one pair
  for every attempt; past the end of the list there is room.
\<close>

unbundle bit_operations_syntax

section \<open>Tokens\<close>

definition SHIFT :: nat where "SHIFT = 62"
definition ACCEPT :: u64 where "ACCEPT = push_bit SHIFT 0"
definition RECV :: u64 where "RECV = push_bit SHIFT 1"
definition SEND :: u64 where "SEND = push_bit SHIFT 2"
definition TICK :: u64 where "TICK = push_bit SHIFT 3"
definition INDEX :: u64 where "INDEX = push_bit SHIFT 1 - 1"

definition ring_token :: "u64 \<Rightarrow> nat \<Rightarrow> u64" where
  "ring_token kind index = kind OR ((if index < 2 ^ 64 then of_nat index else INDEX) AND INDEX)"

section \<open>Submissions\<close>

datatype Op = OpAccept nat | OpRecv nat nat nat | OpSend nat nat nat | OpTimeout

type_synonym flight = "u64 \<times> Op"

fun try_put :: "nat \<Rightarrow> (bool \<times> bool) list \<Rightarrow> flight \<Rightarrow> flight list \<Rightarrow> bool \<times> flight list" where
  "try_put 0 room e ring = (False, ring)"
| "try_put (Suc n) [] e ring = (True, e # ring)"
| "try_put (Suc n) ((put, flushed) # room) e ring =
     (if put then (True, e # ring)
      else if \<not> flushed then (False, ring)
      else try_put n room e ring)"

definition submit :: "(bool \<times> bool) list \<Rightarrow> nat \<Rightarrow> Step \<Rightarrow> nat \<Rightarrow> flight list \<Rightarrow> bool \<times> flight list" where
  "submit room fd st index ring =
     (case st of
        Recv at len \<Rightarrow> try_put 2 room (ring_token RECV index, OpRecv fd at len) ring
      | Send at len \<Rightarrow> try_put 2 room (ring_token SEND index, OpSend fd at len) ring
      | StepClose \<Rightarrow> (True, ring))"

definition arm_accept :: "(bool \<times> bool) list \<Rightarrow> nat \<Rightarrow> u64 \<Rightarrow> flight list \<Rightarrow> bool \<times> flight list" where
  "arm_accept room fd user_data ring = try_put 2 room (user_data, OpAccept fd) ring"

definition arm_tick :: "(bool \<times> bool) list \<Rightarrow> flight list \<Rightarrow> bool \<times> flight list" where
  "arm_tick room ring = try_put 2 room (TICK, OpTimeout) ring"

section \<open>State and completions\<close>

record RingWorker =
  rw_slots :: "Client Slots"
  rw_ring :: "flight list"
  rw_since :: nat

text \<open>
  A completion, with what the kernel and the socket answer while it is handled: whether an error of an
  accept is one of the ordinary ones, whether the socket could be prepared, and the room in the queue
  for re-arming an accept or the tick and for the connection's own submission.
\<close>

record Done =
  dn_user :: u64
  dn_res :: int
  dn_ordinary :: bool
  dn_prepared :: bool
  dn_rearm :: "(bool \<times> bool) list"
  dn_room :: "(bool \<times> bool) list"

definition ended :: "bool \<Rightarrow> Fate" where
  "ended ok = (if ok then GoesOn else IoFailed)"

definition took :: "DispatchEnv \<Rightarrow> Listener list \<Rightarrow> nat \<Rightarrow> Done \<Rightarrow> RingWorker \<Rightarrow> Server \<Rightarrow> (Fate \<times> RingWorker \<times> Server) option" where
  "took v ls listener d w s =
     (if \<not> listener < length ls then Some (GoesOn, w, s)
      else let which = ls ! listener;
               (armed, ring) = arm_accept (dn_rearm d) (listener_fd which) (ring_token ACCEPT listener) (rw_ring w)
      in if dn_res d < 0 then
           (if dn_ordinary d then Some (ended armed, w\<lparr> rw_ring := ring \<rparr>, s) else Some (IoFailed, w, s))
         else let w = w\<lparr> rw_ring := ring \<rparr>
         in if \<not> armed then Some (IoFailed, w, s)
         else if \<not> dn_prepared d then Some (GoesOn, w, s)
         else let conn = client_new (nat (dn_res d))
         in do {
           (st, c, s) \<leftarrow> step v (cl_conn conn) s;
           (case st of
              None \<Rightarrow> Some (ProcessEnded, w, s)
            | Some st \<Rightarrow> do {
                (at, S) \<leftarrow> put_slot (conn\<lparr> cl_conn := c \<rparr>) (rw_slots w);
                let (put, ring) = submit (dn_room d) (cl_fd conn) st at (rw_ring w);
                if \<not> put then Some (IoFailed, w\<lparr> rw_slots := discard at S, rw_ring := ring \<rparr>, s)
                else do {
                  s \<leftarrow> counters v connection_made s;
                  Some (GoesOn, w\<lparr> rw_slots := S, rw_ring := ring \<rparr>, s) } }) })"

definition carried :: "DispatchEnv \<Rightarrow> nat \<Rightarrow> Done \<Rightarrow> RingWorker \<Rightarrow> Server \<Rightarrow> (Fate \<times> RingWorker \<times> Server) option" where
  "carried v at d w s =
     (if dn_res d \<le> 0 then Some (GoesOn, w\<lparr> rw_slots := discard at (rw_slots w) \<rparr>, s)
      else case slot_at (rw_slots w) at of
        None \<Rightarrow> Some (GoesOn, w, s)
      | Some cl \<Rightarrow> do {
          let bytes = nat (dn_res d);
          let c = (if owes (cl_conn cl) then written bytes (cl_conn cl) else arrived bytes (cl_conn cl));
          (st, c, s) \<leftarrow> step v c s;
          let w = w\<lparr> rw_slots := change_slot at (cl\<lparr> cl_conn := c \<rparr>) (rw_slots w) \<rparr>;
          (case st of
             None \<Rightarrow> Some (ProcessEnded, w, s)
           | Some StepClose \<Rightarrow> Some (GoesOn, w\<lparr> rw_slots := discard at (rw_slots w) \<rparr>, s)
           | Some st \<Rightarrow>
               let (put, ring) = submit (dn_room d) (cl_fd cl) st at (rw_ring w)
               in if put then Some (GoesOn, w\<lparr> rw_ring := ring \<rparr>, s)
                  else Some (IoFailed, w\<lparr> rw_slots := discard at (rw_slots w), rw_ring := ring \<rparr>, s)) })"

section \<open>The loop\<close>

definition on_done :: "DispatchEnv \<Rightarrow> Listener list \<Rightarrow> Done \<Rightarrow> RingWorker \<Rightarrow> Server \<Rightarrow> (Fate \<times> RingWorker \<times> Server) option" where
  "on_done v ls d w s =
     (let at = unat (dn_user d AND INDEX); kind = dn_user d AND NOT INDEX
      in if kind = ACCEPT then took v ls at d w s
         else if kind = RECV \<or> kind = SEND then carried v at d w s
         else let (armed, ring) = arm_tick (dn_rearm d) (rw_ring w)
         in Some (ended armed, w\<lparr> rw_ring := ring \<rparr>, s))"

text \<open>Before the loop, an accept for every listener and the tick; the answer says whether all could be armed.\<close>

fun arm_listeners :: "nat \<Rightarrow> (Listener \<times> (bool \<times> bool) list) list \<Rightarrow> flight list \<Rightarrow> bool \<times> flight list" where
  "arm_listeners at [] ring = (True, ring)"
| "arm_listeners at ((l, room) # ls) ring =
     (let (armed, ring) = arm_accept room (listener_fd l) (ring_token ACCEPT at) ring
      in if armed then arm_listeners (at + 1) ls ring else (False, ring))"

definition ring_start :: "(Listener \<times> (bool \<times> bool) list) list \<Rightarrow> (bool \<times> bool) list \<Rightarrow> nat \<Rightarrow> bool \<times> RingWorker" where
  "ring_start ls room now =
     (let (armed, ring) = arm_listeners 0 ls []
      in if \<not> armed then (False, \<lparr> rw_slots = slots_new, rw_ring = ring, rw_since = now \<rparr>)
      else let (armed, ring) = arm_tick room ring
      in (armed, \<lparr> rw_slots = slots_new, rw_ring = ring, rw_since = now \<rparr>))"

end
