(* ===== verification/Rugo_Flights.thy ===== *)
theory Rugo_Flights
  imports Rugo_Ring Rugo_Wire "HOL-Library.Multiset"
begin

text \<open>
  The properties of a serving thread on a ring. The kernel completes operations whenever it likes and in
  any order, and the thread handles the completions one by one; throughout, every connection has
  exactly one operation outstanding, the one its own state names, so the kernel only ever writes where
  nothing else does.
\<close>

unbundle bit_operations_syntax

section \<open>Tokens decode\<close>

lemma kinds:
  "ACCEPT = 0" "RECV = 0x4000000000000000" "SEND = 0x8000000000000000" "TICK = 0xC000000000000000" "INDEX = 0x3FFFFFFFFFFFFFFF"
  by (simp_all add: ACCEPT_def RECV_def SEND_def TICK_def INDEX_def SHIFT_def)

lemma INDEX_mask: "INDEX = mask 62"
  by (simp add: kinds mask_eq_exp_minus_1)

lemma token_decodes:
  assumes "i < 2 ^ 62" "kind \<in> {ACCEPT, RECV, SEND, TICK}"
  shows "ring_token kind i AND NOT INDEX = kind" "unat (ring_token kind i AND INDEX) = i"
proof -
  let ?w = "of_nat i :: u64"
  have w: "?w AND INDEX = ?w" unfolding INDEX_mask take_bit_eq_mask [symmetric]
    using assms(1) by (simp add: take_bit_of_nat take_bit_nat_eq_self)
  have k: "kind AND INDEX = 0" "kind AND NOT INDEX = kind" using assms(2) by (auto simp: kinds)
  have t: "ring_token kind i = kind OR ?w" using assms(1) w by (simp add: ring_token_def)
  have "?w AND NOT INDEX = 0" by (metis w and.assoc bit.conj_cancel_right and_zero_eq)
  then show "ring_token kind i AND NOT INDEX = kind" unfolding t by (simp add: bit.conj_disj_distrib2 k(2))
  have "ring_token kind i AND INDEX = ?w" unfolding t by (simp add: bit.conj_disj_distrib2 k(1) w)
  then show "unat (ring_token kind i AND INDEX) = i" using assms(1) by (simp add: unat_of_nat take_bit_nat_eq_self)
qed

text \<open>Who an operation is for.\<close>

datatype Owner = ListenerOp nat | SlotOp nat | ClockOp

definition owner :: "u64 \<Rightarrow> Owner" where
  "owner u = (let at = unat (u AND INDEX); kind = u AND NOT INDEX
     in if kind = ACCEPT then ListenerOp at else if kind = RECV \<or> kind = SEND then SlotOp at else ClockOp)"

lemma owner_token:
  assumes "i < 2 ^ 62"
  shows "owner (ring_token ACCEPT i) = ListenerOp i" "owner (ring_token RECV i) = SlotOp i" "owner (ring_token SEND i) = SlotOp i"
  using token_decodes [OF assms] by (simp_all add: owner_def Let_def) (simp_all add: kinds)

lemma owner_tick [simp]: "owner TICK = ClockOp"
  by (simp add: owner_def kinds)

section \<open>What is outstanding\<close>

definition flights :: "flight multiset \<Rightarrow> Owner \<Rightarrow> flight multiset" where
  "flights P x = filter_mset (\<lambda>e. owner (fst e) = x) P"

lemma flights_add [simp]: "flights (add_mset e P) x = (if owner (fst e) = x then add_mset e (flights P x) else flights P x)"
  by (simp add: flights_def)

lemma flights_empty [simp]: "flights {#} x = {#}"
  by (simp add: flights_def)

lemma flights_only:
  assumes "flights (add_mset e P) (owner (fst e)) = {#e'#}"
  shows "e' = e" "flights P x = (if x = owner (fst e) then {#} else flights (add_mset e P) x)"
  using assms by auto

text \<open>The operation a connection's own state names.\<close>

definition wanted :: "nat \<Rightarrow> Client \<Rightarrow> flight" where
  "wanted i x = (let c = cl_conn x
     in if owes c then (ring_token SEND i, OpSend (cl_fd x) (co_sent c) (length (co_out c) - co_sent c))
        else (ring_token RECV i, OpRecv (cl_fd x) (co_filled c) (length (co_buf c) - co_filled c)))"

definition expected :: "Listener list \<Rightarrow> Client Slots \<Rightarrow> Owner \<Rightarrow> flight multiset" where
  "expected ls S x =
     (case x of
        ListenerOp l \<Rightarrow> if l < length ls then {#(ring_token ACCEPT l, OpAccept (listener_fd (ls ! l)))#} else {#}
      | SlotOp i \<Rightarrow> (case slot_at S i of None \<Rightarrow> {#} | Some x \<Rightarrow> {#wanted i x#})
      | ClockOp \<Rightarrow> {#(TICK, OpTimeout)#})"

lemma expected_slot:
  assumes "\<And>i. slot_at S' i = (if i = at then X else slot_at S i)"
  shows "expected ls S' x = (if x = SlotOp at then (case X of None \<Rightarrow> {#} | Some y \<Rightarrow> {#wanted at y#}) else expected ls S x)"
  using assms by (simp add: expected_def split: Owner.split)

lemma owner_wanted: "i < 2 ^ 62 \<Longrightarrow> owner (fst (wanted i x)) = SlotOp i"
  by (simp add: wanted_def Let_def owner_token)

text \<open>A step asks for what the state it leaves names.\<close>

lemma step_wanted:
  assumes "step v c s = Some (Some st, c', s')" "st \<noteq> StepClose" "input_ok c"
  shows "st = (if owes c' then Send (co_sent c') (length (co_out c') - co_sent c') else Recv (co_filled c') (length (co_buf c') - co_filled c'))"
proof (cases "owes c")
  case True
  then show ?thesis using assms(1) step_owes [OF True, of v s] by auto
next
  case False
  let ?c = "c\<lparr> co_out := [], co_sent := 0 \<rparr>"
  obtain x c1 s1 where e: "(if co_at ?c < co_filled ?c then execute v ?c s else Some (False, ?c, s)) = Some (x, c1, s1)"
    using assms(1,2) unfolding step_eq [OF False] Let_def by (auto simp: bind_eq_Some_conv split: if_splits)
  have sent: "co_sent c1 = 0" using e execute_sent [of v ?c s x c1 s1] by (auto split: if_splits)
  show ?thesis
  proof (cases "co_out c1 = []")
    case False
    then show ?thesis using assms(1,2) e sent unfolding step_eq [OF \<open>\<not> owes c\<close>] Let_def by (auto simp: owes_def split: if_splits)
  next
    case True
    then obtain c2 free where r: "make_room c1 = Some (True, c')" "usub (length (co_buf c')) (co_filled c') = Some free" "st = Recv (co_filled c') free"
      using assms(1,2) e sent unfolding step_eq [OF \<open>\<not> owes c\<close>] Let_def by (auto simp: bind_eq_Some_conv split: if_splits)
    have "co_out c' = co_out c1" using r(1) by (auto simp: make_room_def bind_eq_Some_conv Let_def split: if_splits)
    then show ?thesis using True r(2,3) by (auto simp: owes_def usub_def split: if_splits)
  qed
qed

lemma step_new: "step v conn_new s = Some (Some (Recv 0 CHUNK), conn_new, s)"
proof -
  have no: "\<not> owes conn_new" by (simp add: owes_def conn_new_def)
  show ?thesis unfolding step_eq [OF no] Let_def by (simp add: conn_new_def make_room_def usub_def SPARE_def CHUNK_def)
qed

lemma try_put_spec: "try_put n room e ring = (put, ring') \<Longrightarrow> ring' = (if put then e # ring else ring)"
  by (induction n room e ring rule: try_put.induct) (auto split: if_splits)

lemma submit_wanted:
  assumes "step v c s = Some (Some st, c', s')" "st \<noteq> StepClose" "input_ok c" "submit room (cl_fd x) st i ring = (True, ring')"
  shows "ring' = wanted i (x\<lparr> cl_conn := c' \<rparr>) # ring"
  using step_wanted [OF assms(1-3)] assms(2,4) by (auto simp: submit_def wanted_def Let_def dest: try_put_spec split: if_splits)

section \<open>Descriptors\<close>

text \<open>
  The connections and the descriptors that have been accepted and not yet taken up: descriptors are
  31-bit numbers and no two are the same, so there are never more slots than tokens can name.
\<close>

definition fds_held :: "Client Slots \<Rightarrow> nat list \<Rightarrow> bool" where
  "fds_held S acc \<longleftrightarrow> slots_ok S \<and> length (sl_conns S) \<le> 2 ^ 31 \<and>
     (\<forall>i x. slot_at S i = Some x \<longrightarrow> cl_fd x < 2 ^ 31 \<and> input_ok (cl_conn x) \<and> cl_fd x \<notin> set acc) \<and>
     (\<forall>i j x y. slot_at S i = Some x \<longrightarrow> slot_at S j = Some y \<longrightarrow> cl_fd x = cl_fd y \<longrightarrow> i = j) \<and>
     distinct acc \<and> (\<forall>fd\<in>set acc. fd < 2 ^ 31)"

lemma fds_heldD:
  assumes "fds_held S acc"
  shows "slots_ok S" "length (sl_conns S) \<le> 2 ^ 31" "slot_at S i = Some x \<Longrightarrow> cl_fd x < 2 ^ 31" "slot_at S i = Some x \<Longrightarrow> input_ok (cl_conn x)"
    "slot_at S i = Some x \<Longrightarrow> cl_fd x \<notin> set acc" "slot_at S i = Some x \<Longrightarrow> slot_at S j = Some y \<Longrightarrow> cl_fd x = cl_fd y \<Longrightarrow> i = j"
    "distinct acc" "fd \<in> set acc \<Longrightarrow> fd < 2 ^ 31"
  using assms unfolding fds_held_def by blast+

lemma fds_held_slot: "fds_held S acc \<Longrightarrow> slot_at S i = Some x \<Longrightarrow> i < 2 ^ 31"
  using fds_heldD(2) [of S acc] by (auto dest!: slot_at_SomeD)

lemma fds_held_new: "fds_held slots_new []"
  using slots_ok_new by (simp add: fds_held_def) (simp add: slots_new_def)

lemma fds_held_change:
  assumes "fds_held S acc" "slot_at S i = Some x" "cl_fd y = cl_fd x" "input_ok (cl_conn y)"
  shows "fds_held (change_slot i y S) acc"
proof -
  note d = fds_heldD [OF assms(1)] and sl = slot_at_change [OF assms(2)]
  have "slots_ok (change_slot i y S)" by (rule slots_ok_change [OF d(1) assms(2)])
  moreover have "length (sl_conns (change_slot i y S)) \<le> 2 ^ 31" using d(2) by (simp add: change_slot_def)
  moreover have "cl_fd z < 2 ^ 31 \<and> input_ok (cl_conn z) \<and> cl_fd z \<notin> set acc" if "slot_at (change_slot i y S) j = Some z" for j z
    using that d(3,4,5) assms(2,3,4) by (cases "j = i") (auto simp: sl)
  moreover have "j = k" if "slot_at (change_slot i y S) j = Some z" "slot_at (change_slot i y S) k = Some u" "cl_fd z = cl_fd u" for j k z u
    using that d(6) assms(2,3) by (auto simp: sl split: if_splits)
  ultimately show ?thesis unfolding fds_held_def using d(7,8) by blast
qed

lemma fds_held_discard:
  assumes "fds_held S acc"
  shows "fds_held (discard i S) acc"
proof -
  note d = fds_heldD [OF assms] and sl = slot_at_discard [OF fds_heldD(1) [OF assms]]
  have "j = k" if "slot_at (discard i S) j = Some z" "slot_at (discard i S) k = Some u" "cl_fd z = cl_fd u" for j k z u
    using that d(6) by (auto simp: sl split: if_splits)
  moreover have "cl_fd z < 2 ^ 31 \<and> input_ok (cl_conn z) \<and> cl_fd z \<notin> set acc" if "slot_at (discard i S) j = Some z" for j z
    using that d(3,4,5) by (auto simp: sl split: if_splits)
  ultimately show ?thesis unfolding fds_held_def using discard_ok [OF d(1)] d(2,7,8) by auto
qed

lemma fds_held_put:
  assumes "fds_held S (fd # acc)" "put_slot y S = Some (at, S')" "cl_fd y = fd" "input_ok (cl_conn y)"
  shows "fds_held S' acc"
proof -
  note d = fds_heldD [OF assms(1)]
  have S': "slots_ok S'" "slot_at S at = None" and sl: "slot_at S' i = (if i = at then Some y else slot_at S i)"
    and len: "sl_free S = [] \<and> at = length (sl_conns S) \<and> length (sl_conns S') = Suc (length (sl_conns S)) \<or>
      sl_free S \<noteq> [] \<and> length (sl_conns S') = length (sl_conns S)" for i
    using put_slot_spec [OF d(1), of y] assms(2) by auto
  have fds: "cl_fd z < 2 ^ 31 \<and> input_ok (cl_conn z) \<and> cl_fd z \<notin> set acc" if "slot_at S' j = Some z" for j z
    using that d(3,4,5,7) d(8) [of fd] assms(3,4) by (auto simp: sl split: if_splits)
  have inj: "j = k" if "slot_at S' j = Some z" "slot_at S' k = Some u" "cl_fd z = cl_fd u" for j k z u
    using that d(5) [of j z] d(5) [of k u] d(6) assms(3) by (auto simp: sl split: if_splits)
  have "length (sl_conns S') \<le> 2 ^ 31"
  proof (cases "sl_free S = []")
    case True
    then have "sl_free S' = []" using assms(2) by (auto simp: put_slot_def)
    from slots_bounded [OF S'(1) this, of cl_fd] fds inj show ?thesis by blast
  qed (use len d(2) in simp)
  then show ?thesis unfolding fds_held_def using S'(1) fds inj d(7,8) by auto
qed

lemma fds_held_accept: "fds_held S acc \<Longrightarrow> fd < 2 ^ 31 \<Longrightarrow> fd \<notin> set acc \<Longrightarrow> (\<And>i x. slot_at S i = Some x \<Longrightarrow> cl_fd x \<noteq> fd) \<Longrightarrow> fds_held S (acc @ [fd])"
  by (auto simp: fds_held_def)

lemma fds_held_drop: "fds_held S (fd # acc) \<Longrightarrow> fds_held S acc"
  by (auto simp: fds_held_def)

section \<open>The kernel and the thread\<close>

text \<open>
  A completion the thread has not handled yet is an operation and its result. A read or a write never
  carries more than it was asked to, and a read has put its bytes at the offset it was given.
\<close>

fun fits :: "flight \<Rightarrow> int \<Rightarrow> bool" where
  "fits (u, OpRecv fd at len) res = (res \<le> int len)"
| "fits (u, OpSend fd at len) res = (res \<le> int len)"
| "fits (u, op) res = True"

fun is_accept :: "flight \<Rightarrow> bool" where
  "is_accept (u, OpAccept fd) = True"
| "is_accept (u, op) = False"

definition accepted :: "(flight \<times> int) list \<Rightarrow> nat list" where
  "accepted cq = map (nat \<circ> snd) (filter (\<lambda>(e, res). is_accept e \<and> 0 \<le> res) cq)"

fun put_bytes :: "flight \<Rightarrow> bytes \<Rightarrow> Client Slots \<Rightarrow> Client Slots" where
  "put_bytes (u, OpRecv fd at len) bs S =
     (case owner u of
        SlotOp i \<Rightarrow> (case slot_at S i of
            Some x \<Rightarrow> change_slot i (x\<lparr> cl_conn := (cl_conn x)\<lparr> co_buf := splice (co_buf (cl_conn x)) at bs \<rparr> \<rparr>) S
          | None \<Rightarrow> S)
      | _ \<Rightarrow> S)"
| "put_bytes e bs S = S"

text \<open>The kernel completes an operation, the thread handles a completion, or it keeps up.\<close>

inductive ring_moves :: "DispatchEnv \<Rightarrow> Listener list \<Rightarrow> RingWorker \<times> (flight \<times> int) list \<times> Server \<Rightarrow>
    RingWorker \<times> (flight \<times> int) list \<times> Server \<Rightarrow> bool" for v ls where
  completes: "e \<in> set (rw_ring w) \<Longrightarrow> fits e res \<Longrightarrow> length bs = nat res \<Longrightarrow>
    (is_accept e \<and> 0 \<le> res \<Longrightarrow> res < 2 ^ 31 \<and> nat res \<notin> set (accepted cq) \<and> (\<forall>i x. slot_at (rw_slots w) i = Some x \<longrightarrow> cl_fd x \<noteq> nat res)) \<Longrightarrow>
    ring_moves v ls (w, cq, s) (w\<lparr> rw_ring := remove1 e (rw_ring w), rw_slots := put_bytes e bs (rw_slots w) \<rparr>, cq @ [(e, res)], s)"
| handles: "on_done v ls d w s = Some (GoesOn, w', s') \<Longrightarrow> dn_user d = fst e \<Longrightarrow> dn_res d = res \<Longrightarrow>
    ring_moves v ls (w, (e, res) # cq, s) (w', cq, s')"
| ring_keeps_up: "upkeep v now unix (rw_since w) s = Some (since, s') \<Longrightarrow> ring_moves v ls (w, cq, s) (w\<lparr> rw_since := since \<rparr>, cq, s')"

definition outstanding :: "RingWorker \<Rightarrow> (flight \<times> int) list \<Rightarrow> flight multiset" where
  "outstanding w cq = mset (rw_ring w) + mset (map fst cq)"

definition ring_ok :: "Listener list \<Rightarrow> RingWorker \<Rightarrow> (flight \<times> int) list \<Rightarrow> bool" where
  "ring_ok ls w cq \<longleftrightarrow> fds_held (rw_slots w) (accepted cq) \<and> (\<forall>x. flights (outstanding w cq) x = expected ls (rw_slots w) x) \<and>
     (\<forall>(e, res)\<in>set cq. fits e res)"

lemma expected_single: "e \<in># expected ls S x \<Longrightarrow> expected ls S x = {#e#}"
  by (auto simp: expected_def split: Owner.splits option.splits if_splits)

text \<open>An outstanding operation is the one that is expected of its owner.\<close>

lemma outstanding_expected:
  assumes "ring_ok ls w cq" "e \<in># outstanding w cq"
  shows "expected ls (rw_slots w) (owner (fst e)) = {#e#}"
proof (rule expected_single)
  have "e \<in># flights (outstanding w cq) (owner (fst e))" using assms(2) by (simp add: flights_def)
  then show "e \<in># expected ls (rw_slots w) (owner (fst e))" using assms(1) by (simp add: ring_ok_def)
qed

lemma expected_slotD: "expected ls S (SlotOp i) = {#e#} \<Longrightarrow> \<exists>x. slot_at S i = Some x \<and> e = wanted i x"
  by (auto simp: expected_def split: option.splits)

lemma expected_listenerD: "expected ls S (ListenerOp l) = {#e#} \<Longrightarrow> l < length ls \<and> e = (ring_token ACCEPT l, OpAccept (listener_fd (ls ! l)))"
  by (auto simp: expected_def split: if_splits)

lemma expected_clockD: "expected ls S ClockOp = {#e#} \<Longrightarrow> e = (TICK, OpTimeout)"
  by (simp add: expected_def)

text \<open>The kernel's part.\<close>

lemma put_bytes_spec:
  assumes "fds_held S acc" "expected ls S (owner (fst e)) = {#e#}" "fits e (int (length bs)) \<or> bs = []"
  shows "fds_held (put_bytes e bs S) acc \<and> (\<forall>x. expected ls (put_bytes e bs S) x = expected ls S x)"
proof (cases "\<exists>u fd at len. e = (u, OpRecv fd at len)")
  case False
  then have "put_bytes e bs S = S" by (cases "(e, bs, S)" rule: put_bytes.cases) auto
  then show ?thesis using assms(1) by simp
next
  case True
  then obtain u fd at len where e: "e = (u, OpRecv fd at len)" by blast
  show ?thesis
  proof (cases "owner u")
    case (SlotOp i)
    then obtain x where x: "slot_at S i = Some x" "e = wanted i x" using expected_slotD assms(2) e by fastforce
    let ?c = "cl_conn x"
    let ?y = "x\<lparr> cl_conn := ?c\<lparr> co_buf := splice (co_buf ?c) at bs \<rparr> \<rparr>"
    have w: "\<not> owes ?c" "at = co_filled ?c" "len = length (co_buf ?c) - co_filled ?c"
      using x(2) e by (auto simp: wanted_def Let_def split: if_splits)
    have ok: "input_ok ?c" by (rule fds_heldD(4) [OF assms(1) x(1)])
    then have "at \<le> length (co_buf ?c)" using w(2) by (simp add: input_ok_def)
    moreover have "length bs \<le> len" using assms(3) e by auto
    ultimately have "at + length bs \<le> length (co_buf ?c)" using w(2,3) by linarith
    then have l: "length (splice (co_buf ?c) at bs) = length (co_buf ?c)" by (simp add: splice_def)
    have p: "put_bytes e bs S = change_slot i ?y S" using e SlotOp x(1) by simp
    have "wanted i ?y = wanted i x" using l by (simp add: wanted_def owes_def Let_def)
    then have "expected ls (change_slot i ?y S) z = expected ls S z" for z
      using expected_slot [OF slot_at_change [OF x(1)], of ls ?y z] x(1) by (simp add: expected_def)
    moreover have "input_ok (?c\<lparr> co_buf := splice (co_buf ?c) at bs \<rparr>)" using ok l by (simp add: input_ok_def)
    ultimately show ?thesis unfolding p using fds_held_change [OF assms(1) x(1), of ?y] by simp
  qed (use assms(1) e in simp_all)
qed

lemma accepted_append: "accepted (cq @ [(e, res)]) = accepted cq @ (if is_accept e \<and> 0 \<le> res then [nat res] else [])"
  by (simp add: accepted_def)

lemma accepted_Cons: "accepted ((e, res) # cq) = (if is_accept e \<and> 0 \<le> res then [nat res] else []) @ accepted cq"
  by (simp add: accepted_def)

lemma put_bytes_fds: "slot_at (put_bytes e bs S) i = Some y \<Longrightarrow> \<exists>x. slot_at S i = Some x \<and> cl_fd y = cl_fd x"
  by (cases "(e, bs, S)" rule: put_bytes.cases) (auto simp: slot_at_change split: Owner.splits option.splits if_splits)

lemma completes_ok:
  assumes "ring_ok ls w cq" "e \<in> set (rw_ring w)" "fits e res" "length bs = nat res"
    and fresh: "is_accept e \<and> 0 \<le> res \<Longrightarrow> res < 2 ^ 31 \<and> nat res \<notin> set (accepted cq) \<and> (\<forall>i x. slot_at (rw_slots w) i = Some x \<longrightarrow> cl_fd x \<noteq> nat res)"
  shows "ring_ok ls (w\<lparr> rw_ring := remove1 e (rw_ring w), rw_slots := put_bytes e bs (rw_slots w) \<rparr>) (cq @ [(e, res)])"
proof -
  let ?S = "put_bytes e bs (rw_slots w)"
  have "e \<in># outstanding w cq" using assms(2) by (simp add: outstanding_def)
  note ex = outstanding_expected [OF assms(1) this]
  have "fits e (int (length bs)) \<or> bs = []" using assms(3,4) by (cases "0 \<le> res") auto
  from put_bytes_spec [OF _ ex this] have h: "fds_held ?S (accepted cq)" and x: "expected ls ?S z = expected ls (rw_slots w) z" for z
    using assms(1) by (auto simp: ring_ok_def)
  have "fds_held ?S (accepted (cq @ [(e, res)]))"
  proof (cases "is_accept e \<and> 0 \<le> res")
    case True
    have "cl_fd y \<noteq> nat res" if "slot_at ?S i = Some y" for i y using put_bytes_fds [OF that] fresh [OF True] by metis
    then show ?thesis unfolding accepted_append using fds_held_accept [OF h, of "nat res"] fresh [OF True] True by (simp add: nat_less_iff)
  qed (use h in \<open>auto simp: accepted_append\<close>)
  moreover have "outstanding (w\<lparr> rw_ring := remove1 e (rw_ring w), rw_slots := ?S \<rparr>) (cq @ [(e, res)]) = outstanding w cq"
    using assms(2) by (simp add: outstanding_def)
  ultimately show ?thesis using assms(1,3) x by (auto simp: ring_ok_def)
qed

text \<open>The thread's part: the operation handled is no longer outstanding.\<close>

lemma handled:
  assumes "ring_ok ls w ((e, res) # cq)"
  shows "expected ls (rw_slots w) (owner (fst e)) = {#e#}" "fits e res"
    "flights (outstanding w cq) x = (if x = owner (fst e) then {#} else expected ls (rw_slots w) x)"
proof -
  have o: "outstanding w ((e, res) # cq) = add_mset e (outstanding w cq)" by (simp add: outstanding_def)
  then show ex: "expected ls (rw_slots w) (owner (fst e)) = {#e#}" using outstanding_expected [OF assms, of e] by simp
  show "fits e res" using assms by (simp add: ring_ok_def)
  have "flights (add_mset e (outstanding w cq)) y = expected ls (rw_slots w) y" for y
    using assms unfolding ring_ok_def o by blast
  then show "flights (outstanding w cq) x = (if x = owner (fst e) then {#} else expected ls (rw_slots w) x)"
    using ex flights_only(2) [of e "outstanding w cq" e x] by (metis (no_types))
qed

lemma arm_spec:
  "arm_accept room fd u ring = (True, ring') \<Longrightarrow> ring' = (u, OpAccept fd) # ring"
  "arm_tick room ring = (True, ring') \<Longrightarrow> ring' = (TICK, OpTimeout) # ring"
  by (auto simp: arm_accept_def arm_tick_def dest: try_put_spec)

text \<open>Submitting what was handled again leaves the thread in order.\<close>

lemma handled_again:
  assumes "ring_ok ls w ((e, res) # cq)" "ring' = e # rw_ring w"
  shows "fds_held (rw_slots w) (accepted cq) \<and> (\<forall>x. flights (outstanding (w\<lparr> rw_ring := ring' \<rparr>) cq) x = expected ls (rw_slots w) x) \<and> (\<forall>(e, res)\<in>set cq. fits e res)"
proof -
  have "fds_held (rw_slots w) (accepted cq)" using assms(1) fds_held_drop by (auto simp: ring_ok_def accepted_Cons split: if_splits)
  moreover have "outstanding (w\<lparr> rw_ring := ring' \<rparr>) cq = outstanding w ((e, res) # cq)" using assms(2) by (simp add: outstanding_def)
  ultimately show ?thesis using assms(1) by (simp add: ring_ok_def)
qed

lemma fds_held_handled: "ring_ok ls w ((e, res) # cq) \<Longrightarrow> fds_held (rw_slots w) (accepted cq)"
  using fds_held_drop by (auto simp: ring_ok_def accepted_Cons split: if_splits)

lemma written_input_ok: "input_ok c \<Longrightarrow> input_ok (written n c)"
  by (simp add: written_def input_ok_def)

lemma arrived_input_ok: "input_ok c \<Longrightarrow> input_ok (arrived n c)"
  by (auto simp: arrived_def input_ok_def)

text \<open>A slot emptied whose operation was handled.\<close>

lemma slot_emptied:
  assumes "ring_ok ls w ((e, res) # cq)" "owner (fst e) = SlotOp i" "slot_at S i = Some y" "\<And>j. slot_at S j = (if j = i then Some y else slot_at (rw_slots w) j)"
    "fds_held S (accepted cq)"
  shows "ring_ok ls (w\<lparr> rw_slots := discard i S \<rparr>) cq"
proof -
  have "slot_at (discard i S) j = (if j = i then None else slot_at (rw_slots w) j)" for j
    using slot_at_discard [OF fds_heldD(1) [OF assms(5)]] assms(4) by simp
  from expected_slot [OF this] have "flights (outstanding w cq) x = expected ls (discard i S) x" for x
    using handled(3) [OF assms(1), of x] assms(2) by simp
  then show ?thesis using fds_held_discard [OF assms(5)] assms(1) by (simp add: ring_ok_def outstanding_def)
qed

lemma carried_ok:
  assumes "ring_ok ls w ((e, res) # cq)" "owner (fst e) = SlotOp i" "dn_res d = res"
    and "carried v i d w s = Some (GoesOn, w', s')"
  shows "ring_ok ls w' cq"
proof -
  have h: "fds_held (rw_slots w) (accepted cq)" by (rule fds_held_handled [OF assms(1)])
  obtain x where x: "slot_at (rw_slots w) i = Some x" "e = wanted i x"
    using expected_slotD handled(1) [OF assms(1)] assms(2) by fastforce
  have i: "i < 2 ^ 62" using fds_held_slot [OF h x(1)] by simp
  show ?thesis
  proof (cases "res \<le> 0")
    case True
    then have "w' = w\<lparr> rw_slots := discard i (rw_slots w) \<rparr>" using assms(3,4) by (simp add: carried_def)
    then show ?thesis using slot_emptied [OF assms(1,2) x(1) _ h] x(1) by simp
  next
    case False
    let ?c = "if owes (cl_conn x) then written (nat res) (cl_conn x) else arrived (nat res) (cl_conn x)"
    obtain st c s1 where st: "step v ?c s = Some (st, c, s1)" using assms(3,4) False x(1) by (auto simp: carried_def Let_def bind_eq_Some_conv)
    have ok: "input_ok ?c" using fds_heldD(4) [OF h x(1)] written_input_ok arrived_input_ok by simp
    let ?y = "x\<lparr> cl_conn := c \<rparr>"
    let ?S = "change_slot i ?y (rw_slots w)"
    have h': "fds_held ?S (accepted cq)" using fds_held_change [OF h x(1), of ?y] step_input_ok [OF ok st] by simp
    note sl = slot_at_change [OF x(1), of ?y]
    have code: "carried v i d w s = (case st of
             None \<Rightarrow> Some (ProcessEnded, w\<lparr> rw_slots := ?S \<rparr>, s1)
           | Some StepClose \<Rightarrow> Some (GoesOn, w\<lparr> rw_slots := discard i ?S \<rparr>, s1)
           | Some st \<Rightarrow>
               let (put, ring) = submit (dn_room d) (cl_fd x) st i (rw_ring w)
               in if put then Some (GoesOn, w\<lparr> rw_slots := ?S, rw_ring := ring \<rparr>, s1)
                  else Some (IoFailed, w\<lparr> rw_slots := discard i ?S, rw_ring := ring \<rparr>, s1))"
      using assms(3) False x(1) st by (simp add: carried_def Let_def split: option.split Step.split prod.split)
    show ?thesis
    proof (cases "st = Some StepClose")
      case True
      then have "w' = w\<lparr> rw_slots := discard i ?S \<rparr>" using assms(4) unfolding code by simp
      then show ?thesis using slot_emptied [OF assms(1,2) _ sl h'] sl by simp
    next
      case False
      then obtain st' ring where g: "st = Some st'" "st' \<noteq> StepClose" "submit (dn_room d) (cl_fd x) st' i (rw_ring w) = (True, ring)"
          "w' = w\<lparr> rw_slots := ?S, rw_ring := ring \<rparr>"
        using assms(4) unfolding code by (auto simp: Let_def split: option.splits Step.splits prod.splits if_splits)
      have ring: "ring = wanted i ?y # rw_ring w" by (rule submit_wanted [OF st [unfolded g(1)] g(2) ok g(3)])
      have "flights (outstanding w' cq) z = expected ls ?S z" for z
        using handled(3) [OF assms(1), of z] expected_slot [OF sl, of ls z] assms(2) owner_wanted [OF i, of ?y]
        by (auto simp: g(4) ring outstanding_def)
      then show ?thesis using h' assms(1) by (simp add: ring_ok_def g(4))
    qed
  qed
qed

lemma took_ok:
  assumes "ring_ok ls w ((e, res) # cq)" "owner (fst e) = ListenerOp l" "dn_res d = res" "length ls \<le> 2 ^ 62"
    and "took v ls l d w s = Some (GoesOn, w', s')"
  shows "ring_ok ls w' cq"
proof -
  have l: "l < length ls" "e = (ring_token ACCEPT l, OpAccept (listener_fd (ls ! l)))"
    using expected_listenerD handled(1) [OF assms(1)] assms(2) by fastforce+
  let ?arm = "arm_accept (dn_rearm d) (listener_fd (ls ! l)) (ring_token ACCEPT l) (rw_ring w)"
  obtain ring where arm: "?arm = (True, ring)"
    using assms(5) l(1) by (cases ?arm) (auto simp: took_def Let_def ended_def split: if_splits)
  let ?w = "w\<lparr> rw_ring := ring \<rparr>"
  have again: "ring_ok ls ?w cq"
    using handled_again [OF assms(1), of ring] arm_spec(1) [OF arm] l(2) by (simp add: ring_ok_def)
  show ?thesis
  proof (cases "res < 0 \<or> \<not> dn_prepared d")
    case True
    then have "w' = ?w" using assms(3,5) l(1) arm by (auto simp: took_def Let_def ended_def split: if_splits)
    then show ?thesis using again by simp
  next
    case False
    let ?x = "client_new (nat res)"
    obtain st c s1 at S where step: "step v conn_new s = Some (Some st, c, s1)" "put_slot (?x\<lparr> cl_conn := c \<rparr>) (rw_slots w) = Some (at, S)"
        "fst (submit (dn_room d) (nat res) st at ring)" "w' = ?w\<lparr> rw_slots := S, rw_ring := snd (submit (dn_room d) (nat res) st at ring) \<rparr>"
      using assms(3,5) l(1) arm False
      by (auto simp: took_def Let_def bind_eq_Some_conv case_prod_unfold split: if_splits option.splits)
    obtain ring' where "submit (dn_room d) (nat res) st at ring = (True, ring')" using step(3) by (cases "submit (dn_room d) (nat res) st at ring") simp
    with step have g: "step v conn_new s = Some (Some st, c, s1)" "put_slot (?x\<lparr> cl_conn := c \<rparr>) (rw_slots w) = Some (at, S)"
        "submit (dn_room d) (nat res) st at ring = (True, ring')" "w' = ?w\<lparr> rw_slots := S, rw_ring := ring' \<rparr>" by simp_all
    have ok: "input_ok c" using step_input_ok [OF input_ok_new g(1)] .
    have st: "st \<noteq> StepClose"
      using g(1) step_new [of v s] by auto
    have "fds_held (rw_slots w) (nat res # accepted cq)" using assms(1) False l(2) by (simp add: ring_ok_def accepted_Cons)
    note h = fds_held_put [OF this g(2)]
    then have h': "fds_held S (accepted cq)" using ok by simp
    have sl: "slot_at (rw_slots w) at = None" "slot_at S i = (if i = at then Some (?x\<lparr> cl_conn := c \<rparr>) else slot_at (rw_slots w) i)" for i
      using put_slot_spec [OF fds_heldD(1) [OF fds_held_handled [OF assms(1)]], of "?x\<lparr> cl_conn := c \<rparr>"] g(2) by auto
    have i: "at < 2 ^ 62" using fds_held_slot [OF h'] sl(2) [of at] by fastforce
    have ring': "ring' = wanted at (?x\<lparr> cl_conn := c \<rparr>) # ring"
      using submit_wanted [OF g(1) st input_ok_new, of "dn_room d" ?x at ring ring'] g(3) by simp
    have none: "expected ls (rw_slots w) (SlotOp at) = {#}" using sl(1) by (simp add: expected_def)
    have "flights (outstanding w' cq) z = expected ls S z" for z
      using again expected_slot [OF sl(2), of ls z] owner_wanted [OF i, of "?x\<lparr> cl_conn := c \<rparr>"] none
      by (auto simp: ring_ok_def g(4) ring' outstanding_def)
    then show ?thesis using h' again by (simp add: ring_ok_def g(4))
  qed
qed

lemma on_done_ok:
  assumes "ring_ok ls w ((e, res) # cq)" "length ls \<le> 2 ^ 62" "on_done v ls d w s = Some (GoesOn, w', s')" "dn_user d = fst e" "dn_res d = res"
  shows "ring_ok ls w' cq"
proof (cases "owner (fst e)")
  case (ListenerOp l)
  then have "took v ls l d w s = Some (GoesOn, w', s')" using assms(3,4) by (auto simp: on_done_def owner_def Let_def split: if_splits)
  then show ?thesis by (rule took_ok [OF assms(1) ListenerOp assms(5,2)])
next
  case (SlotOp i)
  then have "carried v i d w s = Some (GoesOn, w', s')" using assms(3,4) by (auto simp: on_done_def owner_def Let_def split: if_splits)
  then show ?thesis by (rule carried_ok [OF assms(1) SlotOp assms(5)])
next
  case ClockOp
  then have e: "e = (TICK, OpTimeout)" using expected_clockD handled(1) [OF assms(1)] by metis
  obtain ring where "arm_tick (dn_rearm d) (rw_ring w) = (True, ring)" "w' = w\<lparr> rw_ring := ring \<rparr>"
    using assms(3,4) ClockOp by (auto simp: on_done_def owner_def Let_def ended_def split: if_splits prod.splits)
  then show ?thesis using handled_again [OF assms(1), of ring] arm_spec(2) e by (simp add: ring_ok_def)
qed

interpretation ringing: event_loop "ring_moves v ls" "\<lambda>(w, cq, s). length ls \<le> 2 ^ 62 \<and> ring_ok ls w cq" for v ls
proof
  fix a b
  assume moves: "ring_moves v ls a b" and before: "case a of (w, cq, s) \<Rightarrow> length ls \<le> 2 ^ 62 \<and> ring_ok ls w cq"
  from moves show "case b of (w, cq, s) \<Rightarrow> length ls \<le> 2 ^ 62 \<and> ring_ok ls w cq"
  proof (cases rule: ring_moves.cases)
    case (completes e w res bs cq s)
    then show ?thesis using completes_ok before by simp
  next
    case (handles d w s w' s' e res cq)
    then show ?thesis using on_done_ok [of ls w e res cq v d s w' s'] before by simp
  next
    case (ring_keeps_up now unix w s since s' cq)
    then show ?thesis using before by (simp add: ring_ok_def outstanding_def)
  qed
qed

section \<open>Starting\<close>

lemma arm_listeners_spec:
  "arm_listeners at ls ring = (True, ring') \<Longrightarrow>
   mset ring' = mset ring + mset (map (\<lambda>i. (ring_token ACCEPT (at + i), OpAccept (listener_fd (fst (ls ! i))))) [0..<length ls])"
proof (induction ls arbitrary: at ring)
  case (Cons l ls)
  obtain k room where l: "l = (k, room)" by force
  have "arm_listeners (at + 1) ls ((ring_token ACCEPT at, OpAccept (listener_fd k)) # ring) = (True, ring')"
    using Cons.prems l arm_spec(1) by (auto split: prod.splits if_splits)
  from Cons.IH [OF this] show ?case
    by (simp add: l upt_conv_Cons map_Suc_upt [symmetric] comp_def del: upt_Suc)
qed simp

lemma flights_accepts:
  assumes "n \<le> 2 ^ 62"
  shows "flights (mset (map (\<lambda>i. (ring_token ACCEPT i, OpAccept (f i))) [0..<n])) x =
    (case x of ListenerOp l \<Rightarrow> if l < n then {#(ring_token ACCEPT l, OpAccept (f l))#} else {#} | _ \<Rightarrow> {#})"
  using assms by (induction n) (auto simp: owner_token split: Owner.splits if_splits)

lemma ring_start_ok:
  assumes "ring_start ls room now = (True, w)" "length ls \<le> 2 ^ 62"
  shows "ring_ok (map fst ls) w []"
proof -
  obtain ring ring' where g: "arm_listeners 0 ls [] = (True, ring)" "arm_tick room ring = (True, ring')"
      "w = \<lparr> rw_slots = slots_new, rw_ring = ring', rw_since = now \<rparr>"
    using assms(1) by (auto simp: ring_start_def Let_def split: prod.splits if_splits)
  have "mset ring = mset (map (\<lambda>i. (ring_token ACCEPT i, OpAccept (listener_fd (fst (ls ! i))))) [0..<length ls])"
    using arm_listeners_spec [OF g(1)] by simp
  then have "flights (outstanding w []) x = expected (map fst ls) slots_new x" for x
    using flights_accepts [OF assms(2), of "\<lambda>i. listener_fd (fst (ls ! i))" x] arm_spec(2) [OF g(2)]
    by (auto simp: g(3) outstanding_def expected_def split: Owner.splits)
  then show ?thesis using fds_held_new by (simp add: ring_ok_def g(3) accepted_def)
qed

section \<open>What the ring promises\<close>

text \<open>
  C11: On a ring, whatever the kernel completes and in whatever order the completions are handled, every
  connection has exactly one operation outstanding, counting the completions that are waiting to be
  handled, and it is the one the connection's own state names: a send of the bytes it owes, or, when it
  owes nothing, a read into the free part of its buffer. An empty slot has none, so no operation can
  complete against a connection that took its place; every listener has one accept and the clock one
  tick. The slots never outnumber what a token can name.
\<close>

theorem one_operation_each:
  assumes "ring_start ls room now = (True, w0)" "length ls \<le> 2" "(ring_moves v (map fst ls))\<^sup>*\<^sup>* (w0, [], s0) (w, cq, s)"
  shows "(\<forall>i. flights (outstanding w cq) (SlotOp i) = (case slot_at (rw_slots w) i of
      None \<Rightarrow> {#}
    | Some x \<Rightarrow> {#if owes (cl_conn x)
        then (ring_token SEND i, OpSend (cl_fd x) (co_sent (cl_conn x)) (length (co_out (cl_conn x)) - co_sent (cl_conn x)))
        else (ring_token RECV i, OpRecv (cl_fd x) (co_filled (cl_conn x)) (length (co_buf (cl_conn x)) - co_filled (cl_conn x)))#})) \<and>
    (\<forall>l. flights (outstanding w cq) (ListenerOp l) = (if l < length ls then {#(ring_token ACCEPT l, OpAccept (listener_fd (fst (ls ! l))))#} else {#})) \<and>
    flights (outstanding w cq) ClockOp = {#(TICK, OpTimeout)#} \<and> length (sl_conns (rw_slots w)) \<le> 2 ^ 31 \<and> slots_ok (rw_slots w)"
proof -
  have le: "length ls \<le> 2 ^ 62" using assms(2) by simp
  have ok: "ring_ok (map fst ls) w cq"
    using ringing.comes_to_ok [OF assms(3)] ring_start_ok [OF assms(1) le] le by simp
  then have "flights (outstanding w cq) x = expected (map fst ls) (rw_slots w) x" for x by (simp add: ring_ok_def)
  then show ?thesis
    using ok fds_heldD(1,2) [of "rw_slots w" "accepted cq"] by (auto simp: ring_ok_def expected_def wanted_def Let_def split: option.splits)
qed

theorem one_operation_each_witness:
  "\<exists>w0 w s. ring_start [(UnixListener 3, [(False, True)])] [] 0 = (True, w0) \<and>
    (ring_moves sample_env [UnixListener 3])\<^sup>*\<^sup>* (w0, [], sample_server) (w, [], s) \<and>
    slot_at (rw_slots w) 0 = Some (client_new 4) \<and>
    flights (outstanding w []) (SlotOp 0) = {#(ring_token RECV 0, OpRecv 4 0 CHUNK)#}"
proof -
  let ?a = "(ring_token ACCEPT 0, OpAccept 3)" and ?t = "(TICK, OpTimeout)"
  let ?w0 = "\<lparr> rw_slots = slots_new, rw_ring = [?t, ?a], rw_since = 0 \<rparr>"
  let ?w1 = "\<lparr> rw_slots = slots_new, rw_ring = [?t], rw_since = 0 \<rparr>"
  let ?d = "\<lparr> dn_user = ring_token ACCEPT 0, dn_res = 4, dn_ordinary = False, dn_prepared = True, dn_rearm = [], dn_room = [] \<rparr>"
  let ?w2 = "\<lparr> rw_slots = \<lparr> sl_conns = [Some (client_new 4)], sl_free = [] \<rparr>, rw_ring = [(ring_token RECV 0, OpRecv 4 0 CHUNK), ?a, ?t], rw_since = 0 \<rparr>"
  obtain s where s: "counters sample_env connection_made sample_server = Some s" using counters_spec [OF sample_serving] by blast
  have start: "ring_start [(UnixListener 3, [(False, True)])] [] 0 = (True, ?w0)"
    by (simp add: ring_start_def arm_accept_def arm_tick_def numeral_2_eq_2)
  have "ring_moves sample_env [UnixListener 3] (?w0, [], sample_server) (?w0\<lparr> rw_ring := remove1 ?a [?t, ?a], rw_slots := put_bytes ?a [0, 0, 0, 0] slots_new \<rparr>, [] @ [(?a, 4)], sample_server)"
    using ring_moves.completes [of ?a ?w0 4 "[0, 0, 0, 0]" "[]" sample_env "[UnixListener 3]" sample_server] by (simp add: accepted_def)
  then have one: "ring_moves sample_env [UnixListener 3] (?w0, [], sample_server) (?w1, [(?a, 4)], sample_server)" by simp
  have tok: "ring_token ACCEPT 0 AND NOT INDEX = ACCEPT" "unat (ring_token ACCEPT 0 AND INDEX) = 0" by (rule token_decodes; simp)+
  have room: "try_put 2 [] e ring = (True, e # ring)" for e ring by (simp add: numeral_2_eq_2)
  have new: "(client_new 4)\<lparr> cl_conn := conn_new \<rparr> = client_new 4" by (simp add: client_new_def)
  have "took sample_env [UnixListener 3] 0 ?d ?w1 sample_server = Some (GoesOn, ?w2, s)"
    by (simp add: took_def arm_accept_def submit_def room put_slot_def slots_new_def step_new new s)
  then have "on_done sample_env [UnixListener 3] ?d ?w1 sample_server = Some (GoesOn, ?w2, s)"
    unfolding on_done_def Let_def Done.select_convs tok if_P [OF refl] .
  from ring_moves.handles [OF this, of ?a 4 "[]"] have two: "ring_moves sample_env [UnixListener 3] (?w1, [(?a, 4)], sample_server) (?w2, [], s)" by simp
  have run: "(ring_moves sample_env [UnixListener 3])\<^sup>*\<^sup>* (?w0, [], sample_server) (?w2, [], s)"
    by (rule converse_rtranclp_into_rtranclp [where r = "ring_moves sample_env [UnixListener 3]"], rule one,
        rule r_into_rtranclp [where r = "ring_moves sample_env [UnixListener 3]"], rule two)
  have sl: "slot_at (rw_slots ?w2) 0 = Some (client_new 4)" by (simp add: slot_at_def)
  have "flights (outstanding ?w2 []) (SlotOp 0) = {#(ring_token RECV 0, OpRecv 4 0 CHUNK)#}"
    using one_operation_each [OF start, of sample_env sample_server ?w2 "[]" s] run sl by (simp add: owes_def conn_new_def)
  then show ?thesis using start run sl by blast
qed

end
