(* ===== verification/Spec2Isabelle.thy ===== *)
theory Spec2Isabelle
  imports Rugo_Lock Rugo_Abstract Rugo_Memory Rugo_Setup Rugo_Deadlines Rugo_Loops Rugo_Flights
begin

text \<open>
  A verification development for rugo, a cache server that speaks the Redis protocol.

  \<^bold>\<open>The program.\<close> A server starts one thread a core (\<^verbatim>\<open>crates/rugo-server/src/lib.rs\<close>). Each thread accepts
  connections and keeps them in slots, on a poller or on an \<^verbatim>\<open>io_uring\<close> (\<^verbatim>\<open>uring.rs\<close>). A connection
  (\<^verbatim>\<open>conn.rs\<close>) buffers what arrives, parses every whole command out of it with \<^verbatim>\<open>rugo-resp\<close>, runs it
  (\<^verbatim>\<open>dispatch.rs\<close>) and buffers the replies. Commands work on one map that all threads share
  (\<^verbatim>\<open>crates/rugo-map\<close>): a hash (\<^verbatim>\<open>rugo-hash\<close>) picks a shard, a spin lock guards it, and a shard is an
  open-addressing table probed a group of control bytes at a time, whose slots are four-byte references
  into an arena of the shard's own (\<^verbatim>\<open>rugo-arena\<close>). Entries carry an expiry in whole seconds, measured
  against one clock; a ceiling on memory is kept by evicting.

  \<^bold>\<open>Layers of the model\<close>, each theory with the source it translates:
  \<^item> \<open>Rugo_Prelude\<close>: bytes and words, \<open>returns\<close> (a computation returns, and what it returns
    satisfies a predicate), checked subtraction, indexing and slices, which are \<open>None\<close> where the code
    panics.
  \<^item> \<open>Rugo_Hash\<close>: \<^verbatim>\<open>rugo-hash/src/lib.rs\<close>. \<open>Rugo_Entry\<close>: \<^verbatim>\<open>rugo-map/src/entry.rs\<close>. \<open>Rugo_Swar\<close>, \<open>Rugo_Group\<close>:
    \<^verbatim>\<open>group.rs\<close>, the three probes and the arithmetic on words behind the portable one.
  \<^item> \<open>Rugo_Arena\<close>: \<^verbatim>\<open>rugo-arena/src/lib.rs\<close> and \<^verbatim>\<open>segment.rs\<close>; \<open>Rugo_Store\<close> and \<open>Rugo_Memory\<close> its
    invariant and what an allocation promises.
  \<^item> \<open>Rugo_Table\<close>: \<^verbatim>\<open>rugo-map/src/table.rs\<close>; \<open>Rugo_Probe\<close>, \<open>Rugo_Shard\<close>, \<open>Rugo_Cache\<close> its invariant, its
    abstraction to a finite map from keys to value, expiry and flags, and the contract of every
    operation over that map.
  \<^item> \<open>Rugo_Clock\<close>, \<open>Rugo_Lock\<close>: \<^verbatim>\<open>clock.rs\<close> and \<^verbatim>\<open>lock.rs\<close>. \<open>Rugo_Map\<close>: \<^verbatim>\<open>rugo-map/src/lib.rs\<close>; \<open>Rugo_Sharded\<close> the
    contract of every operation of the map; \<open>Rugo_Room\<close> when a write succeeds; \<open>Rugo_Abstract\<close> the
    abstract cache, its histories, and the simulation.
  \<^item> \<open>Rugo_Resp\<close>: \<^verbatim>\<open>rugo-resp/src/lib.rs\<close>, parser, look-ahead and encoder, with their properties.
  \<^item> \<open>Rugo_Text\<close>: what the source uses of Rust's text functions. \<open>Rugo_Stats\<close>, \<open>Rugo_Config\<close>: \<^verbatim>\<open>stats.rs\<close> and
    \<^verbatim>\<open>config.rs\<close>; \<open>Rugo_Setup\<close> the properties of the latter.
  \<^item> \<open>Rugo_Dispatch\<close>: \<^verbatim>\<open>dispatch.rs\<close>, every command; \<open>Rugo_Serving\<close>, \<open>Rugo_Commands\<close> the contract of every
    handler and of \<^verbatim>\<open>run\<close>; \<open>Rugo_Promises\<close>, \<open>Rugo_Deadlines\<close> the properties a client sees.
  \<^item> \<open>Rugo_Conn\<close>: \<^verbatim>\<open>conn.rs\<close>; \<open>Rugo_Stream\<close> a reference service over a stream of bytes without buffers, and
    \<open>Rugo_Wire\<close> the refinement and what follows from it.
  \<^item> \<open>Rugo_Slots\<close>, \<open>Rugo_Worker\<close>, \<open>Rugo_Loops\<close>: the poller loop of \<^verbatim>\<open>rugo-server/src/lib.rs\<close> with the events of
    \<^verbatim>\<open>rugo-net/src/lib.rs\<close>. \<open>Rugo_Ring\<close>, \<open>Rugo_Flights\<close>: the completion loop of \<^verbatim>\<open>uring.rs\<close>.

  A \<^verbatim>\<open>struct\<close> is a record, an enumeration a datatype, a \<^verbatim>\<open>u8\<close>, \<^verbatim>\<open>u16\<close>, \<^verbatim>\<open>u32\<close> or \<^verbatim>\<open>u64\<close> a word, a
  \<^verbatim>\<open>usize\<close> a natural number with the subtractions checked and the wrapping or saturating operations
  written out, an \<^verbatim>\<open>i64\<close> an integer with the range checked or the wrap written out. A mutable borrow is
  explicit state passing, a loop a recursive function, a \<^verbatim>\<open>Result\<close> a sum. A panic is \<open>None\<close>: a property
  that says \<open>returns\<close> says that there is none and that the code terminates.

  \<^bold>\<open>Interfaces.\<close> \<open>probe_target\<close> is what the table needs of a group probe, interpreted on SSE2, NEON and the
  portable one. \<open>block_store\<close> is what the table needs of an allocator, interpreted on the arena.
  \<open>cache_machine\<close> and \<open>counted_machine\<close> are what a client relies on of the cache, interpreted on the
  sharded map. \<open>event_loop\<close> is what the two loops of a thread share, interpreted on both.

  \<^bold>\<open>Parameters.\<close> The target's probe and page size, whether the system grants memory, the capacities the
  allocator of Rust gives a vector, the operating system's clock and entropy, what reads, writes and
  accepts on a socket meet, the flags of \<^verbatim>\<open>libc\<close>, the Unicode tables of Rust, and the order in which the
  kernel completes operations. The hypotheses on them are few and stand in the statements: the unit
  in which segments are mapped divides a mebibyte, and the kernel does not give out a descriptor that
  is still open.

  \<^bold>\<open>What is shown.\<close>
  \<^item> A client: a \<^verbatim>\<open>SET\<close> and a \<^verbatim>\<open>GET\<close> sent as bytes are answered \<^verbatim>\<open>OK\<close> and the value; every command on a
    server in order returns, with exactly one well-formed reply; of a pipeline every whole command taken
    has one reply, in order, and the loop stops for a reason the statement lists; while the connection
    is open and its replies are under their ceiling, cutting the bytes in two does not matter;
    conditional writes, counters and expiries do what they say, and deletions count what they
    remove, overdue entries nobody has read included.
  \<^item> A connection: the loop with its look-ahead and its buffers refines a service over byte streams; the
    buffers stay in bounds; a turn returns whatever the socket does; a ring reads only when no
    whole command is waiting.
  \<^item> A thread: slots, free stack and registrations stay in step; one client's event leaves the others
    alone; on a ring every connection has exactly one operation outstanding; the upkeep sweeps a bounded
    slice of one shard and drops only what is due; the lock excludes, and with reads and writes of the
    guarded value as separate steps no update is lost.
  \<^item> The map: every operation is a step of an abstract cache, and so is every history; a read answers the
    last write or nothing; small writes succeed when memory is granted; blocks of the arena never overlap.
  \<^item> The formats: requests, entries and integers survive a round trip; what the parser answers of a
    prefix is final but for the inline limit; the look-ahead with the parser; the probes, the newline scan and the hasher with their
    plain definitions; configurations are in range and
    build a map in order.
  \<^item> Where the code does not do what it means to: a refused growth of the arena gives a block out twice;
    a long expiry deletes its key; a turn can leave a whole command waiting; on \<^verbatim>\<open>kqueue\<close> a half-closed
    client is dropped and an event of a closed connection can close its successor. A refusal of memory is
    therefore the one outcome after which only readability is claimed (\<open>limping\<close>).

  \<^bold>\<open>Bounds.\<close> No definition of the model has fuel except the reference service, whose fuel is the number
  of bytes pending, enough because a command is at least one byte; the other loops terminate by a
  measure, or run over a list of what the kernel answers, past the end of which a socket would block.

  \<^bold>\<open>Not modelled.\<close> Binding the listeners, starting threads, signals and the process's exit
  (\<^verbatim>\<open>Server::new\<close>, \<^verbatim>\<open>Server::run\<close>, \<^verbatim>\<open>rugo/src/main.rs\<close>) and the system calls of \<^verbatim>\<open>rugo-net\<close>, because they are
  the operating system's; the shared queues of \<^verbatim>\<open>rugo-net/src/uring.rs\<close>, which are memory shared with the
  kernel through raw pointers; prefetches, which change nothing (the
  look-ahead of a connection finds the keys as the code does, and the lock and the reads of \<^verbatim>\<open>warm\<close> and
  \<^verbatim>\<open>warm_entry\<close> that it would do for them are left out); \<^verbatim>\<open>Debug\<close> output; the benchmark harness
  under \<^verbatim>\<open>xtask\<close>, the fuzz targets, benches and tests. Memory order is sequentially consistent
  in the model of the lock, and a command on the map is one step, since each shard is used only
  under its lock.
\<close>

end
